(* ===== verification/Prelude.thy ===== *)
theory Prelude
  imports Main "HOL-Library.Word"
begin

text \<open>
  Shared vocabulary of the development: machine types of the 32-bit ARM target (BeagleBone
  Black), the C integer conversions the drivers rely on, the outcome type of a kernel-side
  function, and generic facts on lists that several components use.

  Sizes, offsets and return codes are mathematical integers with the conversions of C written
  out: \<open>to_u32\<close> for a value stored into \<open>size_t\<close>/\<open>unsigned\<close>, \<open>to_s32\<close> for \<open>int\<close>/\<open>ssize_t\<close>,
  \<open>to_s64\<close> for \<open>loff_t\<close>. Bytes and registers are words.
\<close>

named_theorems c_simps \<open>identity laws of the C integer conversions, in range\<close>
named_theorems outcome_simps \<open>evaluation of the outcome type\<close>

section \<open>Machine types\<close>

type_synonym u8 = "8 word"
type_synonym u16 = "16 word"
type_synonym u32 = "32 word"

definition to_u32 :: "int \<Rightarrow> int" where
  "to_u32 x = x mod 2 ^ 32"

definition to_s32 :: "int \<Rightarrow> int" where
  "to_s32 x = (x + 2 ^ 31) mod 2 ^ 32 - 2 ^ 31"

definition to_s64 :: "int \<Rightarrow> int" where
  "to_s64 x = (x + 2 ^ 63) mod 2 ^ 64 - 2 ^ 63"

lemma to_u32_id [c_simps]: "0 \<le> x \<Longrightarrow> x < 4294967296 \<Longrightarrow> to_u32 x = x"
  by (simp add: to_u32_def)

lemma to_s32_id [c_simps]: "- 2147483648 \<le> x \<Longrightarrow> x < 2147483648 \<Longrightarrow> to_s32 x = x"
  by (simp add: to_s32_def)

lemma to_s64_id [c_simps]:
  "- 9223372036854775808 \<le> x \<Longrightarrow> x < 9223372036854775808 \<Longrightarrow> to_s64 x = x"
  by (simp add: to_s64_def)

lemma to_u32_range: "0 \<le> to_u32 x" "to_u32 x < 4294967296"
  by (simp_all add: to_u32_def)

lemma to_s32_range: "- 2147483648 \<le> to_s32 x" "to_s32 x < 2147483648"
  by (simp_all add: to_s32_def)

lemma to_u32_minus [c_simps]: "- 4294967296 \<le> x \<Longrightarrow> x < 0 \<Longrightarrow> to_u32 x = x + 4294967296"
  using mod_pos_pos_trivial [of "x + 4294967296" 4294967296]
  by (simp add: to_u32_def)

lemma to_s64_over [c_simps]:
  "9223372036854775808 \<le> x \<Longrightarrow> x < 27670116110564327424 \<Longrightarrow> to_s64 x = x - 18446744073709551616"
  using mod_pos_pos_trivial [of "x - 9223372036854775808" 18446744073709551616]
    minus_mod_self2 [of "x + 9223372036854775808" 18446744073709551616]
  by (simp add: to_s64_def)

section \<open>Error codes\<close>

text \<open>
  The error numbers the drivers name; \<open>EOTHER n\<close> is any other number a kernel service may
  answer with. A C function returns \<open>- code e\<close>.
\<close>

datatype errno =
  EINTR | EIO | ENOMEM | EFAULT | ENODEV | EINVAL | ERESTARTSYS | EOTHER nat

fun code :: "errno \<Rightarrow> int" where
  "code EINTR = 4"
| "code EIO = 5"
| "code ENOMEM = 12"
| "code EFAULT = 14"
| "code ENODEV = 19"
| "code EINVAL = 22"
| "code ERESTARTSYS = 512"
| "code (EOTHER n) = int n + 1"

definition neg :: "errno \<Rightarrow> int" where
  "neg e = - code e"

lemma code_pos [simp]: "0 < code e"
  by (cases e) simp_all

lemma neg_neg [simp]: "neg e < 0" "neg e \<noteq> 0" "\<not> 0 \<le> neg e"
  by (cases e; simp add: neg_def)+

section \<open>Outcomes\<close>

text \<open>
  A driver function returns, faults (an access the C code has no right to make: the kernel
  oopses or memory is corrupted), or never returns because it waits for a lock nobody
  releases.
\<close>

datatype fault =
  Null_deref | Out_of_bounds | Bad_address | Use_after_free | Stack_overflow | Undefined_shift

datatype 'a outcome = Ret 'a | Fault fault | Blocked

fun obind :: "'a outcome \<Rightarrow> ('a \<Rightarrow> 'b outcome) \<Rightarrow> 'b outcome" where
  "obind (Ret x) f = f x"
| "obind (Fault e) f = Fault e"
| "obind Blocked f = Blocked"

definition deref :: "'p option \<Rightarrow> ('p \<Rightarrow> 'b outcome) \<Rightarrow> 'b outcome" where
  \<comment> \<open>use of a pointer: a null pointer faults\<close>
  "deref p f = (case p of None \<Rightarrow> Fault Null_deref | Some x \<Rightarrow> f x)"

lemma deref_simps [simp, outcome_simps]:
  "deref None f = Fault Null_deref" "deref (Some x) f = f x"
  by (simp_all add: deref_def)

lemma obind_Ret_iff: "obind m f = Ret y \<longleftrightarrow> (\<exists>x. m = Ret x \<and> f x = Ret y)"
  by (cases m) auto

lemma obind_Fault_iff: "obind m f = Fault e \<longleftrightarrow> m = Fault e \<or> (\<exists>x. m = Ret x \<and> f x = Fault e)"
  by (cases m) auto

lemma case_sum_outcome:
  "(case x of Inl a \<Rightarrow> f a | Inr b \<Rightarrow> g b) = Ret y \<longleftrightarrow>
    (\<exists>a. x = Inl a \<and> f a = Ret y) \<or> (\<exists>b. x = Inr b \<and> g b = Ret y)"
  "(case x of Inl a \<Rightarrow> f a | Inr b \<Rightarrow> g b) = Fault e \<longleftrightarrow>
    (\<exists>a. x = Inl a \<and> f a = Fault e) \<or> (\<exists>b. x = Inr b \<and> g b = Fault e)"
  by (cases x; simp)+

lemma obind_assoc: "obind (obind m f) g = obind m (\<lambda>x. obind (f x) g)"
  by (cases m) simp_all

section \<open>Sessions\<close>

text \<open>A sequence of calls on a state, until one of them faults or does not return.\<close>

fun session :: "('s \<Rightarrow> 'c \<Rightarrow> ('r \<times> 's) outcome) \<Rightarrow> 's \<Rightarrow> 'c list \<Rightarrow> ('r list \<times> 's) outcome" where
  "session op s [] = Ret ([], s)"
| "session op s (c # cs) =
     obind (op s c) (\<lambda>(r, s'). obind (session op s' cs) (\<lambda>(rs, z). Ret (r # rs, z)))"

lemma session_Cons_Ret:
  "op s c = Ret (r, s') \<Longrightarrow> session op s' cs = Ret (rs, z) \<Longrightarrow> session op s (c # cs) = Ret (r # rs, z)"
  by simp

lemma session_snoc:
  "session op s cs = Ret (rs, z) \<Longrightarrow> op z c = Ret (r, z') \<Longrightarrow> session op s (cs @ [c]) = Ret (rs @ [r], z')"
  by (induction cs arbitrary: s rs) (auto simp: obind_Ret_iff split: prod.splits)

lemma session_length: "session op s cs = Ret (rs, z) \<Longrightarrow> length rs = length cs"
  by (induction cs arbitrary: s rs) (auto simp: obind_Ret_iff split: prod.splits)

section \<open>Arrays as lists\<close>

text \<open>
  \<open>segment p n xs\<close> reads \<open>n\<close> elements from index \<open>p\<close>; \<open>blit p ys xs\<close> overwrites the elements
  from index \<open>p\<close> on with \<open>ys\<close>. Both are used only where \<open>in_bounds\<close> holds; the callers write
  the fault of the other case.
\<close>

definition segment :: "nat \<Rightarrow> nat \<Rightarrow> 'a list \<Rightarrow> 'a list" where
  "segment p n xs = take n (drop p xs)"

definition blit :: "nat \<Rightarrow> 'a list \<Rightarrow> 'a list \<Rightarrow> 'a list" where
  "blit p ys xs = take p xs @ ys @ drop (p + length ys) xs"

definition in_bounds :: "int \<Rightarrow> int \<Rightarrow> 'a list \<Rightarrow> bool" where
  "in_bounds p n xs \<longleftrightarrow> 0 \<le> p \<and> 0 \<le> n \<and> p + n \<le> int (length xs)"

lemma length_segment [simp]: "p + n \<le> length xs \<Longrightarrow> length (segment p n xs) = n"
  by (simp add: segment_def)

lemma length_blit [simp]: "p + length ys \<le> length xs \<Longrightarrow> length (blit p ys xs) = length xs"
  by (simp add: blit_def)

lemma segment_blit_same:
  "p + length ys \<le> length xs \<Longrightarrow> n = length ys \<Longrightarrow> segment p n (blit p ys xs) = ys"
  by (simp add: segment_def blit_def min_absorb2)

lemma nth_blit:
  assumes "p + length ys \<le> length xs" "i < length xs"
  shows "blit p ys xs ! i = (if p \<le> i \<and> i < p + length ys then ys ! (i - p) else xs ! i)"
  using assms by (auto simp: blit_def nth_append)

lemma segment_blit_disjoint:
  assumes "p + length ys \<le> length xs" "q + n \<le> p \<or> p + length ys \<le> q" "q + n \<le> length xs"
  shows "segment q n (blit p ys xs) = segment q n xs"
  using assms by (intro nth_equalityI) (auto simp: segment_def nth_blit)

lemma segment_all [simp]: "segment 0 (length xs) xs = xs"
  by (simp add: segment_def)

section \<open>Words in memory\<close>

text \<open>The bytes of a 32-bit word in the memory of the little-endian target.\<close>

definition le_bytes :: "u32 \<Rightarrow> u8 list" where
  "le_bytes w = [ucast w, ucast (drop_bit 8 w), ucast (drop_bit 16 w), ucast (drop_bit 24 w)]"

lemma length_le_bytes [simp]: "length (le_bytes w) = 4"
  by (simp add: le_bytes_def)

definition le_word :: "u8 list \<Rightarrow> u32" where
  "le_word bs = (case bs of
       [b0, b1, b2, b3] \<Rightarrow> or (ucast b0) (or (push_bit 8 (ucast b1)) (or (push_bit 16 (ucast b2)) (push_bit 24 (ucast b3))))
     | _ \<Rightarrow> 0)"

lemma le_word_bytes [simp]: "le_word (le_bytes w) = w"
proof (rule bit_word_eqI)
  fix n assume n: "n < LENGTH(32)"
  have "n < 8 \<or> (8 \<le> n \<and> n < 16) \<or> (16 \<le> n \<and> n < 24) \<or> 24 \<le> n" by auto
  then show "bit (le_word (le_bytes w)) n \<longleftrightarrow> bit w n"
    using n by (auto simp: le_word_def le_bytes_def bit_simps)
qed

end
