(* ===== verification/Kernel.thy ===== *)
theory Kernel
  imports Prelude
begin

text \<open>
  The kernel as the drivers see it. Nothing of the kernel is under src/, so no kernel service
  is implemented here: a call is an event that carries the arguments a property needs and the
  answer the kernel gave, and the answers are parameters (an environment record) of the model
  of each driver function. What is written down is the bookkeeping that the kernel's
  documentation attaches to the calls: which call hands out which resource and which call
  gives it back (\<open>effect\<close>), and the ledger of what a module holds after a sequence of calls.

  The one stateful service modelled is the mutex, as documented: taking a free mutex
  succeeds; waiting on a held one ends only with a signal.
\<close>

named_theorems ledger_simps \<open>evaluation of ledgers\<close>

section \<open>Pointers a kernel service answers with\<close>

datatype kptr = Null | Ptr nat | Err_ptr errno

fun IS_ERR :: "kptr \<Rightarrow> bool" where
  "IS_ERR (Err_ptr e) = True"
| "IS_ERR _ = False"

fun PTR_ERR :: "kptr \<Rightarrow> int" where
  "PTR_ERR (Err_ptr e) = neg e"
| "PTR_ERR Null = 0"
| "PTR_ERR (Ptr n) = int n"

lemma PTR_ERR_neg [simp]: "IS_ERR p \<Longrightarrow> PTR_ERR p < 0" "IS_ERR p \<Longrightarrow> PTR_ERR p \<noteq> 0"
  by (cases p; simp)+

section \<open>Calls that hand out and give back resources\<close>

datatype resource =
  Chrdev_region | Dev_class | Cdev | Device_node | Kobject | Attr_file string
| Gpio_line | Irq_line | Managed string

datatype kcall =
  alloc_chrdev_region int
| unregister_chrdev_region
| class_create kptr
| class_destroy
| cdev_init
| cdev_add int
| cdev_del
| device_create kptr kptr  \<comment> \<open>the class it is given, the answer\<close>
| device_destroy
| kobject_create_and_add kptr
| kobject_put
| sysfs_create_file string string int  \<comment> \<open>the parent directory, the attribute, the answer\<close>
| sysfs_remove_file string string  \<comment> \<open>the parent directory, the attribute\<close>
| device_create_file string int
| device_remove_file string
| devm_alloc string kptr
| devm_free string
| set_drvdata
| spi_setup int
| gpiod_get kptr
| gpiod_put
| request_irq int
| free_irq
| regmap_exit
| rtc_device_register kptr

datatype bookkeeping = Acquire resource | Release resource | Neutral

definition acquire_if :: "bool \<Rightarrow> resource \<Rightarrow> bookkeeping" where
  "acquire_if b r = (if b then Acquire r else Neutral)"

fun valid_ptr :: "kptr \<Rightarrow> bool" where
  "valid_ptr (Ptr n) = True"
| "valid_ptr _ = False"

fun effect :: "kcall \<Rightarrow> bookkeeping" where
  "effect (alloc_chrdev_region r) = acquire_if (0 \<le> r) Chrdev_region"
| "effect unregister_chrdev_region = Release Chrdev_region"
| "effect (class_create p) = acquire_if (valid_ptr p) Dev_class"
| "effect class_destroy = Release Dev_class"
| "effect (cdev_add r) = acquire_if (0 \<le> r) Cdev"
| "effect cdev_del = Release Cdev"
| "effect (device_create c p) = acquire_if (valid_ptr p) Device_node"
| "effect device_destroy = Release Device_node"
| "effect (kobject_create_and_add p) = acquire_if (valid_ptr p) Kobject"
| "effect kobject_put = Release Kobject"
| "effect (device_create_file a r) = acquire_if (r = 0) (Attr_file a)"
| "effect (device_remove_file a) = Release (Attr_file a)"
| "effect (devm_alloc a p) = acquire_if (valid_ptr p) (Managed a)"
| "effect (devm_free a) = Release (Managed a)"
| "effect (gpiod_get p) = acquire_if (valid_ptr p) Gpio_line"
| "effect gpiod_put = Release Gpio_line"
| "effect (request_irq r) = acquire_if (0 \<le> r) Irq_line"
| "effect free_irq = Release Irq_line"
| "effect _ = Neutral"

section \<open>The ledger\<close>

text \<open>
  \<open>ledger held calls\<close> is what is held after the calls, most recent first, or \<open>None\<close> when a
  call gives back what is not held or takes what is already held. \<open>stack_ledger\<close> also wants
  releases in the reverse order of the acquisitions.
\<close>

fun book :: "resource list \<Rightarrow> kcall \<Rightarrow> resource list option" where
  "book held c =
     (case effect c of
        Neutral \<Rightarrow> Some held
      | Acquire r \<Rightarrow> if r \<in> set held then None else Some (r # held)
      | Release r \<Rightarrow> if r \<in> set held then Some (remove1 r held) else None)"

fun ledger :: "resource list \<Rightarrow> kcall list \<Rightarrow> resource list option" where
  "ledger held [] = Some held"
| "ledger held (c # cs) =
     (case book held c of None \<Rightarrow> None | Some held' \<Rightarrow> ledger held' cs)"

fun stack_ledger :: "resource list \<Rightarrow> kcall list \<Rightarrow> resource list option" where
  "stack_ledger held [] = Some held"
| "stack_ledger held (c # cs) =
     (case effect c of
        Neutral \<Rightarrow> stack_ledger held cs
      | Acquire r \<Rightarrow> if r \<in> set held then None else stack_ledger (r # held) cs
      | Release r \<Rightarrow> (case held of [] \<Rightarrow> None
          | r' # rest \<Rightarrow> if r = r' then stack_ledger rest cs else None))"

declare book.simps [ledger_simps] acquire_if_def [ledger_simps] valid_ptr.simps [ledger_simps]

lemma ledger_append:
  "ledger held (cs @ ds) = (case ledger held cs of None \<Rightarrow> None | Some h \<Rightarrow> ledger h ds)"
  by (induction held cs rule: ledger.induct) (simp_all split: option.splits)

lemma ledger_distinct: "ledger held cs = Some h \<Longrightarrow> distinct held \<Longrightarrow> distinct h"
  by (induction held cs rule: ledger.induct)
     (auto split: option.splits bookkeeping.splits if_splits)

text \<open>The stack discipline is a special case of the ledger.\<close>

lemma stack_ledger_imp_ledger: "stack_ledger held cs = Some h \<Longrightarrow> ledger held cs = Some h"
  by (induction held cs rule: stack_ledger.induct)
     (auto split: option.splits bookkeeping.splits if_splits list.splits)

text \<open>
  The files of a kobject's directory go with it, so they are not on the ledger. \<open>misplaced\<close>
  lists the removals of files from directories in which they were not created before.
\<close>

fun misplaced :: "(string \<times> string) list \<Rightarrow> kcall list \<Rightarrow> (string \<times> string) list" where
  "misplaced files [] = []"
| "misplaced files (sysfs_create_file d a r # cs) = misplaced (if r = 0 then (d, a) # files else files) cs"
| "misplaced files (sysfs_remove_file d a # cs) =
     (if (d, a) \<in> set files then misplaced (remove1 (d, a) files) cs else (d, a) # misplaced files cs)"
| "misplaced files (c # cs) = misplaced files cs"

text \<open>What is left of the acquisitions, whether or not the releases fit them.\<close>

fun residue :: "resource list \<Rightarrow> kcall list \<Rightarrow> resource list" where
  "residue held [] = held"
| "residue held (c # cs) =
     (case effect c of
        Neutral \<Rightarrow> residue held cs
      | Acquire r \<Rightarrow> residue (r # held) cs
      | Release r \<Rightarrow> residue (remove1 r held) cs)"

lemma ledger_residue: "ledger held cs = Some h \<Longrightarrow> residue held cs = h"
  by (induction held cs rule: ledger.induct)
     (auto split: option.splits bookkeeping.splits if_splits)

text \<open>What the driver core gives back on its own when a device is unbound or a probe fails.\<close>

fun managed :: "resource \<Rightarrow> bool" where
  "managed (Managed a) = True"
| "managed _ = False"

definition unmanaged :: "resource list \<Rightarrow> resource list" where
  "unmanaged rs = filter (\<lambda>r. \<not> managed r) rs"

lemma unmanaged_simps [simp]:
  "unmanaged [] = []"
  "unmanaged (r # rs) = (if managed r then unmanaged rs else r # unmanaged rs)"
  by (simp_all add: unmanaged_def)

section \<open>The contracts of load and unload functions\<close>

text \<open>
  \<open>unwinding\<close>: a probe or init function that honours its resources, whatever documented
  answers the kernel gives: one that reports success holds exactly what \<open>owned\<close> names, one
  that reports failure holds nothing. \<open>module_lifecycle\<close> adds an unload that gives back all of
  it. The client lemmas are about a driver core that retries a probe until it succeeds, and
  about an administrator who loads and unloads the module any number of times: nothing is
  ever leaked, taken twice or given back twice.
\<close>

locale unwinding =
  fixes documented :: "'env \<Rightarrow> bool"
    and load :: "'env \<Rightarrow> int \<times> kcall list"
    and owned :: "resource list"
  assumes load_ok:
      "documented e \<Longrightarrow> fst (load e) = 0 \<Longrightarrow> ledger [] (snd (load e)) = Some owned"
    and load_fails:
      "documented e \<Longrightarrow> fst (load e) \<noteq> 0 \<Longrightarrow> ledger [] (snd (load e)) = Some []"
begin

text \<open>The driver core tries again and again, until an attempt succeeds.\<close>

fun attempts :: "'env list \<Rightarrow> kcall list" where
  "attempts [] = []"
| "attempts (e # es) = snd (load e) @ (if fst (load e) = 0 then [] else attempts es)"

lemma attempts_hold:
  "list_all documented es \<Longrightarrow>
   ledger [] (attempts es) = Some (if list_ex (\<lambda>e. fst (load e) = 0) es then owned else [])"
  by (induction es) (simp_all add: ledger_append load_ok load_fails)

end

locale module_lifecycle = unwinding documented load owned
    for documented :: "'env \<Rightarrow> bool" and load :: "'env \<Rightarrow> int \<times> kcall list" and owned :: "resource list" +
  fixes unload :: "kcall list"
  assumes unload_frees: "ledger owned unload = Some []"
begin

text \<open>One \<open>insmod\<close>, followed by \<open>rmmod\<close> when it succeeded.\<close>

fun cycles :: "'env list \<Rightarrow> kcall list" where
  "cycles [] = []"
| "cycles (e # es) =
     snd (load e) @ (if fst (load e) = 0 then unload else []) @ cycles es"

lemma one_cycle:
  "documented e \<Longrightarrow> ledger [] (snd (load e) @ (if fst (load e) = 0 then unload else [])) = Some []"
  using load_ok load_fails unload_frees by (simp add: ledger_append)

lemma cycles_balanced: "list_all documented es \<Longrightarrow> ledger [] (cycles es) = Some []"
proof (induction es)
  case (Cons e es)
  have split: "cycles (e # es) =
      (snd (load e) @ (if fst (load e) = 0 then unload else [])) @ cycles es"
    by simp
  from Cons.prems have "documented e" "list_all documented es" by simp_all
  then show ?case
    by (simp only: split ledger_append [of "[]" "_ @ _"] one_cycle option.case Cons.IH)
qed simp

lemma cycles_then_load:
  "list_all documented es \<Longrightarrow> documented e \<Longrightarrow> ledger [] (cycles es @ snd (load e)) = Some (if fst (load e) = 0 then owned else [])"
  by (simp add: ledger_append cycles_balanced load_ok load_fails)

end

section \<open>The answers a character device registration depends on\<close>

record chrdev_env =
  alloc_ret :: int
  class_ret :: kptr
  cdev_add_ret :: int
  device_ret :: kptr

text \<open>\<open>class_create\<close> and \<open>device_create\<close> answer a pointer or an error pointer, never NULL.\<close>

fun documented_answers :: "chrdev_env \<Rightarrow> bool" where
  "documented_answers e = (class_ret e \<noteq> Null \<and> device_ret e \<noteq> Null)"

definition chrdev_owned :: "resource list" where
  "chrdev_owned = [Device_node, Cdev, Dev_class, Chrdev_region]"

lemma kptr_answer: "p \<noteq> Null \<Longrightarrow> \<not> IS_ERR p \<Longrightarrow> valid_ptr p" "IS_ERR p \<Longrightarrow> \<not> valid_ptr p"
  by (cases p; simp)+

text \<open>
  The driver data pointer of a device: the driver core clears it before a probe, and a driver
  stores its private structure there itself.
\<close>

definition drvdata_after :: "kcall list \<Rightarrow> unit option" where
  "drvdata_after calls = (if set_drvdata \<in> set calls then Some () else None)"

section \<open>The mutex\<close>

datatype lock_answer = Locked | Interrupted | Waits

definition mutex_lock_interruptible :: "bool \<Rightarrow> bool \<Rightarrow> lock_answer" where
  \<comment> \<open>\<open>signal\<close>: a signal arrives while the caller sleeps; \<open>held\<close>: somebody has the mutex\<close>
  "mutex_lock_interruptible signal held =
     (if \<not> held then Locked else if signal then Interrupted else Waits)"

lemma mutex_simps [simp]:
  "mutex_lock_interruptible sg False = Locked"
  "mutex_lock_interruptible True True = Interrupted"
  "mutex_lock_interruptible False True = Waits"
  by (simp_all add: mutex_lock_interruptible_def)

section \<open>Copies between user and kernel memory\<close>

text \<open>
  \<open>copy_to_user\<close> and \<open>copy_from_user\<close> answer the number of bytes they could not copy;
  \<open>left\<close> is that answer. \<open>copy_from_user\<close> is documented to pad the bytes it could not
  copy with zeros, so it writes \<open>n\<close> bytes of the destination in every case (\<open>from_user\<close>).
\<close>

definition is_size_t :: "int \<Rightarrow> bool" where
  "is_size_t n \<longleftrightarrow> 0 \<le> n \<and> n < 2 ^ 32"

definition is_copy_answer :: "(int \<Rightarrow> int) \<Rightarrow> bool" where
  \<comment> \<open>documented: the number of bytes, out of \<open>n\<close>, that were not copied\<close>
  "is_copy_answer left \<longleftrightarrow> (\<forall>n\<ge>0. 0 \<le> left n \<and> left n \<le> n)"

lemma copy_answer_bounds: "is_copy_answer left \<Longrightarrow> 0 \<le> n \<Longrightarrow> 0 \<le> left n \<and> left n \<le> n"
  by (simp add: is_copy_answer_def)

definition from_user :: "u8 list \<Rightarrow> nat \<Rightarrow> nat \<Rightarrow> u8 list" where
  "from_user user n left = take (n - left) user @ replicate (n - length (take (n - left) user)) 0"

lemma length_from_user [simp]: "length (from_user user n left) = n"
  by (simp add: from_user_def)

lemma from_user_all [simp]: "n \<le> length user \<Longrightarrow> from_user user n 0 = take n user"
  by (simp add: from_user_def)

end
