(* ===== verification/Seek.thy ===== *)
theory Seek
  imports Prelude
begin

text \<open>
  The \<open>llseek\<close> contract. Two drivers (the pseudo character device and the w25q32 flash)
  implement \<open>llseek\<close> over a memory of fixed size with C arithmetic on \<open>loff_t\<close>. The contract
  says what they promise without any machine arithmetic: the new position is the mathematical
  target if it names a byte of the memory, and otherwise the call fails and the position
  stays. Each driver proves that its wrapping arithmetic implements the contract; what a
  program that seeks around can rely on is proved once, here.
\<close>

definition SEEK_SET :: int where "SEEK_SET = 0"
definition SEEK_CUR :: int where "SEEK_CUR = 1"
definition SEEK_END :: int where "SEEK_END = 2"

lemmas seek_consts = SEEK_SET_def SEEK_CUR_def SEEK_END_def

definition seek_target :: "int \<Rightarrow> int \<Rightarrow> int \<Rightarrow> int \<Rightarrow> int option" where
  \<comment> \<open>last addressable byte, current position, offset, whence\<close>
  "seek_target lim p off whence =
     (if whence = SEEK_SET then Some off
      else if whence = SEEK_CUR then Some (p + off)
      else if whence = SEEK_END then Some (lim + off)
      else None)"

definition seek_spec :: "int \<Rightarrow> int \<Rightarrow> int \<Rightarrow> int \<Rightarrow> int \<times> int" where
  \<comment> \<open>the return value and the new position\<close>
  "seek_spec lim p off whence =
     (case seek_target lim p off whence of
        None \<Rightarrow> (neg EINVAL, p)
      | Some t \<Rightarrow> if 0 \<le> t \<and> t \<le> lim then (t, t) else (neg EINVAL, p))"

lemma seek_spec_cases:
  "seek_spec lim p off wh = (neg EINVAL, p) \<or> (\<exists>t. 0 \<le> t \<and> t \<le> lim \<and> seek_spec lim p off wh = (t, t))"
  by (auto simp: seek_spec_def split: option.splits)

definition is_loff :: "int \<Rightarrow> bool" where
  "is_loff x \<longleftrightarrow> - 9223372036854775808 \<le> x \<and> x < 9223372036854775808"

text \<open>
  The check both drivers make on a wrapped sum rejects exactly the sums that leave the memory:
  an overflow of \<open>loff_t\<close> turns negative.
\<close>

lemma loff_sum_check:
  assumes "0 \<le> p" "p \<le> lim + 1" "lim < 4611686018427387904" "is_loff off"
  shows "(to_s64 (p + off) > lim \<or> to_s64 (p + off) < 0) \<longleftrightarrow> \<not> (0 \<le> p + off \<and> p + off \<le> lim)"
    and "0 \<le> p + off \<Longrightarrow> p + off \<le> lim \<Longrightarrow> to_s64 (p + off) = p + off"
proof -
  show "(to_s64 (p + off) > lim \<or> to_s64 (p + off) < 0) \<longleftrightarrow> \<not> (0 \<le> p + off \<and> p + off \<le> lim)"
    using assms by (cases "p + off < 9223372036854775808") (auto simp: c_simps is_loff_def)
qed (use assms in \<open>simp add: c_simps\<close>)

locale seekable =
  fixes seek :: "int \<Rightarrow> int \<Rightarrow> int \<Rightarrow> int \<times> int"
    and last_byte :: int
  assumes seek_implements:
    "0 \<le> p \<Longrightarrow> p \<le> last_byte \<Longrightarrow> is_loff off \<Longrightarrow> seek p off whence = seek_spec last_byte p off whence"
    and last_byte_nonneg: "0 \<le> last_byte"
begin

text \<open>A program that issues the seeks \<open>(offset, whence)\<close> one after the other.\<close>

fun seeks :: "int \<Rightarrow> (int \<times> int) list \<Rightarrow> int" where
  "seeks p [] = p"
| "seeks p ((off, whence) # cs) = seeks (snd (seek p off whence)) cs"

lemma seek_in_range:
  assumes "0 \<le> p" "p \<le> last_byte" "is_loff off"
  shows "0 \<le> snd (seek p off whence)" "snd (seek p off whence) \<le> last_byte"
  using assms by (auto simp: seek_implements seek_spec_def split: option.splits)

lemma seeks_in_range:
  "0 \<le> p \<Longrightarrow> p \<le> last_byte \<Longrightarrow> \<forall>(off, w) \<in> set cs. is_loff off \<Longrightarrow>
   0 \<le> seeks p cs \<and> seeks p cs \<le> last_byte"
  by (induction p cs rule: seeks.induct) (auto simp: seek_in_range)

lemma seek_fails_iff:
  assumes "0 \<le> p" "p \<le> last_byte" "is_loff off"
  shows "fst (seek p off whence) < 0 \<longleftrightarrow>
    (case seek_target last_byte p off whence of None \<Rightarrow> True | Some t \<Rightarrow> t < 0 \<or> last_byte < t)"
  using assms by (auto simp: seek_implements seek_spec_def split: option.splits)

lemma seek_reports_position:
  assumes "0 \<le> p" "p \<le> last_byte" "is_loff off"
  shows "snd (seek p off whence) =
    (if fst (seek p off whence) < 0 then p else fst (seek p off whence))"
  using assms by (auto simp: seek_implements seek_spec_def split: option.splits)

text \<open>Seeking there and back by relative offsets.\<close>

lemma seek_back:
  assumes "0 \<le> p" "p \<le> last_byte" "is_loff off" "is_loff (- off)" "0 \<le> p + off" "p + off \<le> last_byte"
  shows "seek (snd (seek p off SEEK_CUR)) (- off) SEEK_CUR = (p, p)"
  using assms by (auto simp: seek_implements seek_spec_def seek_target_def seek_consts)

end

end
