(* ===== verification/Refinement.thy ===== *)
theory Refinement
  imports Prelude
begin

text \<open>
  The refinement contracts of the development, and the contract of a lock.

  \<open>implements\<close>: a driver with system calls \<open>op\<close> implements an abstract object \<open>spec\<close>. The
  specification is partial: where it is \<open>None\<close> it promises nothing. Where it answers, the
  driver returns (it neither faults nor waits for ever) the same answer, and the abstraction
  of its state follows. The client lemma lifts this from one call to sessions of any length.

  \<open>stuttering\<close>: a program of many small steps simulates one of few atomic steps: every step
  is one of the atomic ones or is invisible. The client lemma lifts this to executions, and
  carries invariants of the atomic system over to the program.

  \<open>lock_discipline\<close>: what the threads of a program do with a lock; nobody shares its region.
\<close>

section \<open>Drivers and abstract objects\<close>

fun spec_session :: "('a \<Rightarrow> 'c \<Rightarrow> ('r \<times> 'a) option) \<Rightarrow> 'a \<Rightarrow> 'c list \<Rightarrow> ('r list \<times> 'a) option" where
  "spec_session spec a [] = Some ([], a)"
| "spec_session spec a (c # cs) =
     (case spec a c of None \<Rightarrow> None
      | Some (r, a') \<Rightarrow> (case spec_session spec a' cs of None \<Rightarrow> None
          | Some (rs, z) \<Rightarrow> Some (r # rs, z)))"

locale implements =
  fixes op :: "'s \<Rightarrow> 'c \<Rightarrow> ('r \<times> 's) outcome"
    and spec :: "'a \<Rightarrow> 'c \<Rightarrow> ('r \<times> 'a) option"
    and abs :: "'s \<Rightarrow> 'a"
    and inv :: "'s \<Rightarrow> bool"
    and legal :: "'c \<Rightarrow> bool"
  assumes simulates: "inv s \<Longrightarrow> legal c \<Longrightarrow> spec (abs s) c = Some (r, a') \<Longrightarrow>
    \<exists>s'. op s c = Ret (r, s') \<and> abs s' = a' \<and> inv s'"
begin

lemma session_simulates:
  "inv s \<Longrightarrow> list_all legal cs \<Longrightarrow> spec_session spec (abs s) cs = Some (rs, a') \<Longrightarrow>
   \<exists>s'. session op s cs = Ret (rs, s') \<and> abs s' = a' \<and> inv s'"
proof (induction cs arbitrary: s rs)
  case (Cons c cs)
  then obtain r b rs' where one: "spec (abs s) c = Some (r, b)" and
      rest: "spec_session spec b cs = Some (rs', a')" "rs = r # rs'"
    by (auto split: option.splits prod.splits)
  from simulates [OF Cons.prems(1) _ one] Cons.prems(2)
  obtain s1 where s1: "op s c = Ret (r, s1)" "abs s1 = b" "inv s1" by auto
  with Cons.IH [of s1 rs'] Cons.prems(2) rest obtain s' where
      "session op s1 cs = Ret (rs', s')" "abs s' = a'" "inv s'" by auto
  then show ?case using s1(1) rest(2) by auto
qed simp

text \<open>Two states of the driver with the same abstraction cannot be told apart.\<close>

lemma same_answers:
  assumes "inv s" "inv t" "abs s = abs t" "list_all legal cs"
    and "spec_session spec (abs s) cs = Some (rs, a')"
  shows "\<exists>s' t'. session op s cs = Ret (rs, s') \<and> session op t cs = Ret (rs, t') \<and> abs s' = abs t'"
  using session_simulates [of s cs rs a'] session_simulates [of t cs rs a'] assms by auto

end

section \<open>Programs and atomic actions\<close>

locale stuttering =
  fixes step :: "'s \<Rightarrow> 's \<Rightarrow> bool"
    and start :: 's
    and atomic :: "'a \<Rightarrow> 'a \<Rightarrow> bool"
    and abs :: "'s \<Rightarrow> 'a"
  assumes simulates: "step\<^sup>*\<^sup>* start s \<Longrightarrow> step s s' \<Longrightarrow> atomic (abs s) (abs s') \<or> abs s' = abs s"
begin

lemma executions_from:
  assumes "step\<^sup>*\<^sup>* start s" "step\<^sup>*\<^sup>* s s'"
  shows "atomic\<^sup>*\<^sup>* (abs s) (abs s')"
  using assms(2)
proof (induction rule: rtranclp_induct)
  case (step t t')
  have "step\<^sup>*\<^sup>* start t" using assms(1) step.hyps(1) by simp
  from simulates [OF this step.hyps(2)] step.IH show ?case
    by (auto intro: rtranclp.rtrancl_into_rtrancl)
qed simp

lemma executions: "step\<^sup>*\<^sup>* start s \<Longrightarrow> atomic\<^sup>*\<^sup>* (abs start) (abs s)"
  by (rule executions_from) simp_all

lemma carries_invariant:
  assumes "I (abs start)" "\<And>a b. I a \<Longrightarrow> atomic a b \<Longrightarrow> I b" "step\<^sup>*\<^sup>* start s"
  shows "I (abs s)"
proof -
  from executions [OF assms(3)] assms(1) show ?thesis
    by (induction rule: rtranclp_induct) (auto intro: assms(2))
qed

end

section \<open>Locks and their clients\<close>

text \<open>
  What a lock gives its clients, whatever lock it is: when nobody is inside at the start, a
  thread enters only when the lock is free and takes it, and nobody takes it from a thread
  that is inside, then two threads are never inside together.
\<close>

locale lock_discipline =
  fixes step :: "'s \<Rightarrow> 's \<Rightarrow> bool"
    and start :: 's
    and holder :: "'s \<Rightarrow> 't option"
    and inside :: "'t \<Rightarrow> 's \<Rightarrow> bool"
  assumes start_outside: "\<not> inside t start"
    and enter_free: "step s s' \<Longrightarrow> \<not> inside t s \<Longrightarrow> inside t s' \<Longrightarrow> holder s = None \<and> holder s' = Some t"
    and stay_held: "step s s' \<Longrightarrow> (\<And>u. inside u s \<Longrightarrow> holder s = Some u) \<Longrightarrow> inside t s \<Longrightarrow> inside t s' \<Longrightarrow>
      holder s' = Some t"
begin

lemma inside_holds: "step\<^sup>*\<^sup>* start s \<Longrightarrow> inside t s \<Longrightarrow> holder s = Some t"
proof (induction arbitrary: t rule: rtranclp_induct)
  case base
  then show ?case using start_outside by blast
next
  case (step s s')
  show ?case
  proof (cases "inside t s")
    case True
    then show ?thesis using stay_held [OF step.hyps(2) step.IH True step.prems] by simp
  next
    case False
    then show ?thesis using enter_free [OF step.hyps(2) False step.prems] by simp
  qed
qed

lemma exclusive: "step\<^sup>*\<^sup>* start s \<Longrightarrow> inside t s \<Longrightarrow> inside u s \<Longrightarrow> t = u"
  using inside_holds [of s t] inside_holds [of s u] by simp

end

end
