(* ===== verification/Psd.thy ===== *)
theory Psd
  imports Kernel Seek Refinement
begin

text \<open>
  \<open>11_pseduo_char_driver/pseduo_char_driver.c\<close>: a character device over a 512 byte array.
  State: the global \<open>prv_data\<close> (buffer and size) and \<open>psd_mutex\<close>; per open file the position
  and the private data pointer. Operations: module init and exit, open, release, llseek, read,
  write. The copies to and from user memory and the arrival of a signal are parameters. The
  operations are composed twice: as sessions on one open file (\<open>psd_session\<close>), with the
  invariant \<open>psd_inv\<close>, and as system calls of many processes on many files (\<open>psd_syscall\<close>),
  which implement the abstract \<open>memory_spec\<close>.
\<close>

section \<open>State\<close>

definition DEV_MEM_SIZE :: int where "DEV_MEM_SIZE = 512"

text \<open>The only value a \<open>private_data\<close> pointer of this driver ever has: \<open>&prv_data\<close>.\<close>

datatype psd_ptr = Prv_data

record device_private_data =
  buffer :: "u8 list"
  mem_size :: int  \<comment> \<open>unsigned\<close>

record psd_file =
  f_pos :: int  \<comment> \<open>loff_t\<close>
  private_data :: "psd_ptr option"

record psd_state =
  prv_data :: device_private_data
  psd_mutex :: bool  \<comment> \<open>held\<close>

definition psd_initial :: psd_state where
  "psd_initial = \<lparr>prv_data = \<lparr>buffer = replicate 512 0, mem_size = DEV_MEM_SIZE\<rparr>, psd_mutex = False\<rparr>"

section \<open>Module init and exit\<close>

definition pseduo_char_driver_init :: "chrdev_env \<Rightarrow> int \<times> kcall list" where
  "pseduo_char_driver_init e =
     (if alloc_ret e < 0 then (alloc_ret e, [alloc_chrdev_region (alloc_ret e)])
      else let t1 = [alloc_chrdev_region (alloc_ret e), class_create (class_ret e)] in
      if IS_ERR (class_ret e) then (PTR_ERR (class_ret e), t1 @ [unregister_chrdev_region])
      else let t2 = t1 @ [cdev_init, cdev_add (cdev_add_ret e)] in
      if cdev_add_ret e < 0
      then (cdev_add_ret e, t2 @ [class_destroy, unregister_chrdev_region])
      else let t3 = t2 @ [device_create (class_ret e) (device_ret e)] in
      if IS_ERR (device_ret e)
      then (PTR_ERR (device_ret e), t3 @ [cdev_del, class_destroy, unregister_chrdev_region])
      else (0, t3))"

definition pseduo_char_driver_exit :: "kcall list" where
  "pseduo_char_driver_exit =
     [device_destroy, class_destroy, cdev_del, unregister_chrdev_region]"

section \<open>File operations\<close>

definition psd_open :: "psd_file \<Rightarrow> int \<times> psd_file" where
  "psd_open f = (0, f\<lparr>private_data := Some Prv_data\<rparr>)"

definition psd_release :: "psd_file \<Rightarrow> int \<times> psd_file" where
  "psd_release f = (0, f)"

text \<open>
  The switch of \<open>psd_llseek\<close>: size, position, offset and whence to the return value and the
  new position. \<open>size - 1\<close> is computed as \<open>unsigned\<close>, the sums as \<open>loff_t\<close>.
\<close>

definition psd_llseek_switch :: "int \<Rightarrow> int \<Rightarrow> int \<Rightarrow> int \<Rightarrow> int \<times> int" where
  "psd_llseek_switch sz pos offset whence =
     (if whence = SEEK_SET then
        (if offset > to_u32 (sz - 1) \<or> offset < 0 then (neg EINVAL, pos) else (offset, offset))
      else if whence = SEEK_CUR then
        (let temp = to_s64 (pos + offset) in
         if temp > to_u32 (sz - 1) \<or> temp < 0 then (neg EINVAL, pos) else (temp, temp))
      else if whence = SEEK_END then
        (let temp = to_s64 (to_u32 (sz - 1) + offset) in
         if temp > to_u32 (sz - 1) \<or> temp < 0 then (neg EINVAL, pos) else (temp, temp))
      else (neg EINVAL, pos))"

definition psd_llseek :: "psd_state \<Rightarrow> psd_file \<Rightarrow> int \<Rightarrow> int \<Rightarrow> (int \<times> psd_file) outcome" where
  "psd_llseek s f offset whence =
     (if whence \<in> {SEEK_SET, SEEK_CUR, SEEK_END} then
        deref (private_data f) (\<lambda>_.
          let (ret, pos) = psd_llseek_switch (mem_size (prv_data s)) (f_pos f) offset whence
          in Ret (ret, f\<lparr>f_pos := pos\<rparr>))
      else Ret (neg EINVAL, f))"

text \<open>The adjustment of \<open>count\<close> shared, word for word, by read and write.\<close>

definition psd_adjust :: "int \<Rightarrow> int \<Rightarrow> int \<Rightarrow> int" where
  "psd_adjust sz p count = (if to_s64 (p + count) > sz then to_u32 (sz - p) else count)"

record psd_reply =
  reply :: int
  new_pos :: int  \<comment> \<open>\<open>*f_pos\<close> on return\<close>
  user_out :: "u8 list"  \<comment> \<open>bytes stored into the caller's buffer\<close>

text \<open>
  \<open>psd_read s f p signal left count\<close>: \<open>p\<close> is \<open>*f_pos\<close>, \<open>left n\<close> the answer of \<open>copy_to_user\<close>
  to a request for \<open>n\<close> bytes, of which it reads only those it does copy.
\<close>

definition psd_read ::
    "psd_state \<Rightarrow> psd_file \<Rightarrow> int \<Rightarrow> bool \<Rightarrow> (int \<Rightarrow> int) \<Rightarrow> int \<Rightarrow> (psd_reply \<times> psd_state) outcome" where
  "psd_read s f p signal left count =
     (case mutex_lock_interruptible signal (psd_mutex s) of
        Waits \<Rightarrow> Blocked
      | Interrupted \<Rightarrow> Ret (\<lparr>reply = neg EINTR, new_pos = p, user_out = []\<rparr>, s)
      | Locked \<Rightarrow> deref (private_data f) (\<lambda>_.
          let s1 = s\<lparr>psd_mutex := True\<rparr>;
              n = psd_adjust (mem_size (prv_data s1)) p count in
          if left n \<noteq> n \<and> \<not> in_bounds p (n - left n) (buffer (prv_data s1)) then Fault Out_of_bounds
          else let bytes = segment (nat p) (nat (n - left n)) (buffer (prv_data s1)) in
          if left n \<noteq> 0
          then Ret (\<lparr>reply = neg EFAULT, new_pos = p, user_out = bytes\<rparr>, s1\<lparr>psd_mutex := False\<rparr>)
          else Ret (\<lparr>reply = to_s32 n, new_pos = to_s64 (p + n), user_out = bytes\<rparr>, s1\<lparr>psd_mutex := False\<rparr>)))"

text \<open>
  \<open>psd_write s f p signal left user count\<close>: \<open>copy_from_user\<close> writes all \<open>n\<close> bytes of its
  destination (it pads what it cannot copy). The early return for a zero count leaves the
  mutex held.
\<close>

definition psd_write ::
    "psd_state \<Rightarrow> psd_file \<Rightarrow> int \<Rightarrow> bool \<Rightarrow> (int \<Rightarrow> int) \<Rightarrow> u8 list \<Rightarrow> int \<Rightarrow> (psd_reply \<times> psd_state) outcome" where
  "psd_write s f p signal left user count =
     (case mutex_lock_interruptible signal (psd_mutex s) of
        Waits \<Rightarrow> Blocked
      | Interrupted \<Rightarrow> Ret (\<lparr>reply = neg EINTR, new_pos = p, user_out = []\<rparr>, s)
      | Locked \<Rightarrow> deref (private_data f) (\<lambda>_.
          let s1 = s\<lparr>psd_mutex := True\<rparr>;
              n = psd_adjust (mem_size (prv_data s1)) p count in
          if n = 0 then Ret (\<lparr>reply = neg ENOMEM, new_pos = p, user_out = []\<rparr>, s1)
          else if \<not> in_bounds p n (buffer (prv_data s1)) then Fault Out_of_bounds
          else let b = blit (nat p) (from_user user (nat n) (nat (left n))) (buffer (prv_data s1));
                   s2 = s1\<lparr>prv_data := (prv_data s1)\<lparr>buffer := b\<rparr>\<rparr> in
          if left n \<noteq> 0
          then Ret (\<lparr>reply = neg EFAULT, new_pos = p, user_out = []\<rparr>, s2\<lparr>psd_mutex := False\<rparr>)
          else Ret (\<lparr>reply = to_s32 n, new_pos = to_s64 (p + n), user_out = []\<rparr>, s2\<lparr>psd_mutex := False\<rparr>)))"

section \<open>The file operations table and a session\<close>

text \<open>
  \<open>psd_fops\<close> dispatches the system calls on an open file; the answer is the return value and
  the bytes stored for the caller. The VFS hands read and write a copy of the file position
  and stores it back.
\<close>

datatype psd_call =
  Llseek int int
| Read bool "int \<Rightarrow> int" int
| Write bool "int \<Rightarrow> int" "u8 list" int

type_synonym psd_sys = "psd_state \<times> psd_file"
type_synonym psd_answer = "int \<times> u8 list"

fun psd_fops :: "psd_sys \<Rightarrow> psd_call \<Rightarrow> (psd_answer \<times> psd_sys) outcome" where
  "psd_fops (s, f) (Llseek off wh) =
     obind (psd_llseek s f off wh) (\<lambda>(r, f'). Ret ((r, []), s, f'))"
| "psd_fops (s, f) (Read sg left count) =
     obind (psd_read s f (f_pos f) sg left count)
       (\<lambda>(r, s'). Ret ((reply r, user_out r), s', f\<lparr>f_pos := new_pos r\<rparr>))"
| "psd_fops (s, f) (Write sg left user count) =
     obind (psd_write s f (f_pos f) sg left user count)
       (\<lambda>(r, s'). Ret ((reply r, user_out r), s', f\<lparr>f_pos := new_pos r\<rparr>))"

abbreviation psd_session :: "psd_sys \<Rightarrow> psd_call list \<Rightarrow> (psd_answer list \<times> psd_sys) outcome" where
  "psd_session \<equiv> session psd_fops"

text \<open>Some write was answered with \<open>-ENOMEM\<close>.\<close>

definition hit_end :: "psd_answer list \<Rightarrow> bool" where
  "hit_end rs \<longleftrightarrow> neg ENOMEM \<in> fst ` set rs"

lemma hit_end_simps [simp]:
  "\<not> hit_end []" "hit_end (r # rs) \<longleftrightarrow> fst r = neg ENOMEM \<or> hit_end rs"
  by (auto simp: hit_end_def)

section \<open>Invariant\<close>

definition psd_inv :: "psd_sys \<Rightarrow> bool" where
  "psd_inv y \<longleftrightarrow> length (buffer (prv_data (fst y))) = 512 \<and> mem_size (prv_data (fst y)) = 512 \<and>
     0 \<le> f_pos (snd y) \<and> f_pos (snd y) \<le> 512 \<and> private_data (snd y) = Some Prv_data"

fun legal_call :: "psd_call \<Rightarrow> bool" where
  "legal_call (Llseek off wh) = is_loff off"
| "legal_call (Read sg left count) = (is_size_t count \<and> is_copy_answer left)"
| "legal_call (Write sg left user count) = (is_size_t count \<and> is_copy_answer left)"

lemma psd_adjust_eq:
  "0 \<le> p \<Longrightarrow> p \<le> 512 \<Longrightarrow> is_size_t count \<Longrightarrow> psd_adjust 512 p count = min count (512 - p)"
  by (auto simp: psd_adjust_def is_size_t_def c_simps)

text \<open>The switch of \<open>psd_llseek\<close> implements the seek contract: no wrap-around is visible.\<close>

lemma psd_llseek_switch_spec:
  "0 \<le> p \<Longrightarrow> p \<le> 512 \<Longrightarrow> is_loff off \<Longrightarrow>
   psd_llseek_switch DEV_MEM_SIZE p off wh = seek_spec 511 p off wh"
  using loff_sum_check [of p 511 off] loff_sum_check [of 511 511 off]
  by (auto simp: psd_llseek_switch_def seek_spec_def seek_target_def Let_def DEV_MEM_SIZE_def
      seek_consts to_u32_id)

interpretation psd_seek: seekable "psd_llseek_switch DEV_MEM_SIZE" 511
  by unfold_locales (auto simp: psd_llseek_switch_spec)

lemma psd_switch_range:
  assumes "0 \<le> p" "p \<le> 512" "is_loff off"
  shows "0 \<le> snd (psd_llseek_switch 512 p off wh) \<and> snd (psd_llseek_switch 512 p off wh) \<le> 512"
  using assms by (auto simp: psd_llseek_switch_def Let_def c_simps)

lemma psd_read_eq:
  assumes inv: "psd_inv (s, f)" and free: "\<not> psd_mutex s" and legal: "is_size_t count" "is_copy_answer left"
    and n: "n = min count (512 - f_pos f)"
  shows "psd_read s f (f_pos f) sg left count =
    Ret (\<lparr>reply = (if left n = 0 then n else neg EFAULT),
          new_pos = (if left n = 0 then f_pos f + n else f_pos f),
          user_out = segment (nat (f_pos f)) (nat (n - left n)) (buffer (prv_data s))\<rparr>, s)"
proof -
  have adj: "psd_adjust 512 (f_pos f) count = n"
    using inv legal by (simp add: psd_inv_def psd_adjust_eq n)
  have rng: "0 \<le> n" "n \<le> 512 - f_pos f" "0 \<le> left n" "left n \<le> n" "0 \<le> f_pos f"
    using inv legal copy_answer_bounds [of left n] by (auto simp: psd_inv_def is_size_t_def n)
  have unlocked: "s\<lparr>psd_mutex := True, psd_mutex := False\<rparr> = s"
    using free by simp
  have ok: "in_bounds (f_pos f) (n - left n) (buffer (prv_data s))"
    using rng inv by (simp add: in_bounds_def psd_inv_def)
  show ?thesis
    using inv free rng ok unlocked by (simp add: psd_read_def psd_inv_def adj Let_def c_simps)
qed

lemma psd_write_eq:
  assumes inv: "psd_inv (s, f)" and free: "\<not> psd_mutex s" and legal: "is_size_t count" "is_copy_answer left"
    and n: "n = min count (512 - f_pos f)"
  shows "psd_write s f (f_pos f) sg left user count =
    (if n = 0 then Ret (\<lparr>reply = neg ENOMEM, new_pos = f_pos f, user_out = []\<rparr>, s\<lparr>psd_mutex := True\<rparr>)
     else Ret (\<lparr>reply = (if left n = 0 then n else neg EFAULT),
          new_pos = (if left n = 0 then f_pos f + n else f_pos f), user_out = []\<rparr>,
          s\<lparr>prv_data := (prv_data s)\<lparr>buffer :=
            blit (nat (f_pos f)) (from_user user (nat n) (nat (left n))) (buffer (prv_data s))\<rparr>\<rparr>))"
proof -
  have adj: "psd_adjust 512 (f_pos f) count = n"
    using inv legal by (simp add: psd_inv_def psd_adjust_eq n)
  have rng: "0 \<le> n" "n \<le> 512 - f_pos f" "0 \<le> f_pos f"
    using inv legal by (auto simp: psd_inv_def is_size_t_def n)
  have unlocked: "\<And>p. s\<lparr>psd_mutex := True, prv_data := p, psd_mutex := False\<rparr> = s\<lparr>prv_data := p\<rparr>"
    using free by simp
  have ok: "in_bounds (f_pos f) n (buffer (prv_data s))"
    using rng inv by (simp add: in_bounds_def psd_inv_def)
  show ?thesis
    using inv free rng ok unlocked by (simp add: psd_write_def psd_inv_def adj Let_def c_simps)
qed

lemma psd_locked:
  assumes "psd_mutex s"
  shows "psd_read s f p sg left count =
      (if sg then Ret (\<lparr>reply = neg EINTR, new_pos = p, user_out = []\<rparr>, s) else Blocked)"
    and "psd_write s f p sg left user count =
      (if sg then Ret (\<lparr>reply = neg EINTR, new_pos = p, user_out = []\<rparr>, s) else Blocked)"
  using assms by (cases sg; simp add: psd_read_def psd_write_def)+

lemma psd_fops_inv:
  assumes "psd_inv y" "legal_call c"
  shows "case psd_fops y c of Ret (r, y') \<Rightarrow> psd_inv y' | Fault e \<Rightarrow> False | Blocked \<Rightarrow> psd_mutex (fst y)"
proof -
  obtain s f where y: "y = (s, f)" by (cases y)
  show ?thesis
  proof (cases c)
    case (Llseek off wh)
    then show ?thesis
      using assms psd_switch_range [of "f_pos f" off wh]
      by (auto simp: y psd_llseek_def psd_inv_def split: prod.splits)
  next
    case (Read sg left count)
    then show ?thesis
      using assms by (cases "psd_mutex s")
        (auto simp: y psd_locked psd_read_eq psd_inv_def is_size_t_def)
  next
    case (Write sg left user count)
    then show ?thesis
      using assms by (cases "psd_mutex s")
        (auto simp: y psd_locked psd_write_eq psd_inv_def is_size_t_def)
  qed
qed

lemma psd_fops_mutex:
  assumes "psd_inv y" "legal_call c" "psd_fops y c = Ret (r, y')"
  shows "psd_mutex (fst y') \<longleftrightarrow> psd_mutex (fst y) \<or> fst r = neg ENOMEM"
proof -
  obtain s f where y: "y = (s, f)" by (cases y)
  show ?thesis
  proof (cases c)
    case (Llseek off wh)
    then show ?thesis
      using assms by (auto simp: y psd_llseek_def psd_inv_def psd_llseek_switch_def Let_def neg_def
          split: prod.splits if_splits)
  next
    case (Read sg left count)
    then show ?thesis
      using assms by (cases "psd_mutex s")
        (auto simp: y psd_locked psd_read_eq psd_inv_def is_size_t_def neg_def split: if_splits)
  next
    case (Write sg left user count)
    then show ?thesis
      using assms by (cases "psd_mutex s")
        (auto simp: y psd_locked psd_write_eq psd_inv_def is_size_t_def neg_def split: if_splits)
  qed
qed

lemma psd_session_sound:
  assumes "psd_inv y" "list_all legal_call cs"
  shows "case psd_session y cs of
      Ret (rs, z) \<Rightarrow> psd_inv z \<and> length rs = length cs \<and>
        (psd_mutex (fst z) \<longleftrightarrow> psd_mutex (fst y) \<or> hit_end rs)
    | Fault e \<Rightarrow> False
    | Blocked \<Rightarrow> psd_mutex (fst y) \<or> (\<exists>k rs z. psd_session y (take k cs) = Ret (rs, z) \<and> hit_end rs)"
  using assms
proof (induction cs arbitrary: y)
  case (Cons c cs)
  from Cons.prems have legal: "legal_call c" "list_all legal_call cs" by simp_all
  show ?case
  proof (cases "psd_fops y c")
    case (Ret ry)
    obtain r y' where ry: "ry = (r, y')" by (cases ry)
    have inv: "psd_inv y'" and mtx: "psd_mutex (fst y') \<longleftrightarrow> psd_mutex (fst y) \<or> fst r = neg ENOMEM"
      using psd_fops_inv [OF Cons.prems(1) legal(1)] psd_fops_mutex [OF Cons.prems(1) legal(1)]
        Ret ry by auto
    note IH = Cons.IH [OF inv legal(2)]
    show ?thesis
    proof (cases "psd_session y' cs")
      case Blocked
      with IH consider "psd_mutex (fst y)" | "fst r = neg ENOMEM"
        | k rs z where "psd_session y' (take k cs) = Ret (rs, z)" "hit_end rs"
        using mtx by auto
      then show ?thesis
      proof cases
        case 1
        then show ?thesis using Blocked Ret ry by simp
      next
        case 2
        then have "psd_session y (take 1 (c # cs)) = Ret ([r], y') \<and> hit_end [r]"
          using Ret ry by simp
        then show ?thesis using Blocked Ret ry by (auto intro!: exI [of _ 1])
      next
        case 3
        then have "psd_session y (take (Suc k) (c # cs)) = Ret (r # rs, z) \<and> hit_end (r # rs)"
          using Ret ry by simp
        then show ?thesis using Blocked Ret ry by (fastforce intro!: exI [of _ "Suc k"])
      qed
    qed (use IH Ret ry mtx in auto)
  next
    case (Fault e)
    then show ?thesis using psd_fops_inv [OF Cons.prems(1) legal(1)] by simp
  next
    case Blocked
    then show ?thesis using psd_fops_inv [OF Cons.prems(1) legal(1)] by simp
  qed
qed simp

lemma psd_initial_inv:
  "psd_inv (psd_initial, snd (psd_open \<lparr>f_pos = 0, private_data = None\<rparr>))"
  by (simp add: psd_inv_def psd_initial_def psd_open_def DEV_MEM_SIZE_def)

section \<open>Lifecycle\<close>

lemma psd_init_stack:
  assumes "documented_answers e"
  shows "stack_ledger [] (snd (pseduo_char_driver_init e)) =
    Some (if fst (pseduo_char_driver_init e) = 0 then chrdev_owned else [])"
  using assms
  by (auto simp: pseduo_char_driver_init_def chrdev_owned_def Let_def ledger_simps kptr_answer)

interpretation psd_module:
  module_lifecycle documented_answers pseduo_char_driver_init chrdev_owned pseduo_char_driver_exit
  by unfold_locales
    (auto simp: pseduo_char_driver_exit_def chrdev_owned_def ledger_simps
      intro!: stack_ledger_imp_ledger simp: psd_init_stack)

section \<open>The answers of the system calls\<close>

text \<open>What a caller may get: a position, a count that fits the request, or an error number of the call.\<close>

fun answer_ok :: "psd_call \<Rightarrow> psd_answer \<Rightarrow> bool" where
  "answer_ok (Llseek off wh) (r, out) \<longleftrightarrow> out = [] \<and> (0 \<le> r \<and> r < DEV_MEM_SIZE \<or> r = neg EINVAL)"
| "answer_ok (Read sg left count) (r, out) \<longleftrightarrow> int (length out) \<le> min count DEV_MEM_SIZE \<and>
     (if 0 \<le> r then int (length out) = r else r = neg EINTR \<and> out = [] \<or> r = neg EFAULT)"
| "answer_ok (Write sg left user count) (r, out) \<longleftrightarrow> out = [] \<and>
     (if 0 \<le> r then 0 < r \<and> r \<le> min count DEV_MEM_SIZE else r = neg EINTR \<or> r = neg ENOMEM \<or> r = neg EFAULT)"

lemma psd_llseek_at_end:
  assumes "0 \<le> f_pos f" "f_pos f \<le> 512" "is_loff off" "private_data f = Some Prv_data" "mem_size (prv_data s) = 512"
  shows "psd_llseek s f off wh =
    Ret (fst (seek_spec 511 (f_pos f) off wh), f\<lparr>f_pos := snd (seek_spec 511 (f_pos f) off wh)\<rparr>)"
  using psd_llseek_switch_spec [OF assms(1-3), of wh] assms(4,5)
  by (cases "wh \<in> {SEEK_SET, SEEK_CUR, SEEK_END}")
     (simp_all add: psd_llseek_def DEV_MEM_SIZE_def case_prod_beta seek_spec_def seek_target_def)

lemma psd_fops_answer:
  assumes "psd_inv y" "legal_call c" "psd_fops y c = Ret (a, y')"
  shows "answer_ok c a"
proof -
  obtain s f where y: "y = (s, f)" by (cases y)
  have inv: "psd_inv (s, f)" and rng: "0 \<le> f_pos f" "f_pos f \<le> 512" and len: "length (buffer (prv_data s)) = 512"
    using assms(1) by (simp_all add: y psd_inv_def)
  show ?thesis
  proof (cases c)
    case (Llseek off wh)
    have ptr: "private_data f = Some Prv_data" "mem_size (prv_data s) = 512"
      using inv by (simp_all add: psd_inv_def)
    show ?thesis
      using assms(2,3) psd_llseek_at_end [OF rng _ ptr, of off wh] seek_spec_cases [of 511 "f_pos f" off wh]
      by (auto simp: y Llseek DEV_MEM_SIZE_def)
  next
    case (Read sg left count)
    define n where "n = min count (512 - f_pos f)"
    have n: "0 \<le> left n" "left n \<le> n" "f_pos f + n \<le> 512" "n \<le> count" "n \<le> 512"
      using assms(2) rng copy_answer_bounds [of left n] by (auto simp: Read is_size_t_def n_def)
    have out: "length (segment (nat (f_pos f)) (nat (n - left n)) (buffer (prv_data s))) = nat (n - left n)"
      using n rng len by (intro length_segment) linarith
    show ?thesis
    proof (cases "psd_mutex s")
      case True
      then show ?thesis
        using assms(2,3) psd_locked(1) [OF True, of f "f_pos f" sg left count]
        by (cases sg) (auto simp: y Read DEV_MEM_SIZE_def is_size_t_def)
    next
      case False
      have "is_size_t count" "is_copy_answer left" using assms(2) Read by simp_all
      note eq = psd_read_eq [OF inv False this n_def, of sg]
      have "a = (if left n = 0 then n else neg EFAULT, segment (nat (f_pos f)) (nat (n - left n)) (buffer (prv_data s)))"
        using assms(3) by (simp add: y Read eq)
      then show ?thesis
        using n out by (simp add: Read DEV_MEM_SIZE_def)
    qed
  next
    case (Write sg left user count)
    define n where "n = min count (512 - f_pos f)"
    have n: "0 \<le> n" "n \<le> count" "n \<le> 512" using assms(2) rng by (auto simp: Write is_size_t_def n_def)
    show ?thesis
    proof (cases "psd_mutex s")
      case True
      then show ?thesis
        using assms(2,3) psd_locked(2) [OF True, of f "f_pos f" sg left user count]
        by (cases sg) (auto simp: y Write DEV_MEM_SIZE_def)
    next
      case False
      have "is_size_t count" "is_copy_answer left" using assms(2) Write by simp_all
      note eq = psd_write_eq [OF inv False this n_def, of sg user]
      have "a = (if n = 0 then neg ENOMEM else if left n = 0 then n else neg EFAULT, [])"
        using assms(3) by (simp add: y Write eq split: if_splits)
      then show ?thesis
        using n by (simp add: Write DEV_MEM_SIZE_def)
    qed
  qed
qed

lemma psd_session_answers:
  "psd_inv y \<Longrightarrow> list_all legal_call cs \<Longrightarrow> psd_session y cs = Ret (rs, z) \<Longrightarrow> list_all2 answer_ok cs rs"
proof (induction cs arbitrary: y rs)
  case (Cons c cs)
  then obtain a y1 rs1 where one: "psd_fops y c = Ret (a, y1)" and rest: "psd_session y1 cs = Ret (rs1, z)" "rs = a # rs1"
    by (auto simp: obind_Ret_iff split: prod.splits)
  have "psd_inv y1" using psd_fops_inv [OF Cons.prems(1), of c] Cons.prems(2) one by simp
  then show ?case
    using Cons.IH [OF _ _ rest(1)] Cons.prems psd_fops_answer [OF Cons.prems(1) _ one] rest(2) by simp
qed simp

section \<open>The device as a memory shared by open files\<close>

text \<open>
  All open files of the device together: the open, release and the other operations of
  \<open>psd_fops\<close> on the file with a given number. The VFS answers a number that names no open file
  with \<open>-EBADF\<close> (9) and does not call the driver.
\<close>

datatype user_call = Open | On nat psd_call | Close nat

type_synonym psd_world = "psd_state \<times> psd_file option list"

definition EBADF :: errno where "EBADF = EOTHER 8"

fun psd_syscall :: "psd_world \<Rightarrow> user_call \<Rightarrow> (psd_answer \<times> psd_world) outcome" where
  "psd_syscall (s, fs) Open =
     (let (r, f) = psd_open \<lparr>f_pos = 0, private_data = None\<rparr> in
      Ret ((if r = 0 then int (length fs) else r, []), s, fs @ [Some f]))"
| "psd_syscall (s, fs) (On i c) =
     (if i < length fs then
        (case fs ! i of None \<Rightarrow> Ret ((neg EBADF, []), s, fs)
         | Some f \<Rightarrow> obind (psd_fops (s, f) c) (\<lambda>(r, s', f'). Ret (r, s', fs[i := Some f'])))
      else Ret ((neg EBADF, []), s, fs))"
| "psd_syscall (s, fs) (Close i) =
     (if i < length fs then
        (case fs ! i of None \<Rightarrow> Ret ((neg EBADF, []), s, fs)
         | Some f \<Rightarrow> Ret ((fst (psd_release f), []), s, fs[i := None]))
      else Ret ((neg EBADF, []), s, fs))"

text \<open>
  What the device promises: a memory of fixed size with a cursor per open file, without locks,
  machine integers or pointers. It promises nothing about a write that finds no room.
\<close>

record memory =
  cells :: "u8 list"
  cursors :: "int option list"

fun memory_op :: "u8 list \<Rightarrow> int \<Rightarrow> psd_call \<Rightarrow> (psd_answer \<times> u8 list \<times> int) option" where
  "memory_op m p (Llseek off wh) =
     (let (r, p') = seek_spec (int (length m) - 1) p off wh in Some ((r, []), m, p'))"
| "memory_op m p (Read sg left count) =
     (let n = min count (int (length m) - p) in
      if left n = 0 then Some ((n, segment (nat p) (nat n) m), m, p + n)
      else Some ((neg EFAULT, segment (nat p) (nat (n - left n)) m), m, p))"
| "memory_op m p (Write sg left user count) =
     (let n = min count (int (length m) - p); m' = blit (nat p) (from_user user (nat n) (nat (left n))) m in
      if n = 0 then None
      else if left n = 0 then Some ((n, []), m', p + n)
      else Some ((neg EFAULT, []), m', p))"

definition cursor :: "memory \<Rightarrow> nat \<Rightarrow> int option" where
  "cursor a i = (if i < length (cursors a) then cursors a ! i else None)"

fun memory_spec :: "memory \<Rightarrow> user_call \<Rightarrow> (psd_answer \<times> memory) option" where
  "memory_spec a Open = Some ((int (length (cursors a)), []), a\<lparr>cursors := cursors a @ [Some 0]\<rparr>)"
| "memory_spec a (On i c) =
     (case cursor a i of None \<Rightarrow> Some ((neg EBADF, []), a)
      | Some p \<Rightarrow> (case memory_op (cells a) p c of None \<Rightarrow> None
          | Some (r, m, p') \<Rightarrow> Some (r, \<lparr>cells = m, cursors = (cursors a)[i := Some p']\<rparr>)))"
| "memory_spec a (Close i) =
     (case cursor a i of None \<Rightarrow> Some ((neg EBADF, []), a)
      | Some p \<Rightarrow> Some ((0, []), a\<lparr>cursors := (cursors a)[i := None]\<rparr>))"

definition world_memory :: "psd_world \<Rightarrow> memory" where
  "world_memory w = \<lparr>cells = buffer (prv_data (fst w)), cursors = map (map_option f_pos) (snd w)\<rparr>"

definition world_inv :: "psd_world \<Rightarrow> bool" where
  "world_inv w \<longleftrightarrow> length (buffer (prv_data (fst w))) = 512 \<and> mem_size (prv_data (fst w)) = 512 \<and>
     \<not> psd_mutex (fst w) \<and> (\<forall>f. Some f \<in> set (snd w) \<longrightarrow> psd_inv (fst w, f))"

fun legal_syscall :: "user_call \<Rightarrow> bool" where
  "legal_syscall (On i c) = legal_call c"
| "legal_syscall _ = True"

lemma psd_fops_memory:
  assumes inv: "psd_inv (s, f)" "\<not> psd_mutex s" and legal: "legal_call c"
    and spec: "memory_op (buffer (prv_data s)) (f_pos f) c = Some (r, m, p')"
  shows "\<exists>s' f'. psd_fops (s, f) c = Ret (r, s', f') \<and> buffer (prv_data s') = m \<and>
    f_pos f' = p' \<and> \<not> psd_mutex s' \<and> psd_inv (s', f')"
proof -
  have len: "length (buffer (prv_data s)) = 512" and rng: "0 \<le> f_pos f" "f_pos f \<le> 512"
    and ptr: "private_data f = Some Prv_data" "mem_size (prv_data s) = 512"
    using inv by (simp_all add: psd_inv_def)
  have "\<exists>s' f'. psd_fops (s, f) c = Ret (r, s', f') \<and> buffer (prv_data s') = m \<and>
      f_pos f' = p' \<and> \<not> psd_mutex s'"
  proof (cases c)
    case (Llseek off wh)
    obtain q t where q: "seek_spec 511 (f_pos f) off wh = (q, t)" by fastforce
    have "psd_llseek s f off wh = Ret (q, f\<lparr>f_pos := t\<rparr>)"
      using legal Llseek psd_llseek_at_end [OF rng, of off s wh] ptr q by simp
    then show ?thesis using spec q inv(2) by (simp add: Llseek len)
  next
    case (Read sg left count)
    then show ?thesis
      using spec len inv legal psd_read_eq [OF inv, of count left _ sg]
      by (auto simp: Let_def split: if_splits)
  next
    case (Write sg left user count)
    then show ?thesis
      using spec len inv legal psd_write_eq [OF inv, of count left _ sg user]
      by (auto simp: Let_def split: if_splits)
  qed
  then obtain s' f' where r: "psd_fops (s, f) c = Ret (r, s', f')" "buffer (prv_data s') = m"
      "f_pos f' = p'" "\<not> psd_mutex s'" by blast
  moreover have "psd_inv (s', f')"
    using psd_fops_inv [OF inv(1) legal] r(1) by simp
  ultimately show ?thesis by blast
qed

lemma psd_inv_share:
  "psd_inv (s, f) \<Longrightarrow> psd_inv (s', g) \<Longrightarrow> psd_inv (s', f)"
  by (simp add: psd_inv_def)

lemma world_file:
  assumes "world_inv (s, fs)" "i < length fs" "fs ! i = Some f"
  shows "psd_inv (s, f)" "\<not> psd_mutex s"
  using assms nth_mem [OF assms(2)] by (simp_all add: world_inv_def)

lemma world_update:
  assumes "world_inv (s, fs)" "psd_inv (s', g)" "\<not> psd_mutex s'"
  shows "world_inv (s', fs[i := Some g])" "world_inv (s, fs[i := None])"
proof -
  have "psd_inv (s', f)" if "Some f \<in> set (fs[i := Some g])" for f
  proof (cases "f = g")
    case False
    with that have "Some f \<in> set fs" using set_update_subset_insert [of fs i "Some g"] by auto
    then show ?thesis using assms psd_inv_share [of s f s' g] by (simp add: world_inv_def)
  qed (use assms(2) in simp)
  then show "world_inv (s', fs[i := Some g])"
    using assms(2,3) by (simp add: world_inv_def psd_inv_def)
  show "world_inv (s, fs[i := None])"
    using assms(1) set_update_subset_insert [of fs i None] by (auto simp: world_inv_def)
qed

lemma world_cursor:
  "cursor (world_memory (s, fs)) i = (if i < length fs then map_option f_pos (fs ! i) else None)"
  by (simp add: cursor_def world_memory_def)

lemma world_memory_simps [simp]:
  "cells (world_memory (s, fs)) = buffer (prv_data s)"
  "cursors (world_memory (s, fs)) = map (map_option f_pos) fs"
  by (simp_all add: world_memory_def)

lemma world_memory_abs:
  "world_memory (s, fs) = a \<longleftrightarrow> cells a = buffer (prv_data s) \<and> cursors a = map (map_option f_pos) fs"
  by (cases a) (auto simp: world_memory_def)

interpretation psd_device: implements psd_syscall memory_spec world_memory world_inv legal_syscall
proof
  fix w c r a'
  assume inv: "world_inv w" and legal: "legal_syscall c" and spec: "memory_spec (world_memory w) c = Some (r, a')"
  obtain s fs where w: "w = (s, fs)" by (cases w)
  show "\<exists>w'. psd_syscall w c = Ret (r, w') \<and> world_memory w' = a' \<and> world_inv w'"
  proof (cases c)
    case Open
    then show ?thesis
      using spec inv by (auto simp: w psd_open_def world_memory_def world_inv_def psd_inv_def)
  next
    case (On i d)
    show ?thesis
    proof (cases "i < length fs \<and> fs ! i \<noteq> None")
      case True
      then obtain f where f: "i < length fs" "fs ! i = Some f" by auto
      with spec obtain m p' where op: "memory_op (buffer (prv_data s)) (f_pos f) d = Some (r, m, p')"
          "a' = \<lparr>cells = m, cursors = (map (map_option f_pos) fs)[i := Some p']\<rparr>"
        using world_cursor [of s fs i] by (auto simp: On w split: option.splits)
      from psd_fops_memory [OF world_file [OF inv [unfolded w] f] _ op(1)] legal On
      obtain s' f' where call: "psd_fops (s, f) d = Ret (r, s', f')" "buffer (prv_data s') = m"
          "f_pos f' = p'" "\<not> psd_mutex s'" "psd_inv (s', f')" by auto
      then have "world_inv (s', fs[i := Some f'])"
        using world_update(1) inv w by blast
      then show ?thesis
        using call f op(2) by (simp add: On w world_memory_def map_update)
    next
      case False
      then have "cursor (world_memory (s, fs)) i = None" by (simp add: world_cursor)
      then show ?thesis
        using spec inv False by (auto simp: On w)
    qed
  next
    case (Close i)
    show ?thesis
    proof (cases "i < length fs \<and> fs ! i \<noteq> None")
      case True
      then obtain f where f: "i < length fs" "fs ! i = Some f" by auto
      then have "world_inv (s, fs[i := None])"
        using world_update(2) world_file inv w by blast
      then show ?thesis
        using spec f world_cursor [of s fs i] by (auto simp: Close w psd_release_def world_memory_abs map_update)
    next
      case False
      then have "cursor (world_memory (s, fs)) i = None" by (simp add: world_cursor)
      then show ?thesis
        using spec inv False by (auto simp: Close w)
    qed
  qed
qed

section \<open>Properties\<close>

text \<open>
  No sequence of llseek, read and write on an opened psd device, with any arguments the
  ABI allows, any signals and any failing user copies, touches memory outside the 512 byte
  buffer or moves the position out of it, and every call returns unless an earlier write
  returned \<open>-ENOMEM\<close>; the mutex is held afterwards exactly when some write did.
\<close>

theorem psd_session_safe:
  assumes "psd_inv y" "\<not> psd_mutex (fst y)" "list_all legal_call cs"
  shows "(\<forall>e. psd_session y cs \<noteq> Fault e) \<and>
    (\<forall>rs z. psd_session y cs = Ret (rs, z) \<longrightarrow>
       psd_inv z \<and> length rs = length cs \<and> (psd_mutex (fst z) \<longleftrightarrow> hit_end rs)) \<and>
    (psd_session y cs = Blocked \<longrightarrow>
       (\<exists>k rs z. psd_session y (take k cs) = Ret (rs, z) \<and> hit_end rs))"
  using psd_session_sound [OF assms(1,3)] assms(2) by (auto split: outcome.splits)

lemma psd_session_safe_witness:
  "\<forall>e. psd_session (psd_initial, \<lparr>f_pos = 510, private_data = Some Prv_data\<rparr>)
      [Write False (\<lambda>n. 0) [1, 2, 3] 3, Read True (\<lambda>n. n) 4294967295] \<noteq> Fault e"
proof -
  let ?y = "(psd_initial, \<lparr>f_pos = 510, private_data = Some Prv_data\<rparr>)"
    and ?cs = "[Write False (\<lambda>n. 0) [1, 2, 3] 3, Read True (\<lambda>n. n) 4294967295]"
  have "psd_inv ?y" "\<not> psd_mutex (fst ?y)" "list_all legal_call ?cs"
    by (simp_all add: psd_inv_def psd_initial_def DEV_MEM_SIZE_def is_size_t_def is_copy_answer_def)
  then show ?thesis using psd_session_safe by blast
qed

text \<open>
  C35: The answers are well typed in every session, whatever the sizes, signals and copies: a seek
  answers a position inside the memory or \<open>-EINVAL\<close>, a read answers the number of bytes it has
  stored, never more than asked for, a write a positive number of bytes, and each of them only
  the error numbers the code names.
\<close>

theorem psd_answers_typed:
  assumes "psd_inv y" "list_all legal_call cs" "psd_session y cs = Ret (rs, z)"
  shows "list_all2 answer_ok cs rs"
  by (rule psd_session_answers [OF assms])

lemma psd_answers_typed_witness:
  "\<exists>rs z. psd_session (psd_initial, \<lparr>f_pos = 510, private_data = Some Prv_data\<rparr>)
      [Read False (\<lambda>n. 0) 5, Write False (\<lambda>n. 0) [1] 1] = Ret (rs, z) \<and>
     list_all2 answer_ok [Read False (\<lambda>n. 0) 5, Write False (\<lambda>n. 0) [1] 1] rs"
proof -
  let ?f = "\<lparr>f_pos = 510, private_data = Some Prv_data\<rparr>" and ?cs = "[Read False (\<lambda>n. 0) 5, Write False (\<lambda>n. 0) [1] 1]"
  have inv: "psd_inv (psd_initial, ?f)" and legal: "list_all legal_call ?cs"
    by (simp_all add: psd_inv_def psd_initial_def DEV_MEM_SIZE_def is_size_t_def is_copy_answer_def)
  have "psd_adjust 512 510 5 = 2" by (simp add: psd_adjust_eq is_size_t_def)
  then have "\<exists>rs z. psd_session (psd_initial, ?f) ?cs = Ret (rs, z)"
    by (simp add: psd_read_def psd_write_def psd_initial_def DEV_MEM_SIZE_def in_bounds_def Let_def c_simps
        psd_adjust_eq is_size_t_def)
  then show ?thesis using psd_answers_typed [OF inv legal] by blast
qed

text \<open>
  A write that finds no room (position at the end, or a zero count) returns \<open>-ENOMEM\<close>
  without unlocking \<open>psd_mutex\<close>: from then on every read or write that no signal interrupts
  blocks for ever, and one that is interrupted returns \<open>-EINTR\<close> and changes nothing.
\<close>

theorem psd_full_write_leaks_mutex:
  assumes "psd_inv (s, f)" "\<not> psd_mutex s" "is_size_t count" "is_copy_answer left"
    and "count = 0 \<or> f_pos f = 512"
  shows "psd_fops (s, f) (Write sg left user count) = Ret ((neg ENOMEM, []), s\<lparr>psd_mutex := True\<rparr>, f) \<and>
    psd_fops (s\<lparr>psd_mutex := True\<rparr>, f) (Read sg' left' count') =
      (if sg' then Ret ((neg EINTR, []), s\<lparr>psd_mutex := True\<rparr>, f) else Blocked) \<and>
    psd_fops (s\<lparr>psd_mutex := True\<rparr>, f) (Write sg' left' user' count') =
      (if sg' then Ret ((neg EINTR, []), s\<lparr>psd_mutex := True\<rparr>, f) else Blocked)"
proof -
  have "min count (512 - f_pos f) = 0"
    using assms by (auto simp: psd_inv_def is_size_t_def)
  then show ?thesis
    using psd_write_eq [OF assms(1-4) refl, of sg user] by (simp add: psd_locked)
qed

lemma psd_full_write_leaks_mutex_witness:
  "psd_fops (psd_initial, \<lparr>f_pos = 512, private_data = Some Prv_data\<rparr>) (Write False (\<lambda>n. 0) [7] 1) =
     Ret ((neg ENOMEM, []), psd_initial\<lparr>psd_mutex := True\<rparr>, \<lparr>f_pos = 512, private_data = Some Prv_data\<rparr>) \<and>
   psd_fops (psd_initial\<lparr>psd_mutex := True\<rparr>, \<lparr>f_pos = 512, private_data = Some Prv_data\<rparr>)
     (Read False (\<lambda>n. 0) 1) = Blocked"
proof -
  let ?f = "\<lparr>f_pos = 512, private_data = Some Prv_data\<rparr>"
  have "psd_inv (psd_initial, ?f)" "\<not> psd_mutex psd_initial" "is_size_t 1" "is_copy_answer (\<lambda>n. 0)"
    by (simp_all add: psd_inv_def psd_initial_def DEV_MEM_SIZE_def is_size_t_def is_copy_answer_def)
  from psd_full_write_leaks_mutex [OF this, where sg = False and sg' = False] show ?thesis
    by simp
qed

text \<open>
  C14: What is written is read back. A write of \<open>n\<close> bytes that fits answers \<open>n\<close> and moves the
  position by \<open>n\<close>; a read of \<open>n\<close> bytes at the old position then delivers exactly the bytes
  written, and a read of any range apart from it delivers what was there before.
\<close>

theorem psd_write_read_roundtrip:
  assumes inv: "psd_inv (s, f)" "\<not> psd_mutex s"
    and fits: "0 < n" "n = int (length user)" "f_pos f + n \<le> 512"
  shows "\<exists>s'. psd_write s f (f_pos f) sg (\<lambda>_. 0) user n =
        Ret (\<lparr>reply = n, new_pos = f_pos f + n, user_out = []\<rparr>, s') \<and>
      psd_read s' f (f_pos f) sg' (\<lambda>_. 0) n =
        Ret (\<lparr>reply = n, new_pos = f_pos f + n, user_out = user\<rparr>, s') \<and>
      (\<forall>q m. 0 \<le> q \<and> 0 \<le> m \<and> q + m \<le> 512 \<and> (q + m \<le> f_pos f \<or> f_pos f + n \<le> q) \<longrightarrow>
        psd_read s' (f\<lparr>f_pos := q\<rparr>) q sg' (\<lambda>_. 0) m =
          Ret (\<lparr>reply = m, new_pos = q + m,
                user_out = segment (nat q) (nat m) (buffer (prv_data s))\<rparr>, s'))"
proof -
  let ?s' = "s\<lparr>prv_data := (prv_data s)\<lparr>buffer := blit (nat (f_pos f)) user (buffer (prv_data s))\<rparr>\<rparr>"
  have legal: "is_size_t n" "is_copy_answer (\<lambda>_. 0)"
    using assms by (simp_all add: psd_inv_def is_size_t_def is_copy_answer_def)
  have n: "n = min n (512 - f_pos f)"
    using fits by simp
  have room: "nat (f_pos f) + length user \<le> 512" "length (buffer (prv_data s)) = 512" "0 \<le> f_pos f"
    using assms by (auto simp: psd_inv_def)
  have inv': "psd_inv (?s', g)" if "0 \<le> f_pos g" "f_pos g \<le> 512" "private_data g = Some Prv_data" for g
    using that inv room by (simp add: psd_inv_def)
  have priv: "private_data f = Some Prv_data" "f_pos f \<le> 512"
    using inv by (simp_all add: psd_inv_def)
  have far: "psd_read ?s' (f\<lparr>f_pos := q\<rparr>) q sg' (\<lambda>_. 0) m =
      Ret (\<lparr>reply = m, new_pos = q + m, user_out = segment (nat q) (nat m) (buffer (prv_data s))\<rparr>, ?s')"
    if "0 \<le> q" "0 \<le> m" "q + m \<le> 512" "q + m \<le> f_pos f \<or> f_pos f + n \<le> q" for q m
  proof -
    have "nat q + nat m \<le> nat (f_pos f) \<or> nat (f_pos f) + length user \<le> nat q"
      using that fits room by auto
    then have "segment (nat q) (nat m) (blit (nat (f_pos f)) user (buffer (prv_data s))) =
        segment (nat q) (nat m) (buffer (prv_data s))"
      using that room by (intro segment_blit_disjoint) auto
    moreover have "m = min m (512 - q)" "is_size_t m" using that by (simp_all add: is_size_t_def)
    ultimately show ?thesis
      using psd_read_eq [of ?s' "f\<lparr>f_pos := q\<rparr>" m "\<lambda>_. 0" m sg'] inv' [of "f\<lparr>f_pos := q\<rparr>"]
        legal inv that priv by simp
  qed
  show ?thesis
  proof (rule exI [of _ ?s'], intro conjI)
    show "psd_write s f (f_pos f) sg (\<lambda>_. 0) user n =
        Ret (\<lparr>reply = n, new_pos = f_pos f + n, user_out = []\<rparr>, ?s')"
      using psd_write_eq [OF inv legal n, of sg user] fits by simp
    show "psd_read ?s' f (f_pos f) sg' (\<lambda>_. 0) n =
        Ret (\<lparr>reply = n, new_pos = f_pos f + n, user_out = user\<rparr>, ?s')"
      using psd_read_eq [of ?s' f n "\<lambda>_. 0" n sg'] inv' [of f] inv legal n fits room priv
      by (simp add: segment_blit_same)
  qed (use far in blast)
qed

lemma psd_write_read_roundtrip_witness:
  "\<exists>s'. psd_write psd_initial \<lparr>f_pos = 509, private_data = Some Prv_data\<rparr> 509 False (\<lambda>_. 0) [1, 2, 3] 3 =
        Ret (\<lparr>reply = 3, new_pos = 512, user_out = []\<rparr>, s') \<and>
      psd_read s' \<lparr>f_pos = 509, private_data = Some Prv_data\<rparr> 509 False (\<lambda>_. 0) 3 =
        Ret (\<lparr>reply = 3, new_pos = 512, user_out = [1, 2, 3]\<rparr>, s')"
proof -
  let ?f = "\<lparr>f_pos = 509, private_data = Some Prv_data\<rparr>"
  have "psd_inv (psd_initial, ?f)" "\<not> psd_mutex psd_initial"
    by (simp_all add: psd_inv_def psd_initial_def DEV_MEM_SIZE_def)
  moreover have "(0::int) < 3" "(3::int) = int (length [1, 2, 3 :: u8])" "f_pos ?f + 3 \<le> 512"
    by simp_all
  ultimately have "\<exists>s'. psd_write psd_initial ?f (f_pos ?f) False (\<lambda>_. 0) [1, 2, 3] 3 =
        Ret (\<lparr>reply = 3, new_pos = f_pos ?f + 3, user_out = []\<rparr>, s') \<and>
      psd_read s' ?f (f_pos ?f) False (\<lambda>_. 0) 3 =
        Ret (\<lparr>reply = 3, new_pos = f_pos ?f + 3, user_out = [1, 2, 3]\<rparr>, s')"
    using psd_write_read_roundtrip by blast
  then show ?thesis by simp
qed

text \<open>
  The clamp of \<open>count\<close> does not protect against a position beyond the buffer, which
  \<open>pread\<close>/\<open>pwrite\<close> can pass (\<open>*f_pos\<close> is then the caller's offset, not a seek result):
  every \<open>pwrite\<close> between the end of the buffer and 4 GiB writes outside it, whatever its
  length and even if the user copy fails, and every \<open>pread\<close> there that copies anything reads
  outside it.
\<close>

theorem psd_positional_past_end_faults:
  assumes "psd_inv (s, f)" "\<not> psd_mutex s" "512 < p" "p < 4294967296" "is_size_t count"
  shows "psd_write s f p sg left user count = Fault Out_of_bounds \<and>
    (left (psd_adjust 512 p count) < psd_adjust 512 p count \<longrightarrow>
       psd_read s f p sg left count = Fault Out_of_bounds)"
proof -
  have adj: "psd_adjust 512 p count = 4294967808 - p"
    using assms by (auto simp: psd_adjust_def is_size_t_def c_simps)
  have "\<not> in_bounds p n (buffer (prv_data s))" if "0 \<le> n" for n
    using assms that by (simp add: in_bounds_def psd_inv_def)
  moreover have "\<not> in_bounds p n (buffer (prv_data s))" if "n < 0" for n
    using that by (simp add: in_bounds_def)
  ultimately have out: "\<not> in_bounds p n (buffer (prv_data s))" for n
    by (cases "n < 0") simp_all
  have st: "mem_size (prv_data s) = 512" "private_data f = Some Prv_data"
    using assms by (simp_all add: psd_inv_def)
  have "4294967808 - p \<noteq> 0"
    using assms by simp
  then show ?thesis
    using assms(2) st out by (simp add: psd_write_def psd_read_def adj)
qed

lemma psd_positional_past_end_faults_witness:
  "psd_write psd_initial \<lparr>f_pos = 0, private_data = Some Prv_data\<rparr> 1000 False (\<lambda>n. n) [] 0 =
     Fault Out_of_bounds"
proof -
  let ?f = "\<lparr>f_pos = 0, private_data = Some Prv_data\<rparr>"
  have "psd_inv (psd_initial, ?f)" "\<not> psd_mutex psd_initial"
    by (simp_all add: psd_inv_def psd_initial_def DEV_MEM_SIZE_def)
  from psd_positional_past_end_faults [OF this, where p = 1000 and count = 0] show ?thesis
    by (simp add: is_size_t_def)
qed

text \<open>
  However often the module is inserted and removed, with whatever documented answers the
  kernel gives, every resource it takes is given back exactly once: a failed init unwinds in
  the reverse order of what it did, a successful one holds region, class, cdev and device.
\<close>

theorem psd_module_lifecycle:
  assumes "list_all documented_answers es" "documented_answers e"
  shows "ledger [] (psd_module.cycles es) = Some [] \<and>
    stack_ledger [] (snd (pseduo_char_driver_init e)) =
      Some (if fst (pseduo_char_driver_init e) = 0 then chrdev_owned else [])"
  using psd_module.cycles_balanced [OF assms(1)] psd_init_stack [OF assms(2)] by blast

lemma psd_module_lifecycle_witness:
  "ledger [] (psd_module.cycles
     [\<lparr>alloc_ret = 0, class_ret = Ptr 1, cdev_add_ret = 0, device_ret = Err_ptr ENOMEM\<rparr>,
      \<lparr>alloc_ret = 0, class_ret = Ptr 1, cdev_add_ret = 0, device_ret = Ptr 2\<rparr>]) = Some []"
  by (rule psd_module_lifecycle [THEN conjunct1,
        where e1 = "\<lparr>alloc_ret = 0, class_ret = Ptr 1, cdev_add_ret = 0, device_ret = Ptr 2\<rparr>"]) simp_all

text \<open>
  C6: The driver refines an abstract shared memory. Any number of processes open the device,
  seek, read, write and close in any order, with any sizes, signals and failing copies: as long
  as no write finds the memory full, every call returns what a memory of 512 bytes with a
  cursor per open file answers, byte for byte, and the driver's state abstracts to that memory.
\<close>

theorem psd_refines_memory:
  assumes "world_inv w" "list_all legal_syscall cs"
    and "spec_session memory_spec (world_memory w) cs = Some (rs, a)"
  shows "\<exists>w'. session psd_syscall w cs = Ret (rs, w') \<and> world_memory w' = a \<and> world_inv w'"
  by (rule psd_device.session_simulates [OF assms])

lemma psd_refines_memory_witness:
  "\<exists>w'. session psd_syscall (psd_initial, [])
      [Open, Open, On 0 (Write False (\<lambda>n. 0) [7, 8, 9] 3), On 1 (Llseek 1 0), On 1 (Read True (\<lambda>n. 0) 2), Close 0,
       On 0 (Llseek 0 0)] =
    Ret ([(0, []), (1, []), (3, []), (1, []), (2, [8, 9]), (0, []), (neg EBADF, [])], w') \<and> world_inv w'"
proof -
  let ?w = "(psd_initial, [])" and ?cs = "[Open, Open, On 0 (Write False (\<lambda>n. 0) [7, 8, 9] 3), On 1 (Llseek 1 0),
      On 1 (Read True (\<lambda>n. 0) 2), Close 0, On 0 (Llseek 0 0)]"
    and ?rs = "[(0, []), (1, []), (3, []), (1, []), (2, [8, 9]), (0, []), (neg EBADF, [])]"
  have "world_inv ?w" "list_all legal_syscall ?cs"
    by (simp_all add: world_inv_def psd_initial_def DEV_MEM_SIZE_def is_size_t_def is_copy_answer_def is_loff_def)
  moreover have "\<exists>a. spec_session memory_spec (world_memory ?w) ?cs = Some (?rs, a)"
    by (simp add: world_memory_def psd_initial_def cursor_def seek_spec_def seek_target_def seek_consts
        blit_def segment_def from_user_def Let_def numeral_3_eq_3)
  ultimately show ?thesis using psd_refines_memory by blast
qed

end
