(* ===== verification/Psd_Concurrent.thy ===== *)
theory Psd_Concurrent
  imports Psd
begin

text \<open>
  \<open>psd_read\<close> and \<open>psd_write\<close> of \<open>11_pseduo_char_driver/pseduo_char_driver.c\<close>, executed by many
  processes at the same time. \<open>Psd\<close> runs every system call without interruption; here the
  accesses to shared state are steps of their own: taking \<open>psd_mutex\<close>, the copy of every single
  byte between the buffer and the caller, giving the mutex back. Between any two of them the
  other processes move. A process works on an open file of its own (the VFS serialises the calls
  on one file with the lock of its position and stores the position back when the call returns).

  \<open>atomic_psd_step\<close> is what the device is meant to be: each call happens at one instant between
  its invocation and its answer, as the uninterrupted \<open>psd_syscall\<close> does it, or is interrupted by
  a signal and has no effect. The interpretation of \<open>stuttering\<close> says that the interleaved
  driver is no more than that.
\<close>

section \<open>Processes in the driver\<close>

text \<open>
  Where a process is in a call: before the mutex (\<open>Called\<close>), with the mutex and before the
  adjustment of \<open>count\<close> (\<open>Has_lock\<close>), with \<open>k\<close> bytes copied of an adjusted count \<open>n\<close>
  (\<open>Copying c n k out\<close>, where \<open>out\<close> is what the caller's buffer has got), before the unlock and
  before the return to the VFS.
\<close>

datatype psd_phase =
  Outside
| Called psd_call
| Has_lock psd_call
| Copying psd_call int nat "u8 list"
| Unlocking psd_call psd_reply
| Returned psd_call psd_reply

fun call_signal :: "psd_call \<Rightarrow> bool" where
  "call_signal (Llseek off wh) = False"
| "call_signal (Read sg left count) = sg"
| "call_signal (Write sg left user count) = sg"

text \<open>One step of process \<open>i\<close> on its file \<open>f\<close>; the pair is the device and the owner of the mutex.\<close>

fun advance :: "nat \<Rightarrow> psd_file \<Rightarrow> psd_state \<times> nat option \<Rightarrow> psd_phase \<Rightarrow>
    (psd_phase \<times> psd_state \<times> nat option) outcome" where
  "advance i f (d, own) Outside = Blocked"
| "advance i f (d, own) (Called c) =
     (case c of
        Llseek off wh \<Rightarrow> obind (psd_llseek d f off wh) (\<lambda>(r, f').
          Ret (Returned c \<lparr>reply = r, new_pos = f_pos f', user_out = []\<rparr>, d, own))
      | _ \<Rightarrow> (case mutex_lock_interruptible (call_signal c) (psd_mutex d) of
            Waits \<Rightarrow> Blocked
          | Interrupted \<Rightarrow> Ret (Returned c \<lparr>reply = neg EINTR, new_pos = f_pos f, user_out = []\<rparr>, d, own)
          | Locked \<Rightarrow> Ret (Has_lock c, d\<lparr>psd_mutex := True\<rparr>, Some i)))"
| "advance i f (d, own) (Has_lock c) = deref (private_data f) (\<lambda>_.
     (case c of
        Llseek off wh \<Rightarrow> Blocked
      | Read sg left count \<Rightarrow> Ret (Copying c (psd_adjust (mem_size (prv_data d)) (f_pos f) count) 0 [], d, own)
      | Write sg left user count \<Rightarrow>
          let n = psd_adjust (mem_size (prv_data d)) (f_pos f) count in
          if n = 0 then Ret (Returned c \<lparr>reply = neg ENOMEM, new_pos = f_pos f, user_out = []\<rparr>, d, own)
          else Ret (Copying c n 0 [], d, own)))"
| "advance i f (d, own) (Copying c n k out) =
     (let b = buffer (prv_data d); p = f_pos f + int k in
      case c of
        Llseek off wh \<Rightarrow> Blocked
      | Read sg left count \<Rightarrow>
          if int k < n - left n then
            (if in_bounds p 1 b then Ret (Copying c n (Suc k) (out @ [b ! nat p]), d, own) else Fault Out_of_bounds)
          else Ret (Unlocking c (if left n \<noteq> 0 then \<lparr>reply = neg EFAULT, new_pos = f_pos f, user_out = out\<rparr>
              else \<lparr>reply = to_s32 n, new_pos = to_s64 (f_pos f + n), user_out = out\<rparr>), d, own)
      | Write sg left user count \<Rightarrow>
          if int k < n then
            (if in_bounds p 1 b
             then Ret (Copying c n (Suc k) out,
               d\<lparr>prv_data := (prv_data d)\<lparr>buffer := b[nat p := from_user user (nat n) (nat (left n)) ! k]\<rparr>\<rparr>, own)
             else Fault Out_of_bounds)
          else Ret (Unlocking c (if left n \<noteq> 0 then \<lparr>reply = neg EFAULT, new_pos = f_pos f, user_out = out\<rparr>
              else \<lparr>reply = to_s32 n, new_pos = to_s64 (f_pos f + n), user_out = out\<rparr>), d, own))"
| "advance i f (d, own) (Unlocking c r) = Ret (Returned c r, d\<lparr>psd_mutex := False\<rparr>, None)"
| "advance i f (d, own) (Returned c r) = Blocked"

section \<open>The system\<close>

datatype psd_event =
  Opened psd_answer
| Closed nat psd_answer
| Invoked nat psd_call
| Answered nat psd_call psd_answer

record psd_system =
  dev :: psd_state
  mutex_owner :: "nat option"
  files :: "psd_file option list"
  phases :: "nat \<Rightarrow> psd_phase"
  history :: "psd_event list"
  crash :: "fault option"

definition psd_start :: psd_system where
  "psd_start = \<lparr>dev = psd_initial, mutex_owner = None, files = [], phases = (\<lambda>i. Outside), history = [], crash = None\<rparr>"

definition file_at :: "psd_file option list \<Rightarrow> nat \<Rightarrow> psd_file option" where
  "file_at fs i = (if i < length fs then fs ! i else None)"

datatype psd_action = Open_file | Close_file nat | Invoke nat psd_call | Go nat | Return nat

text \<open>Opening and closing touch nothing the other processes use: they are single steps.\<close>

fun psd_fire :: "psd_action \<Rightarrow> psd_system \<Rightarrow> psd_system option" where
  "psd_fire Open_file s =
     (case psd_syscall (dev s, files s) Open of
        Ret (a, d, fs) \<Rightarrow> Some (s\<lparr>files := fs, history := history s @ [Opened a]\<rparr>)
      | _ \<Rightarrow> None)"
| "psd_fire (Close_file i) s =
     (if phases s i = Outside then
        (case psd_syscall (dev s, files s) (Close i) of
           Ret (a, d, fs) \<Rightarrow> Some (s\<lparr>files := fs, history := history s @ [Closed i a]\<rparr>)
         | _ \<Rightarrow> None)
      else None)"
| "psd_fire (Invoke i c) s =
     (if phases s i = Outside \<and> file_at (files s) i \<noteq> None
      then Some (s\<lparr>phases := (phases s)(i := Called c), history := history s @ [Invoked i c]\<rparr>) else None)"
| "psd_fire (Go i) s =
     (case file_at (files s) i of None \<Rightarrow> None
      | Some f \<Rightarrow> (case advance i f (dev s, mutex_owner s) (phases s i) of
            Ret (ph, d, own) \<Rightarrow> Some (s\<lparr>dev := d, mutex_owner := own, phases := (phases s)(i := ph)\<rparr>)
          | Fault e \<Rightarrow> Some (s\<lparr>crash := Some e\<rparr>)
          | Blocked \<Rightarrow> None))"
| "psd_fire (Return i) s =
     (case file_at (files s) i of None \<Rightarrow> None
      | Some f \<Rightarrow> (case phases s i of
            Returned c r \<Rightarrow> Some (s\<lparr>files := (files s)[i := Some (f\<lparr>f_pos := new_pos r\<rparr>)],
              phases := (phases s)(i := Outside),
              history := history s @ [Answered i c (reply r, user_out r)]\<rparr>)
          | _ \<Rightarrow> None))"

text \<open>The processes pass what the ABI allows; after a crash nothing moves.\<close>

fun legal_action :: "psd_action \<Rightarrow> bool" where
  "legal_action (Invoke i c) = legal_call c"
| "legal_action _ = True"

inductive psd_step :: "psd_system \<Rightarrow> psd_system \<Rightarrow> bool" where
  fire: "crash s = None \<Longrightarrow> legal_action a \<Longrightarrow> psd_fire a s = Some s' \<Longrightarrow> psd_step s s'"

inductive_cases psd_stepE: "psd_step s s'"

abbreviation psd_reach :: "psd_system \<Rightarrow> bool" where
  "psd_reach \<equiv> psd_step\<^sup>*\<^sup>* psd_start"

section \<open>The atomic device\<close>

datatype psd_status = Quiet | Pending psd_call | Answering psd_call psd_answer

record atomic_psd =
  world :: psd_world
  status :: "nat \<Rightarrow> psd_status"
  seen :: "psd_event list"

inductive atomic_psd_step :: "atomic_psd \<Rightarrow> atomic_psd \<Rightarrow> bool" where
  opens: "psd_syscall (world A) Open = Ret (a, w) \<Longrightarrow>
    atomic_psd_step A (A\<lparr>world := w, seen := seen A @ [Opened a]\<rparr>)"
| closes: "status A i = Quiet \<Longrightarrow> psd_syscall (world A) (Close i) = Ret (a, w) \<Longrightarrow>
    atomic_psd_step A (A\<lparr>world := w, seen := seen A @ [Closed i a]\<rparr>)"
| invokes: "status A i = Quiet \<Longrightarrow> legal_call c \<Longrightarrow>
    atomic_psd_step A (A\<lparr>status := (status A)(i := Pending c), seen := seen A @ [Invoked i c]\<rparr>)"
| performs: "status A i = Pending c \<Longrightarrow> psd_syscall (world A) (On i c) = Ret (a, w) \<Longrightarrow>
    atomic_psd_step A (A\<lparr>world := w, status := (status A)(i := Answering c a)\<rparr>)"
| interrupted: "status A i = Pending c \<Longrightarrow> call_signal c \<Longrightarrow>
    atomic_psd_step A (A\<lparr>status := (status A)(i := Answering c (neg EINTR, []))\<rparr>)"
| answers: "status A i = Answering c a \<Longrightarrow>
    atomic_psd_step A (A\<lparr>status := (status A)(i := Quiet), seen := seen A @ [Answered i c a]\<rparr>)"

text \<open>
  The view of the driver as an atomic device: the call of the process in the locked region
  counts as done, with the result the uninterrupted call would have.
\<close>

fun section_call :: "psd_phase \<Rightarrow> psd_call option" where
  "section_call (Has_lock c) = Some c"
| "section_call (Copying c n k out) = Some c"
| "section_call (Unlocking c r) = Some c"
| "section_call _ = None"

definition promised :: "psd_state \<Rightarrow> psd_file \<Rightarrow> psd_call \<Rightarrow> (psd_answer \<times> psd_sys) outcome" where
  "promised d f c = psd_fops (d\<lparr>psd_mutex := False\<rparr>, f) c"

fun view_file :: "psd_state \<Rightarrow> psd_phase \<Rightarrow> psd_file \<Rightarrow> psd_file" where
  "view_file d (Returned c r) f = f\<lparr>f_pos := new_pos r\<rparr>"
| "view_file d ph f = (case section_call ph of None \<Rightarrow> f
     | Some c \<Rightarrow> (case promised d f c of Ret (a, d', f') \<Rightarrow> f' | _ \<Rightarrow> f))"

fun view_status :: "psd_state \<Rightarrow> psd_file option \<Rightarrow> psd_phase \<Rightarrow> psd_status" where
  "view_status d fo Outside = Quiet"
| "view_status d fo (Called c) = Pending c"
| "view_status d fo (Returned c r) = Answering c (reply r, user_out r)"
| "view_status d fo ph = (case section_call ph of None \<Rightarrow> Quiet
     | Some c \<Rightarrow> (case promised d (the fo) c of Ret (a, d', f') \<Rightarrow> Answering c a | _ \<Rightarrow> Pending c))"

definition view_dev :: "psd_system \<Rightarrow> psd_state" where
  "view_dev s = (case mutex_owner s of None \<Rightarrow> dev s
     | Some i \<Rightarrow> (case section_call (phases s i) of None \<Rightarrow> dev s
         | Some c \<Rightarrow> (case promised (dev s) (the (file_at (files s) i)) c of
               Ret (a, d, f) \<Rightarrow> d | _ \<Rightarrow> dev s)))"

definition view_files :: "psd_system \<Rightarrow> psd_file option list" where
  "view_files s = map (\<lambda>i. map_option (view_file (dev s) (phases s i)) (files s ! i)) [0..<length (files s)]"

definition atomic_psd_view :: "psd_system \<Rightarrow> atomic_psd" where
  "atomic_psd_view s = \<lparr>world = (view_dev s, view_files s),
     status = (\<lambda>i. view_status (dev s) (file_at (files s) i) (phases s i)), seen = history s\<rparr>"

section \<open>The invariant of a process\<close>

fun locking :: "psd_call \<Rightarrow> bool" where
  "locking (Llseek off wh) = False"
| "locking _ = True"

text \<open>What is known of a copy after \<open>k\<close> bytes, whoever else moves.\<close>

fun copy_ok :: "psd_state \<Rightarrow> psd_file \<Rightarrow> int \<Rightarrow> nat \<Rightarrow> u8 list \<Rightarrow> psd_call \<Rightarrow> bool" where
  "copy_ok d f n k out (Llseek off wh) \<longleftrightarrow> False"
| "copy_ok d f n k out (Read sg left count) \<longleftrightarrow> n = min count (512 - f_pos f) \<and> int k \<le> n - left n \<and>
     out = segment (nat (f_pos f)) k (buffer (prv_data d))"
| "copy_ok d f n k out (Write sg left user count) \<longleftrightarrow> n = min count (512 - f_pos f) \<and> 0 < n \<and> int k \<le> n \<and> out = [] \<and>
     segment (nat (f_pos f)) k (buffer (prv_data d)) = take k (from_user user (nat n) (nat (left n)))"

fun phase_ok :: "psd_state \<Rightarrow> psd_file \<Rightarrow> psd_phase \<Rightarrow> bool" where
  "phase_ok d f Outside \<longleftrightarrow> True"
| "phase_ok d f (Called c) \<longleftrightarrow> legal_call c"
| "phase_ok d f (Has_lock c) \<longleftrightarrow> legal_call c \<and> locking c"
| "phase_ok d f (Copying c n k out) \<longleftrightarrow> legal_call c \<and> copy_ok d f n k out c"
| "phase_ok d f (Unlocking c r) \<longleftrightarrow> legal_call c \<and> locking c \<and>
     promised d f c = Ret ((reply r, user_out r), d\<lparr>psd_mutex := False\<rparr>, f\<lparr>f_pos := new_pos r\<rparr>)"
| "phase_ok d f (Returned c r) \<longleftrightarrow> 0 \<le> new_pos r \<and> new_pos r \<le> 512"

lemma phase_ok_outside: "section_call ph = None \<Longrightarrow> phase_ok d f ph = phase_ok d' f ph"
  by (cases ph) simp_all

lemma segment_snoc: "p + k < length b \<Longrightarrow> segment p (Suc k) b = segment p k b @ [b ! (p + k)]"
  by (simp add: segment_def take_Suc_conv_app_nth)

lemma segment_store:
  assumes "p + k < length b"
  shows "segment p (Suc k) (b[p + k := x]) = segment p k b @ [x]"
proof -
  have "take k (drop p (b[p + k := x])) = take k (drop p b)"
    by (simp add: drop_update_swap)
  then show ?thesis using assms by (simp add: segment_snoc) (simp add: segment_def)
qed

lemma blit_store:
  assumes "k < length ys" "p + length ys \<le> length b"
  shows "blit p ys (b[p + k := x]) = blit p ys b"
  using assms by (simp add: blit_def)

lemma blit_done:
  assumes "segment p (length ys) b = ys" "p + length ys \<le> length b"
  shows "blit p ys b = b"
proof -
  have "drop p b = ys @ drop (length ys) (drop p b)"
    using append_take_drop_id [of "length ys" "drop p b"] assms(1) by (simp add: segment_def)
  then have "take p b @ ys @ drop (p + length ys) b = take p b @ drop p b"
    by (simp add: add.commute)
  then show ?thesis by (simp add: blit_def)
qed

text \<open>What the locked region is going to do, in terms of the uninterrupted calls.\<close>

lemma inv_unlocked: "psd_inv (d\<lparr>psd_mutex := m\<rparr>, f) = psd_inv (d, f)"
  by (simp add: psd_inv_def)

lemma promised_read:
  assumes "psd_inv (d, f)" "legal_call (Read sg left count)" "n = min count (512 - f_pos f)"
  shows "promised d f (Read sg left count) =
    Ret ((if left n = 0 then n else neg EFAULT, segment (nat (f_pos f)) (nat (n - left n)) (buffer (prv_data d))),
      d\<lparr>psd_mutex := False\<rparr>, f\<lparr>f_pos := (if left n = 0 then f_pos f + n else f_pos f)\<rparr>)"
  using psd_read_eq [of "d\<lparr>psd_mutex := False\<rparr>" f count left n sg] assms
  by (simp add: promised_def inv_unlocked)

lemma promised_write:
  assumes "psd_inv (d, f)" "legal_call (Write sg left user count)" "n = min count (512 - f_pos f)"
  shows "promised d f (Write sg left user count) =
    (if n = 0 then Ret ((neg ENOMEM, []), d\<lparr>psd_mutex := True\<rparr>, f)
     else Ret ((if left n = 0 then n else neg EFAULT, []),
       d\<lparr>psd_mutex := False, prv_data := (prv_data d)\<lparr>buffer :=
          blit (nat (f_pos f)) (from_user user (nat n) (nat (left n))) (buffer (prv_data d))\<rparr>\<rparr>,
       f\<lparr>f_pos := (if left n = 0 then f_pos f + n else f_pos f)\<rparr>))"
  using psd_write_eq [of "d\<lparr>psd_mutex := False\<rparr>" f count left n sg user] assms
  by (simp add: promised_def inv_unlocked)

lemma legal_count:
  assumes "psd_inv (d, f)" "is_size_t count" "is_copy_answer left" "n = min count (512 - f_pos f)"
  shows "0 \<le> n" "f_pos f + n \<le> 512" "0 \<le> left n" "left n \<le> n" "0 \<le> f_pos f" "f_pos f \<le> 512"
    "length (buffer (prv_data d)) = 512" "psd_adjust (mem_size (prv_data d)) (f_pos f) count = n"
    "private_data f = Some Prv_data" "mem_size (prv_data d) = 512"
  using assms copy_answer_bounds [of left n] psd_adjust_eq [of "f_pos f" count]
  by (auto simp: psd_inv_def is_size_t_def)

lemma read_done:
  assumes inv: "psd_inv (d, f)" and legal: "legal_call (Read sg left count)"
    and copy: "copy_ok d f n k out (Read sg left count)" and all: "\<not> int k < n - left n"
    and r: "r = (if left n \<noteq> 0 then \<lparr>reply = neg EFAULT, new_pos = f_pos f, user_out = out\<rparr>
        else \<lparr>reply = to_s32 n, new_pos = to_s64 (f_pos f + n), user_out = out\<rparr>)"
  shows "phase_ok d f (Unlocking (Read sg left count) r)"
proof -
  from copy have n: "n = min count (512 - f_pos f)" by simp
  have b: "0 \<le> n" "f_pos f + n \<le> 512" "0 \<le> f_pos f"
    using legal_count(1,2,5) [OF inv _ _ n] legal by auto
  have k: "k = nat (n - left n)" using copy all unfolding copy_ok.simps by linarith
  have out: "out = segment (nat (f_pos f)) (nat (n - left n)) (buffer (prv_data d))"
    using copy by (simp add: k)
  have conv: "to_s32 n = n" "to_s64 (f_pos f + n) = f_pos f + n"
    using b by (simp_all add: to_s32_id to_s64_id)
  show ?thesis
    unfolding phase_ok.simps promised_read [OF inv legal n] out r conv using legal by simp
qed

lemma write_done:
  assumes inv: "psd_inv (d, f)" and legal: "legal_call (Write sg left user count)"
    and copy: "copy_ok d f n k out (Write sg left user count)" and all: "\<not> int k < n"
    and r: "r = (if left n \<noteq> 0 then \<lparr>reply = neg EFAULT, new_pos = f_pos f, user_out = out\<rparr>
        else \<lparr>reply = to_s32 n, new_pos = to_s64 (f_pos f + n), user_out = out\<rparr>)"
  shows "phase_ok d f (Unlocking (Write sg left user count) r)"
proof -
  from copy have n: "n = min count (512 - f_pos f)" "n \<noteq> 0" "out = []" by simp_all
  have b: "0 \<le> n" "f_pos f + n \<le> 512" "0 \<le> f_pos f" "length (buffer (prv_data d)) = 512"
    using legal_count(1,2,5,7) [OF inv _ _ n(1)] legal by auto
  have k: "k = nat n" using copy all unfolding copy_ok.simps by linarith
  have "segment (nat (f_pos f)) k (buffer (prv_data d)) = take k (from_user user (nat n) (nat (left n)))"
    using copy by simp
  then have "segment (nat (f_pos f)) (nat n) (buffer (prv_data d)) = from_user user (nat n) (nat (left n))"
    by (simp add: k)
  then have same: "blit (nat (f_pos f)) (from_user user (nat n) (nat (left n))) (buffer (prv_data d)) = buffer (prv_data d)"
    using b by (intro blit_done) auto
  have conv: "to_s32 n = n" "to_s64 (f_pos f + n) = f_pos f + n"
    using b by (simp_all add: to_s32_id to_s64_id)
  show ?thesis
    unfolding phase_ok.simps promised_write [OF inv legal n(1)] same r conv n(3) using legal n(2) by simp
qed

lemma advance_cases:
  assumes adv: "advance i f (d, own) ph = Ret (ph', d', own')"
    and inv: "psd_inv (d, f)" and ok: "phase_ok d f ph" and held: "psd_mutex d \<longleftrightarrow> own \<noteq> None"
  obtains
    (seek) off wh where "ph = Called (Llseek off wh)" "is_loff off" "d' = d" "own' = own"
      "ph' = Returned (Llseek off wh) \<lparr>reply = fst (seek_spec 511 (f_pos f) off wh),
         new_pos = snd (seek_spec 511 (f_pos f) off wh), user_out = []\<rparr>"
  | (lock) c where "ph = Called c" "locking c" "own = None" "ph' = Has_lock c" "d' = d\<lparr>psd_mutex := True\<rparr>" "own' = Some i"
  | (signal) c where "ph = Called c" "call_signal c" "d' = d" "own' = own"
      "ph' = Returned c \<lparr>reply = neg EINTR, new_pos = f_pos f, user_out = []\<rparr>"
  | (full) sg left user count where "ph = Has_lock (Write sg left user count)" "min count (512 - f_pos f) = 0"
      "ph' = Returned (Write sg left user count) \<lparr>reply = neg ENOMEM, new_pos = f_pos f, user_out = []\<rparr>" "d' = d" "own' = own"
  | (adjust) c n where "ph = Has_lock c" "ph' = Copying c n 0 []" "copy_ok d f n 0 [] c" "d' = d" "own' = own"
  | (load) c n k out out' where "ph = Copying c n k out" "ph' = Copying c n (Suc k) out'" "copy_ok d f n (Suc k) out' c"
      "d' = d" "own' = own"
  | (store) sg left user count n k where "ph = Copying (Write sg left user count) n k []"
      "ph' = Copying (Write sg left user count) n (Suc k) []" "int k < n"
      "d' = d\<lparr>prv_data := (prv_data d)\<lparr>buffer :=
         (buffer (prv_data d))[nat (f_pos f) + k := from_user user (nat n) (nat (left n)) ! k]\<rparr>\<rparr>" "own' = own"
  | (copied) c n k out r where "ph = Copying c n k out" "ph' = Unlocking c r" "phase_ok d f (Unlocking c r)" "d' = d" "own' = own"
  | (unlock) c r where "ph = Unlocking c r" "ph' = Returned c r" "d' = d\<lparr>psd_mutex := False\<rparr>" "own' = None"
proof (cases ph)
  case (Called c)
  show thesis
  proof (cases c)
    case (Llseek off wh)
    have "psd_llseek d f off wh = Ret (fst (seek_spec 511 (f_pos f) off wh), f\<lparr>f_pos := snd (seek_spec 511 (f_pos f) off wh)\<rparr>)"
      using inv ok Called Llseek by (intro psd_llseek_at_end) (simp_all add: psd_inv_def)
    then show thesis using adv ok Called Llseek by (intro seek [of off wh]) auto
  qed (use adv Called held in \<open>auto simp: mutex_lock_interruptible_def split: if_splits intro: lock signal\<close>)
next
  case (Has_lock c)
  show thesis
  proof (cases c)
    case (Read sg left count)
    define n where "n = min count (512 - f_pos f)"
    show thesis
      using legal_count [OF inv _ _ n_def, of left] ok adv Has_lock Read
      by (intro adjust [of c n]) (auto simp: n_def segment_def)
  next
    case (Write sg left user count)
    define n where "n = min count (512 - f_pos f)"
    note b = legal_count [OF inv _ _ n_def, of left]
    show thesis
    proof (cases "n = 0")
      case True
      then show thesis using b ok adv Has_lock Write by (intro full [of sg left user count]) (auto simp: n_def)
    next
      case False
      then show thesis using b ok adv Has_lock Write by (intro adjust [of c n]) (auto simp: n_def segment_def)
    qed
  qed (use adv Has_lock inv in \<open>simp add: psd_inv_def\<close>)
next
  case (Copying c n k out)
  show thesis
  proof (cases c)
    case (Llseek off wh)
    then show thesis using adv Copying by simp
  next
    case (Read sg left count)
    have n: "n = min count (512 - f_pos f)" using ok Copying Read by simp
    have b: "f_pos f + n \<le> 512" "0 \<le> left n" "0 \<le> f_pos f" "length (buffer (prv_data d)) = 512"
      using legal_count(2,3,5,7) [OF inv _ _ n, of left] ok Copying Read by auto
    show thesis
    proof (cases "int k < n - left n")
      case True
      then have idx: "nat (f_pos f + int k) = nat (f_pos f) + k" "nat (f_pos f) + k < 512"
        using b by simp_all
      then show thesis
        using adv ok Copying Read True b segment_snoc [of "nat (f_pos f)" k "buffer (prv_data d)"]
        by (intro load [of c n k out]) (auto simp: Let_def split: if_splits)
    next
      case False
      define r where "r = (if left n \<noteq> 0 then \<lparr>reply = neg EFAULT, new_pos = f_pos f, user_out = out\<rparr>
          else \<lparr>reply = to_s32 n, new_pos = to_s64 (f_pos f + n), user_out = out\<rparr>)"
      have "ph' = Unlocking c r" "d' = d" "own' = own"
        using adv False by (simp_all add: Copying Read Let_def r_def)
      moreover have "legal_call (Read sg left count)" "copy_ok d f n k out (Read sg left count)"
        using ok by (simp_all only: Copying Read phase_ok.simps)
      then have "phase_ok d f (Unlocking c r)"
        unfolding Read using read_done [of d f sg left count n k out r, OF inv _ _ False r_def] by blast
      ultimately show thesis using copied [OF Copying] by blast
    qed
  next
    case (Write sg left user count)
    have n: "n = min count (512 - f_pos f)" using ok Copying Write by simp
    have b: "f_pos f + n \<le> 512" "0 \<le> f_pos f" "length (buffer (prv_data d)) = 512"
      using legal_count(2,5,7) [OF inv _ _ n, of left] ok Copying Write by auto
    show thesis
    proof (cases "int k < n")
      case True
      then have "nat (f_pos f + int k) = nat (f_pos f) + k" using b by simp
      then show thesis
        using adv ok Copying Write True
        by (intro store [of sg left user count n k]) (auto simp: Let_def split: if_splits)
    next
      case False
      define r where "r = (if left n \<noteq> 0 then \<lparr>reply = neg EFAULT, new_pos = f_pos f, user_out = out\<rparr>
          else \<lparr>reply = to_s32 n, new_pos = to_s64 (f_pos f + n), user_out = out\<rparr>)"
      have "ph' = Unlocking c r" "d' = d" "own' = own"
        using adv False by (simp_all add: Copying Write Let_def r_def)
      moreover have "legal_call (Write sg left user count)" "copy_ok d f n k out (Write sg left user count)"
        using ok by (simp_all only: Copying Write phase_ok.simps)
      then have "phase_ok d f (Unlocking c r)"
        unfolding Write using write_done [of d f sg left user count n k out r, OF inv _ _ False r_def] by blast
      ultimately show thesis using copied [OF Copying] by blast
    qed
  qed
qed (use adv in \<open>auto intro: unlock\<close>)

lemma advance_no_fault:
  assumes "psd_inv (d, f)" "phase_ok d f ph"
  shows "advance i f (d, own) ph \<noteq> Fault e"
proof (cases ph)
  case (Called c)
  then show ?thesis
    using assms by (cases c) (auto simp: psd_llseek_def psd_inv_def case_prod_beta split: lock_answer.splits)
next
  case (Has_lock c)
  then show ?thesis using assms by (cases c) (auto simp: psd_inv_def Let_def)
next
  case (Copying c n k out)
  show ?thesis
  proof (cases c)
    case (Llseek off wh)
    then show ?thesis using Copying by simp
  next
    case (Read sg left count)
    then show ?thesis
      using legal_count(2,3,5,7) [OF assms(1), of count left n] assms(2) Copying
      by (auto simp: Let_def in_bounds_def)
  next
    case (Write sg left user count)
    then show ?thesis
      using legal_count(2,5,7) [OF assms(1), of count left n] assms(2) Copying
      by (auto simp: Let_def in_bounds_def)
  qed
qed simp_all

section \<open>The mutex\<close>

definition in_section :: "nat \<Rightarrow> psd_system \<Rightarrow> bool" where
  "in_section i s \<longleftrightarrow> section_call (phases s i) \<noteq> None"

definition holder :: "psd_system \<Rightarrow> nat option" where
  "holder s = (if psd_mutex (dev s) then mutex_owner s else None)"

text \<open>What a step of one process does to the mutex, whatever state it is in.\<close>

lemma advance_lock:
  assumes "advance i f (d, own) ph = Ret (ph', d', own')"
  obtains (same) "psd_mutex d' = psd_mutex d" "own' = own" "section_call ph' \<noteq> None \<Longrightarrow> section_call ph \<noteq> None"
  | (take) "\<not> psd_mutex d" "psd_mutex d'" "own' = Some i" "section_call ph = None"
  | (give) "section_call ph \<noteq> None" "section_call ph' = None"
proof (cases ph)
  case (Called c)
  then show thesis
    using assms by (cases c)
      (auto simp: obind_Ret_iff mutex_lock_interruptible_def split: if_splits intro: same take)
next
  case (Has_lock c)
  then show thesis
    using assms by (cases c; cases "private_data f") (auto simp: Let_def split: if_splits intro: same give)
next
  case (Copying c n k out)
  then show thesis
    using assms by (cases c) (auto simp: Let_def split: if_splits intro: same)
next
  case (Unlocking c r)
  then show thesis using assms by (auto intro: give)
qed (use assms in simp_all)

text \<open>The steps of the system, one case per kind of action.\<close>

lemma psd_step_cases:
  assumes "psd_step s s'"
  obtains (opened) f where "f = snd (psd_open \<lparr>f_pos = 0, private_data = None\<rparr>)"
      "s' = s\<lparr>files := files s @ [Some f], history := history s @ [Opened (int (length (files s)), [])]\<rparr>"
  | (closed) i where "phases s i = Outside" "file_at (files s) i \<noteq> None"
      "s' = s\<lparr>files := (files s)[i := None], history := history s @ [Closed i (0, [])]\<rparr>"
  | (not_open) i where "phases s i = Outside" "file_at (files s) i = None"
      "s' = s\<lparr>history := history s @ [Closed i (neg EBADF, [])]\<rparr>"
  | (invoke) i c where "phases s i = Outside" "file_at (files s) i \<noteq> None" "legal_call c"
      "s' = s\<lparr>phases := (phases s)(i := Called c), history := history s @ [Invoked i c]\<rparr>"
  | (run) i f ph d own where "file_at (files s) i = Some f"
      "advance i f (dev s, mutex_owner s) (phases s i) = Ret (ph, d, own)"
      "s' = s\<lparr>dev := d, mutex_owner := own, phases := (phases s)(i := ph)\<rparr>"
  | (die) i f e where "file_at (files s) i = Some f"
      "advance i f (dev s, mutex_owner s) (phases s i) = Fault e" "s' = s\<lparr>crash := Some e\<rparr>"
  | (return) i f c r where "file_at (files s) i = Some f" "phases s i = Returned c r"
      "s' = s\<lparr>files := (files s)[i := Some (f\<lparr>f_pos := new_pos r\<rparr>)], phases := (phases s)(i := Outside),
         history := history s @ [Answered i c (reply r, user_out r)]\<rparr>"
  using assms
proof (rule psd_stepE)
  fix a assume fire: "psd_fire a s = Some s'" and legal: "legal_action a"
  show thesis
  proof (cases a)
    case Open_file
    then show thesis using fire by (intro opened) (auto simp: psd_open_def)
  next
    case (Close_file i)
    then show thesis using fire
      by (auto simp: file_at_def psd_release_def split: if_splits option.splits intro: closed [of i] not_open [of i])
  next
    case (Invoke i c)
    then show thesis using fire legal by (intro invoke) (auto split: if_splits)
  next
    case (Go i)
    then show thesis using fire
      by (auto split: option.splits outcome.splits intro: run die)
  next
    case (Return i)
    then show thesis using fire
      by (auto split: option.splits psd_phase.splits intro: return)
  qed
qed

interpretation psd_lock: lock_discipline psd_step psd_start holder in_section
proof
  fix t show "\<not> in_section t psd_start" by (simp add: in_section_def psd_start_def)
next
  fix s s' t
  assume step: "psd_step s s'" and t: "\<not> in_section t s" "in_section t s'"
  from step show "holder s = None \<and> holder s' = Some t"
  proof (cases rule: psd_step_cases)
    case (run i f ph d own)
    have "i = t" using t run(3) by (auto simp: in_section_def split: if_splits)
    from run(2) show ?thesis
      using t run(3) unfolding \<open>i = t\<close>
      by (cases rule: advance_lock) (auto simp: in_section_def holder_def)
  qed (use t in \<open>auto simp: in_section_def split: if_splits\<close>)
next
  fix s s' t
  assume step: "psd_step s s'" and hold: "\<And>u. in_section u s \<Longrightarrow> holder s = Some u"
    and t: "in_section t s" "in_section t s'"
  have held: "holder s = Some t" using hold t(1) .
  from step show "holder s' = Some t"
  proof (cases rule: psd_step_cases)
    case (run i f ph d own)
    from run(2) show ?thesis
    proof (cases rule: advance_lock)
      case give
      then have "i = t" using hold [of i] held by (simp add: in_section_def)
      then show ?thesis using give t(2) run(3) by (simp add: in_section_def)
    qed (use held run(3) in \<open>auto simp: holder_def split: if_splits\<close>)
  qed (use held in \<open>auto simp: holder_def split: if_splits\<close>)
qed

section \<open>The invariant of the system\<close>

definition psd_sys_inv :: "psd_system \<Rightarrow> bool" where
  "psd_sys_inv s \<longleftrightarrow> crash s = None \<and> length (buffer (prv_data (dev s))) = 512 \<and> mem_size (prv_data (dev s)) = 512 \<and>
     (psd_mutex (dev s) \<longleftrightarrow> mutex_owner s \<noteq> None) \<and>
     (\<forall>i. file_at (files s) i = None \<longrightarrow> phases s i = Outside) \<and>
     (\<forall>i f. file_at (files s) i = Some f \<longrightarrow> psd_inv (dev s, f) \<and> phase_ok (dev s) f (phases s i))"

lemma file_at_simps [simp]:
  "file_at (fs @ [x]) i = (if i = length fs then x else file_at fs i)"
  "file_at (fs[j := y]) i = (if i = j \<and> i < length fs then y else file_at fs i)"
  "file_at [] i = None"
  by (auto simp: file_at_def nth_append)

lemma file_at_Some: "file_at fs i = Some f \<Longrightarrow> i < length fs \<and> fs ! i = Some f"
  by (simp add: file_at_def split: if_splits)

lemma psd_sys_invD:
  assumes "psd_sys_inv s"
  shows "crash s = None" "length (buffer (prv_data (dev s))) = 512" "mem_size (prv_data (dev s)) = 512"
    "psd_mutex (dev s) \<longleftrightarrow> mutex_owner s \<noteq> None"
    "file_at (files s) i = None \<Longrightarrow> phases s i = Outside"
    "file_at (files s) i = Some f \<Longrightarrow> psd_inv (dev s, f)"
    "file_at (files s) i = Some f \<Longrightarrow> phase_ok (dev s) f (phases s i)"
  using assms unfolding psd_sys_inv_def by blast+

text \<open>A process in the locked region leaves the others alone, and a step outside it changes no data.\<close>

lemma advance_effect:
  assumes adv: "advance i f (d, own) ph = Ret (ph', d', own')"
    and inv: "psd_inv (d, f)" and ok: "phase_ok d f ph" and held: "psd_mutex d \<longleftrightarrow> own \<noteq> None"
  shows "psd_inv (d', f) \<and> phase_ok d' f ph' \<and> (psd_mutex d' \<longleftrightarrow> own' \<noteq> None) \<and>
    (section_call ph = None \<longrightarrow> prv_data d' = prv_data d)"
  using adv inv ok held
proof (cases rule: advance_cases)
  case (seek off wh)
  then show ?thesis
    using inv held seek_spec_cases [of 511 "f_pos f" off wh] by (auto simp: psd_inv_def)
next
  case (store sg left user count n k)
  note c = ok [unfolded store(1), simplified]
  have b: "f_pos f + n \<le> 512" "0 \<le> f_pos f" "length (buffer (prv_data d)) = 512"
    using legal_count(2,5,7) [OF inv, of count left n] c by auto
  then have "nat (f_pos f) + k < length (buffer (prv_data d))" "k < nat n" using store(3) by auto
  then have "segment (nat (f_pos f)) (Suc k)
        ((buffer (prv_data d))[nat (f_pos f) + k := from_user user (nat n) (nat (left n)) ! k]) =
      take (Suc k) (from_user user (nat n) (nat (left n)))"
    using c by (simp add: segment_store take_Suc_conv_app_nth)
  then show ?thesis
    using inv held c store by (simp add: psd_inv_def)
next
  case (unlock c r)
  then have "psd_inv (d\<lparr>psd_mutex := False\<rparr>, f\<lparr>f_pos := new_pos r\<rparr>)"
    using psd_fops_inv [of "(d\<lparr>psd_mutex := False\<rparr>, f)" c] ok inv by (simp add: promised_def inv_unlocked)
  then show ?thesis using unlock inv by (simp add: psd_inv_def)
qed (use inv ok held in \<open>auto simp: psd_inv_def\<close>)

lemma psd_sys_inv_step:
  assumes step: "psd_step s s'" and inv: "psd_sys_inv s" and alone: "\<And>i. in_section i s \<Longrightarrow> holder s = Some i"
  shows "psd_sys_inv s'"
  using step
proof (cases rule: psd_step_cases)
  case (run i f ph d own)
  note D = psd_sys_invD [OF inv]
  note eff = advance_effect [OF run(2) D(6) [OF run(1)] D(7) [OF run(1)] D(4)]
  have others: "psd_inv (d, g) \<and> phase_ok d g (phases s j)" if j: "j \<noteq> i" "file_at (files s) j = Some g" for j g
  proof
    show "psd_inv (d, g)" using D(6) [OF j(2)] eff psd_inv_share by blast
    show "phase_ok d g (phases s j)"
    proof (cases "section_call (phases s j) = None")
      case True
      then show ?thesis using D(7) [OF j(2)] phase_ok_outside by blast
    next
      case False
      then have "holder s = Some j" using alone [of j] by (simp add: in_section_def)
      then have "section_call (phases s i) = None" "psd_mutex (dev s)"
        using alone [of i] j(1) by (cases "section_call (phases s i)"; auto simp: in_section_def holder_def split: if_splits)+
      moreover from run(2) this have "d = dev s"
        by (cases rule: advance_cases [OF run(2) D(6) [OF run(1)] D(7) [OF run(1)] D(4)]) (use D(4) in auto)
      ultimately show ?thesis using D(7) [OF j(2)] by simp
    qed
  qed
  have mem: "length (buffer (prv_data d)) = 512" "mem_size (prv_data d) = 512"
    using eff by (simp_all add: psd_inv_def)
  show ?thesis
    unfolding psd_sys_inv_def run(3)
    using D(1,5) eff mem others run(1) by (auto split: if_splits)
next
  case (die i f e)
  then show ?thesis using advance_no_fault psd_sys_invD(6,7) [OF inv] by blast
next
  case (opened f)
  then have "psd_inv (dev s, f)"
    using psd_sys_invD(2,3) [OF inv] by (simp add: psd_inv_def psd_open_def)
  moreover have "phases s (length (files s)) = Outside"
    using psd_sys_invD(5) [OF inv] by (simp add: file_at_def)
  ultimately show ?thesis
    using psd_sys_invD [OF inv] opened(2) unfolding psd_sys_inv_def by auto
next
  case (return i f c r)
  have "psd_inv (dev s, f\<lparr>f_pos := new_pos r\<rparr>)"
    using psd_sys_invD(6,7) [OF inv return(1)] return(2) by (simp add: psd_inv_def)
  then show ?thesis
    using psd_sys_invD [OF inv] return(3) file_at_Some [OF return(1)] unfolding psd_sys_inv_def by auto
next
  case (invoke i c)
  then show ?thesis using psd_sys_invD [OF inv] unfolding psd_sys_inv_def by auto
next
  case (closed i)
  then show ?thesis using psd_sys_invD [OF inv] unfolding psd_sys_inv_def by auto
next
  case (not_open i)
  then show ?thesis using psd_sys_invD [OF inv] unfolding psd_sys_inv_def by auto
qed

lemma psd_start_inv: "psd_sys_inv psd_start"
  by (simp add: psd_sys_inv_def psd_start_def psd_initial_def DEV_MEM_SIZE_def)

lemma psd_reach_inv: "psd_reach s \<Longrightarrow> psd_sys_inv s"
proof (induction rule: rtranclp_induct)
  case (step s s')
  then show ?case using psd_sys_inv_step psd_lock.inside_holds by blast
qed (rule psd_start_inv)

section \<open>The driver refines the atomic device\<close>

lemma promise_ok:
  assumes "psd_inv (d, f)" "phase_ok d f ph" "section_call ph = Some c"
  obtains a d' f' where "promised d f c = Ret (a, d', f')" "psd_inv (d', f')"
proof -
  have "legal_call c \<and> locking c"
    using assms(2,3) by (cases ph; cases c) auto
  then have "\<exists>a d' f'. promised d f c = Ret (a, d', f')"
    using assms(1) by (cases c) (auto simp: promised_read [OF _ _ refl] promised_write [OF _ _ refl])
  then obtain a d' f' where r: "promised d f c = Ret (a, d', f')" by blast
  moreover have "psd_inv (d', f')"
    using psd_fops_inv [of "(d\<lparr>psd_mutex := False\<rparr>, f)" c] \<open>legal_call c \<and> locking c\<close> assms(1) r
    by (simp add: promised_def inv_unlocked)
  ultimately show thesis using that by blast
qed

lemma files_eqI: "length fs = length gs \<Longrightarrow> (\<And>i. file_at fs i = file_at gs i) \<Longrightarrow> fs = gs"
proof (rule nth_equalityI)
  fix i assume "\<And>i. file_at fs i = file_at gs i" "length fs = length gs" "i < length fs"
  then show "fs ! i = gs ! i" unfolding file_at_def by metis
qed

lemma view_files_simps [simp]:
  "length (view_files s) = length (files s)"
  "file_at (view_files s) i = map_option (view_file (dev s) (phases s i)) (file_at (files s) i)"
  by (simp_all add: view_files_def file_at_def)

lemma view_outside:
  assumes "section_call ph = None"
  shows "view_file d ph f = view_file d' ph f" "view_status d fo ph = view_status d' fo ph"
  using assms by (cases ph; simp)+

lemma view_inside:
  assumes "section_call ph = Some c" "promised d f c = Ret (a, d', f')"
  shows "view_file d ph f = f'" "view_status d (Some f) ph = Answering c a"
  using assms by (cases ph; simp)+

lemma syscall_on:
  "psd_syscall (d, fs) (On i c) = (case file_at fs i of None \<Rightarrow> Ret ((neg EBADF, []), d, fs)
     | Some f \<Rightarrow> obind (psd_fops (d, f) c) (\<lambda>(r, d', f'). Ret (r, d', fs[i := Some f'])))"
  "psd_syscall (d, fs) (Close i) = (case file_at fs i of None \<Rightarrow> Ret ((neg EBADF, []), d, fs)
     | Some f \<Rightarrow> Ret ((0, []), d, fs[i := None]))"
  by (simp_all add: file_at_def psd_release_def split: option.split)

text \<open>Nobody else is in the locked region.\<close>

definition alone :: "nat \<Rightarrow> psd_system \<Rightarrow> bool" where
  "alone i s \<longleftrightarrow> (\<forall>j. j \<noteq> i \<longrightarrow> section_call (phases s j) = None)"

lemma view_eqI:
  assumes "view_dev s' = view_dev s" "length (files s') = length (files s)" "history s' = history s"
    and "\<And>j. map_option (view_file (dev s') (phases s' j)) (file_at (files s') j) =
      map_option (view_file (dev s) (phases s j)) (file_at (files s) j)"
    and "\<And>j. view_status (dev s') (file_at (files s') j) (phases s' j) = view_status (dev s) (file_at (files s) j) (phases s j)"
  shows "atomic_psd_view s' = atomic_psd_view s"
proof -
  have "view_files s' = view_files s" using assms(2,4) by (intro files_eqI) simp_all
  then show ?thesis using assms(1,3,5) by (simp add: atomic_psd_view_def)
qed

lemma view_internal:
  assumes f: "file_at (files s) i = Some f" and own: "mutex_owner s = Some i" and other: "alone i s"
    and call: "section_call (phases s i) = Some c" "section_call ph = Some c"
    and same: "promised d f c = promised (dev s) f c" "promised (dev s) f c = Ret (a, d0, f0)"
  shows "atomic_psd_view (s\<lparr>dev := d, mutex_owner := Some i, phases := (phases s)(i := ph)\<rparr>) = atomic_psd_view s"
proof (rule view_eqI)
  fix j
  have free: "section_call (phases s j) = None" if "j \<noteq> i" using other that by (simp add: alone_def)
  show "map_option (view_file (dev (s\<lparr>dev := d, mutex_owner := Some i, phases := (phases s)(i := ph)\<rparr>))
          (phases (s\<lparr>dev := d, mutex_owner := Some i, phases := (phases s)(i := ph)\<rparr>) j))
        (file_at (files (s\<lparr>dev := d, mutex_owner := Some i, phases := (phases s)(i := ph)\<rparr>)) j) =
      map_option (view_file (dev s) (phases s j)) (file_at (files s) j)"
    using f view_inside(1) [OF call(1) same(2)] view_inside(1) [OF call(2) same(1) [unfolded same(2)]]
      view_outside(1) [OF free, of d _ "dev s"]
    by (cases "j = i"; cases "file_at (files s) j") simp_all
  show "view_status (dev (s\<lparr>dev := d, mutex_owner := Some i, phases := (phases s)(i := ph)\<rparr>))
        (file_at (files (s\<lparr>dev := d, mutex_owner := Some i, phases := (phases s)(i := ph)\<rparr>)) j)
        (phases (s\<lparr>dev := d, mutex_owner := Some i, phases := (phases s)(i := ph)\<rparr>) j) =
      view_status (dev s) (file_at (files s) j) (phases s j)"
    using f view_inside(2) [OF call(1) same(2)] view_inside(2) [OF call(2) same(1) [unfolded same(2)]]
      view_outside(2) [OF free, of d _ "dev s"]
    by (cases "j = i") simp_all
qed (use f own call same in \<open>simp_all add: view_dev_def\<close>)

lemma view_dev_mem:
  assumes "psd_sys_inv s"
  shows "mem_size (prv_data (view_dev s)) = 512"
proof (cases "mutex_owner s")
  case None
  then show ?thesis using assms by (simp add: view_dev_def psd_sys_inv_def)
next
  case (Some i)
  show ?thesis
  proof (cases "section_call (phases s i)")
    case None
    then show ?thesis using assms Some by (simp add: view_dev_def psd_sys_inv_def)
  next
    case call: (Some c)
    then obtain f where f: "file_at (files s) i = Some f"
      using psd_sys_invD(5) [OF assms, of i] by (cases "file_at (files s) i") auto
    obtain a d' f' where "promised (dev s) f c = Ret (a, d', f')" "psd_inv (d', f')"
      using promise_ok psd_sys_invD(6,7) [OF assms f] call by blast
    then show ?thesis using Some call f by (simp add: view_dev_def psd_inv_def)
  qed
qed

lemma view_update:
  assumes "file_at (files s) i = Some f"
    and "view_dev s' = d" "length (files s') = length (files s)" "history s' = history s"
    and "map_option (view_file (dev s') (phases s' i)) (file_at (files s') i) = Some f'"
    and "view_status (dev s') (file_at (files s') i) (phases s' i) = st"
    and "\<And>j. j \<noteq> i \<Longrightarrow> map_option (view_file (dev s') (phases s' j)) (file_at (files s') j) =
      map_option (view_file (dev s) (phases s j)) (file_at (files s) j)"
    and "\<And>j. j \<noteq> i \<Longrightarrow> view_status (dev s') (file_at (files s') j) (phases s' j) =
      view_status (dev s) (file_at (files s) j) (phases s j)"
  shows "atomic_psd_view s' = (atomic_psd_view s)\<lparr>world := (d, (view_files s)[i := Some f']),
    status := (status (atomic_psd_view s))(i := st)\<rparr>"
proof -
  have "view_files s' = (view_files s)[i := Some f']"
    using assms file_at_Some [OF assms(1)] by (intro files_eqI) auto
  moreover have "(\<lambda>j. view_status (dev s') (file_at (files s') j) (phases s' j)) =
      (\<lambda>j. view_status (dev s) (file_at (files s) j) (phases s j))(i := st)"
    using assms(6,8) by (auto simp: fun_eq_iff)
  ultimately show ?thesis using assms(2,4) by (simp add: atomic_psd_view_def)
qed

lemma view_dev_same:
  assumes "dev s' = dev s" "mutex_owner s' = mutex_owner s"
    and "\<And>j. section_call (phases s' j) = section_call (phases s j)"
    and "\<And>j c. section_call (phases s j) = Some c \<Longrightarrow> file_at (files s') j = file_at (files s) j"
  shows "view_dev s' = view_dev s"
proof (cases "mutex_owner s")
  case (Some j)
  then show ?thesis
    using assms by (cases "section_call (phases s j)") (simp_all add: view_dev_def split: outcome.split)
qed (use assms in \<open>simp add: view_dev_def\<close>)

lemma view_run:
  assumes f: "file_at (files s) i = Some f"
    and adv: "advance i f (dev s, mutex_owner s) (phases s i) = Ret (ph, d, own)"
    and s': "s' = s\<lparr>dev := d, mutex_owner := own, phases := (phases s)(i := ph)\<rparr>"
    and inv: "psd_sys_inv s" and hold: "\<And>j. in_section j s \<Longrightarrow> holder s = Some j"
  shows "atomic_psd_step (atomic_psd_view s) (atomic_psd_view s') \<or> atomic_psd_view s' = atomic_psd_view s"
proof -
  note D = psd_sys_invD [OF inv]
  note fi = D(6) [OF f] and ok = D(7) [OF f]
  let ?V = "atomic_psd_view s"
  have owned: "mutex_owner s = Some i" "alone i s" if "section_call (phases s i) = Some c" for c
  proof -
    show "mutex_owner s = Some i" using hold [of i] that by (simp add: in_section_def holder_def split: if_splits)
    show "alone i s" unfolding alone_def
    proof (intro allI impI)
      fix j assume "j \<noteq> i"
      then show "section_call (phases s j) = None"
        using hold [of i] hold [of j] that by (cases "section_call (phases s j)") (simp_all add: in_section_def)
    qed
  qed
  have st: "status ?V i = view_status (dev s) (Some f) (phases s i)"
    using f by (simp add: atomic_psd_view_def)
  have wd: "world ?V = (view_dev s, view_files s)" by (simp add: atomic_psd_view_def)
  have internal: "atomic_psd_view s' = ?V"
    if "section_call (phases s i) = Some c" "section_call ph = Some c" "own = mutex_owner s"
      "promised d f c = promised (dev s) f c" for c
  proof -
    note hyps = that
    obtain a d0 f0 where "promised (dev s) f c = Ret (a, d0, f0)"
      using promise_ok [OF fi ok hyps(1)] by blast
    then show ?thesis
      using view_internal [OF f owned [OF hyps(1)] hyps(1,2,4)] hyps(3) owned(1) [OF hyps(1)] s' by simp
  qed
  from adv fi ok D(4) show ?thesis
  proof (cases rule: advance_cases)
    case (seek off wh)
    define f' where "f' = f\<lparr>f_pos := snd (seek_spec 511 (f_pos f) off wh)\<rparr>"
    define a where "a = (fst (seek_spec 511 (f_pos f) off wh), [] :: u8 list)"
    have "view_dev s' = view_dev s"
      using seek s' by (intro view_dev_same) auto
    then have view: "atomic_psd_view s' = ?V\<lparr>world := (view_dev s, (view_files s)[i := Some f']),
        status := (status ?V)(i := Answering (Llseek off wh) a)\<rparr>"
      using seek s' f by (intro view_update [OF f]) (simp_all add: f'_def a_def)
    have "psd_llseek (view_dev s) f off wh = Ret (fst a, f')"
      using fi seek(2) view_dev_mem [OF inv] unfolding f'_def a_def fst_conv
      by (intro psd_llseek_at_end) (simp_all add: psd_inv_def)
    then have "psd_syscall (world ?V) (On i (Llseek off wh)) = Ret (a, view_dev s, (view_files s)[i := Some f'])"
      unfolding wd syscall_on using f seek(1) by (simp add: a_def)
    moreover have "status ?V i = Pending (Llseek off wh)" using st seek(1) by simp
    ultimately show ?thesis unfolding view using atomic_psd_step.performs by blast
  next
    case (lock c)
    have mtx: "dev s\<lparr>psd_mutex := True, psd_mutex := False\<rparr> = dev s" "\<not> psd_mutex (dev s)"
      using D(4) lock(3) by simp_all
    have call: "promised (dev s\<lparr>psd_mutex := True\<rparr>) f c = psd_fops (dev s, f) c"
      by (simp only: promised_def mtx(1))
    have "psd_inv (d, f)" "phase_ok d f ph" "section_call ph = Some c"
      using advance_effect [OF adv fi ok D(4)] lock(4) by simp_all
    then obtain a d' f' where r: "promised d f c = Ret (a, d', f')" using promise_ok by blast
    have none: "section_call (phases s j) = None" for j
      using hold [of j] lock(3) by (cases "section_call (phases s j)") (auto simp: in_section_def holder_def split: if_splits)
    have view: "atomic_psd_view s' = ?V\<lparr>world := (d', (view_files s)[i := Some f']),
        status := (status ?V)(i := Answering c a)\<rparr>"
    proof (rule view_update [OF f])
      show "view_dev s' = d'" using lock r s' f by (simp add: view_dev_def)
    next
      fix j assume "j \<noteq> i"
      then show "map_option (view_file (dev s') (phases s' j)) (file_at (files s') j) =
          map_option (view_file (dev s) (phases s j)) (file_at (files s) j)"
        using view_outside(1) [OF none [of j], of d _ "dev s"] s' by (cases "file_at (files s) j") simp_all
    next
      fix j assume "j \<noteq> i"
      then show "view_status (dev s') (file_at (files s') j) (phases s' j) =
          view_status (dev s) (file_at (files s) j) (phases s j)"
        using view_outside(2) [OF none [of j], of d _ "dev s"] s' by simp
    qed (use lock(4) r s' f in simp_all)
    have "view_dev s = dev s" using lock(3) by (simp add: view_dev_def)
    then have "psd_syscall (world ?V) (On i c) = Ret (a, d', (view_files s)[i := Some f'])"
      unfolding wd syscall_on using f lock(1) r call lock(5) by simp
    moreover have "status ?V i = Pending c" using st lock(1) by simp
    ultimately show ?thesis unfolding view using atomic_psd_step.performs by blast
  next
    case (signal c)
    have "view_dev s' = view_dev s"
      using signal s' by (intro view_dev_same) auto
    then have "atomic_psd_view s' = ?V\<lparr>world := (view_dev s, (view_files s)[i := Some f]),
        status := (status ?V)(i := Answering c (neg EINTR, []))\<rparr>"
      using signal s' f by (intro view_update [OF f]) simp_all
    moreover have "(view_files s)[i := Some f] = view_files s"
      using f signal(1) by (intro files_eqI) auto
    ultimately have "atomic_psd_view s' = ?V\<lparr>status := (status ?V)(i := Answering c (neg EINTR, []))\<rparr>"
      by (simp add: atomic_psd_view_def)
    moreover have "status ?V i = Pending c" using st signal(1) by simp
    ultimately show ?thesis using atomic_psd_step.interrupted signal(2) by simp
  next
    case (full sg left user count)
    let ?c = "Write sg left user count"
    have call: "section_call (phases s i) = Some ?c" using full(1) by simp
    note own = owned [OF call]
    have r: "promised (dev s) f ?c = Ret ((neg ENOMEM, []), dev s, f)"
      using promised_write [OF fi _ refl, of sg left user count] ok full(1,2) D(4) own(1) by simp
    have "atomic_psd_view s' = ?V"
    proof (rule view_eqI)
      show "view_dev s' = view_dev s" using full s' own(1) r f by (simp add: view_dev_def)
    next
      fix j
      show "map_option (view_file (dev s') (phases s' j)) (file_at (files s') j) =
          map_option (view_file (dev s) (phases s j)) (file_at (files s) j)"
        using full s' f view_inside(1) [OF call r] by (cases "j = i") simp_all
      show "view_status (dev s') (file_at (files s') j) (phases s' j) =
          view_status (dev s) (file_at (files s) j) (phases s j)"
        using full s' f view_inside(2) [OF call r] by (cases "j = i") simp_all
    qed (use s' in simp_all)
    then show ?thesis ..
  next
    case (store sg left user count n k)
    let ?c = "Write sg left user count"
    have c: "legal_call ?c" "n = min count (512 - f_pos f)" "0 < n"
      using ok unfolding store(1) phase_ok.simps copy_ok.simps by blast+
    note b = legal_count(2,5,7) [OF fi _ _ c(2), of left]
    have "blit (nat (f_pos f)) (from_user user (nat n) (nat (left n))) (buffer (prv_data d)) =
        blit (nat (f_pos f)) (from_user user (nat n) (nat (left n))) (buffer (prv_data (dev s)))"
      using store(3,4) b c(1) by (simp add: blit_store)
    then have "promised d f ?c = promised (dev s) f ?c"
      using promised_write [OF fi c(1,2)] promised_write [OF _ c(1,2), of d] advance_effect [OF adv fi ok D(4)] c(3) store(4)
      by simp
    then show ?thesis using internal [of ?c] store(1,2,5) by simp
  next
    case (unlock c r)
    have call: "section_call (phases s i) = Some c" using unlock(1) by simp
    note own = owned [OF call]
    have r: "promised (dev s) f c = Ret ((reply r, user_out r), dev s\<lparr>psd_mutex := False\<rparr>, f\<lparr>f_pos := new_pos r\<rparr>)"
      using ok unlock(1) by simp
    have "atomic_psd_view s' = ?V"
    proof (rule view_eqI)
      show "view_dev s' = view_dev s" using unlock s' own(1) r f by (simp add: view_dev_def)
    next
      fix j
      have none: "section_call (phases s j) = None" if "j \<noteq> i" using own(2) that by (simp add: alone_def)
      show "map_option (view_file (dev s') (phases s' j)) (file_at (files s') j) =
          map_option (view_file (dev s) (phases s j)) (file_at (files s) j)"
      proof (cases "j = i")
        case True
        then show ?thesis using unlock s' f view_inside(1) [OF call r] by simp
      next
        case False
        then show ?thesis
          using s' view_outside(1) [OF none, of d _ "dev s"] by (cases "file_at (files s) j") simp_all
      qed
      show "view_status (dev s') (file_at (files s') j) (phases s' j) =
          view_status (dev s) (file_at (files s) j) (phases s j)"
        using unlock s' f view_inside(2) [OF call r] view_outside(2) [OF none, of d _ "dev s"]
        by (cases "j = i") simp_all
    qed (use s' in simp_all)
    then show ?thesis ..
  qed (use internal in \<open>simp add: disjI2\<close>)+
qed

lemma view_invoke:
  assumes "phases s i = Outside" "file_at (files s) i = Some f" "legal_call c"
    and "s' = s\<lparr>phases := (phases s)(i := Called c), history := history s @ [Invoked i c]\<rparr>"
  shows "atomic_psd_step (atomic_psd_view s) (atomic_psd_view s')"
proof -
  let ?V = "atomic_psd_view s"
  have "view_dev s' = view_dev s"
    using assms by (intro view_dev_same) auto
  moreover have "view_files s' = view_files s"
    using assms by (intro files_eqI) auto
  moreover have "(\<lambda>j. view_status (dev s') (file_at (files s') j) (phases s' j)) = (status ?V)(i := Pending c)"
    using assms by (auto simp: atomic_psd_view_def fun_eq_iff)
  ultimately have "atomic_psd_view s' = ?V\<lparr>status := (status ?V)(i := Pending c), seen := seen ?V @ [Invoked i c]\<rparr>"
    using assms(4) by (simp add: atomic_psd_view_def)
  moreover have "status ?V i = Quiet" using assms(1) by (simp add: atomic_psd_view_def)
  ultimately show ?thesis using atomic_psd_step.invokes assms(3) by simp
qed

lemma view_open:
  assumes inv: "psd_sys_inv s" and f: "f = snd (psd_open \<lparr>f_pos = 0, private_data = None\<rparr>)"
    and s': "s' = s\<lparr>files := files s @ [Some f], history := history s @ [Opened (int (length (files s)), [])]\<rparr>"
  shows "atomic_psd_step (atomic_psd_view s) (atomic_psd_view s')"
proof -
  let ?V = "atomic_psd_view s"
  have out: "phases s (length (files s)) = Outside"
    using psd_sys_invD(5) [OF inv] by (simp add: file_at_def)
  have dev: "view_dev s' = view_dev s"
    using s' out by (intro view_dev_same) auto
  have fs: "view_files s' = view_files s @ [Some f]"
    using s' out by (intro files_eqI) auto
  have st: "(\<lambda>j. view_status (dev s') (file_at (files s') j) (phases s' j)) = status ?V"
    using s' out by (auto simp: atomic_psd_view_def fun_eq_iff)
  have "atomic_psd_view s' = ?V\<lparr>world := (view_dev s, view_files s @ [Some f]),
      seen := seen ?V @ [Opened (int (length (files s)), [])]\<rparr>"
    using dev fs st s' by (simp add: atomic_psd_view_def)
  moreover have "psd_syscall (world ?V) Open = Ret ((int (length (files s)), []), view_dev s, view_files s @ [Some f])"
    by (simp add: atomic_psd_view_def f psd_open_def)
  ultimately show ?thesis using atomic_psd_step.opens by metis
qed

lemma view_close:
  assumes "phases s i = Outside" "file_at (files s) i = Some f"
    and s': "s' = s\<lparr>files := (files s)[i := None], history := history s @ [Closed i (0, [])]\<rparr>"
  shows "atomic_psd_step (atomic_psd_view s) (atomic_psd_view s')"
proof -
  let ?V = "atomic_psd_view s"
  have "view_dev s' = view_dev s"
    using assms by (intro view_dev_same) auto
  moreover have "view_files s' = (view_files s)[i := None]"
    using assms file_at_Some [OF assms(2)] by (intro files_eqI) auto
  moreover have "(\<lambda>j. view_status (dev s') (file_at (files s') j) (phases s' j)) = status ?V"
    using assms by (auto simp: atomic_psd_view_def fun_eq_iff)
  ultimately have "atomic_psd_view s' = ?V\<lparr>world := (view_dev s, (view_files s)[i := None]), seen := seen ?V @ [Closed i (0, [])]\<rparr>"
    using s' by (simp add: atomic_psd_view_def)
  moreover have "status ?V i = Quiet" using assms(1) by (simp add: atomic_psd_view_def)
  moreover have "psd_syscall (world ?V) (Close i) = Ret ((0, []), view_dev s, (view_files s)[i := None])"
    unfolding atomic_psd_view_def atomic_psd.simps syscall_on using assms(2) by simp
  ultimately show ?thesis using atomic_psd_step.closes by metis
qed

lemma view_not_open:
  assumes "phases s i = Outside" "file_at (files s) i = None"
    and s': "s' = s\<lparr>history := history s @ [Closed i (neg EBADF, [])]\<rparr>"
  shows "atomic_psd_step (atomic_psd_view s) (atomic_psd_view s')"
proof -
  let ?V = "atomic_psd_view s"
  have "view_dev s' = view_dev s" using s' by (intro view_dev_same) auto
  moreover have "view_files s' = view_files s" using s' by (intro files_eqI) auto
  ultimately have "atomic_psd_view s' = ?V\<lparr>world := (view_dev s, view_files s), seen := seen ?V @ [Closed i (neg EBADF, [])]\<rparr>"
    using s' by (simp add: atomic_psd_view_def)
  moreover have "status ?V i = Quiet" using assms(1) by (simp add: atomic_psd_view_def)
  moreover have "psd_syscall (world ?V) (Close i) = Ret ((neg EBADF, []), view_dev s, view_files s)"
    unfolding atomic_psd_view_def atomic_psd.simps syscall_on using assms(2) by simp
  ultimately show ?thesis using atomic_psd_step.closes by metis
qed

lemma view_return:
  assumes "phases s i = Returned c r" "file_at (files s) i = Some f"
    and s': "s' = s\<lparr>files := (files s)[i := Some (f\<lparr>f_pos := new_pos r\<rparr>)], phases := (phases s)(i := Outside),
         history := history s @ [Answered i c (reply r, user_out r)]\<rparr>"
  shows "atomic_psd_step (atomic_psd_view s) (atomic_psd_view s')"
proof -
  let ?V = "atomic_psd_view s"
  have "view_dev s' = view_dev s"
    using assms by (intro view_dev_same) auto
  moreover have "view_files s' = view_files s"
    using assms file_at_Some [OF assms(2)] by (intro files_eqI) auto
  moreover have "(\<lambda>j. view_status (dev s') (file_at (files s') j) (phases s' j)) = (status ?V)(i := Quiet)"
    using assms by (auto simp: atomic_psd_view_def fun_eq_iff)
  ultimately have "atomic_psd_view s' = ?V\<lparr>status := (status ?V)(i := Quiet),
      seen := seen ?V @ [Answered i c (reply r, user_out r)]\<rparr>"
    using s' by (simp add: atomic_psd_view_def)
  moreover have "status ?V i = Answering c (reply r, user_out r)"
    using assms(1) by (simp add: atomic_psd_view_def)
  ultimately show ?thesis using atomic_psd_step.answers by simp
qed

interpretation psd_atomic: stuttering psd_step psd_start atomic_psd_step atomic_psd_view
proof
  fix s s'
  assume reach: "psd_reach s" and step: "psd_step s s'"
  note inv = psd_reach_inv [OF reach]
  from step show "atomic_psd_step (atomic_psd_view s) (atomic_psd_view s') \<or> atomic_psd_view s' = atomic_psd_view s"
  proof (cases rule: psd_step_cases)
    case (run i f ph d own)
    then show ?thesis using view_run [OF run inv] psd_lock.inside_holds [OF reach] by blast
  next
    case (die i f e)
    then show ?thesis using advance_no_fault psd_sys_invD(6,7) [OF inv] by blast
  next
    case (opened f)
    from view_open [OF inv opened] show ?thesis by (rule disjI1)
  next
    case (closed i)
    then obtain f where "file_at (files s) i = Some f" by blast
    from view_close [OF closed(1) this closed(3)] show ?thesis by (rule disjI1)
  next
    case (not_open i)
    from view_not_open [OF not_open] show ?thesis by (rule disjI1)
  next
    case (invoke i c)
    then obtain f where "file_at (files s) i = Some f" by blast
    from view_invoke [OF invoke(1) this invoke(3,4)] show ?thesis by (rule disjI1)
  next
    case (return i f c r)
    from view_return [OF return(2,1,3)] show ?thesis by (rule disjI1)
  qed
qed

text \<open>With nobody in the driver the view is the driver's own state.\<close>

lemma view_quiet:
  assumes "\<forall>i. phases s i = Outside"
  shows "world (atomic_psd_view s) = (dev s, files s)"
proof -
  have "view_dev s = dev s" using assms by (simp add: view_dev_def split: option.split)
  moreover have "view_files s = files s"
  proof (rule files_eqI)
    fix i show "file_at (view_files s) i = file_at (files s) i"
      using assms by (cases "file_at (files s) i") simp_all
  qed simp
  ultimately show ?thesis by (simp add: atomic_psd_view_def)
qed

section \<open>The order of the calls\<close>

text \<open>
  A log of calls and answers in the order in which they take effect. It is a session of the
  uninterrupted device, and in it every process finds its own calls with the answers it got;
  calls that a signal ended have no effect and are left out.
\<close>

type_synonym psd_log = "(user_call \<times> psd_answer) list"

fun of_process :: "nat \<Rightarrow> psd_log \<Rightarrow> (psd_call \<times> psd_answer) list" where
  "of_process i [] = []"
| "of_process i ((On j c, a) # l) = (if i = j \<and> fst a \<noteq> neg EINTR then [(c, a)] else []) @ of_process i l"
| "of_process i (_ # l) = of_process i l"

fun answered_to :: "nat \<Rightarrow> psd_event list \<Rightarrow> (psd_call \<times> psd_answer) list" where
  "answered_to i [] = []"
| "answered_to i (Answered j c a # h) = (if i = j \<and> fst a \<noteq> neg EINTR then [(c, a)] else []) @ answered_to i h"
| "answered_to i (_ # h) = answered_to i h"

fun due :: "psd_status \<Rightarrow> (psd_call \<times> psd_answer) list" where
  "due (Answering c a) = (if fst a \<noteq> neg EINTR then [(c, a)] else [])"
| "due _ = []"

definition explains :: "psd_log \<Rightarrow> atomic_psd \<Rightarrow> bool" where
  "explains l A \<longleftrightarrow> session psd_syscall (psd_initial, []) (map fst l) = Ret (map snd l, world A) \<and>
     list_all legal_syscall (map fst l) \<and> (\<forall>i c. status A i = Pending c \<longrightarrow> legal_call c) \<and>
     (\<forall>i. of_process i l = answered_to i (seen A) @ due (status A i))"

lemma of_process_append [simp]: "of_process i (l @ m) = of_process i l @ of_process i m"
  by (induction i l rule: of_process.induct) simp_all

lemma answered_to_append [simp]: "answered_to i (h @ g) = answered_to i h @ answered_to i g"
  by (induction i h rule: answered_to.induct) simp_all

lemma explains_step:
  assumes "atomic_psd_step A B" "explains l A"
  shows "\<exists>more. explains (l @ more) B"
  using assms(1)
proof (cases rule: atomic_psd_step.cases)
  case (opens a w)
  then show ?thesis
    using assms(2) session_snoc [of psd_syscall _ "map fst l" "map snd l" "world A" Open a w]
    by (intro exI [of _ "[(Open, a)]"]) (simp add: explains_def)
next
  case (closes i a w)
  then show ?thesis
    using assms(2) session_snoc [of psd_syscall _ "map fst l" "map snd l" "world A" "Close i" a w]
    by (intro exI [of _ "[(Close i, a)]"]) (simp add: explains_def)
next
  case (performs i c a w)
  then show ?thesis
    using assms(2) session_snoc [of psd_syscall _ "map fst l" "map snd l" "world A" "On i c" a w]
    by (intro exI [of _ "[(On i c, a)]"]) (auto simp: explains_def)
qed (use assms(2) in \<open>auto simp: explains_def intro!: exI [of _ "[]"]\<close>)

lemma explains_steps: "atomic_psd_step\<^sup>*\<^sup>* A B \<Longrightarrow> explains l A \<Longrightarrow> \<exists>more. explains (l @ more) B"
proof (induction rule: rtranclp_induct)
  case base
  then show ?case by (intro exI [of _ "[]"]) simp
next
  case (step B C)
  then obtain m where "explains (l @ m) B" by blast
  from explains_step [OF step.hyps(2) this] obtain k where "explains (l @ m @ k) C" by auto
  then show ?case by blast
qed

lemma explains_start: "explains [] (atomic_psd_view psd_start)"
  by (simp add: explains_def atomic_psd_view_def psd_start_def view_dev_def view_files_def)

text \<open>
  Where the uninterrupted device answers without finding the memory full, the abstract memory
  gives the same answers.
\<close>

lemma memory_answers:
  assumes "world_inv w" "legal_syscall c" "psd_syscall w c = Ret (r, w')" "fst r \<noteq> neg ENOMEM"
  shows "memory_spec (world_memory w) c = Some (r, world_memory w') \<and> world_inv w'"
proof -
  obtain s fs where w: "w = (s, fs)" by (cases w)
  have "memory_spec (world_memory w) c \<noteq> None"
  proof (cases c)
    case (On i d)
    show ?thesis
    proof (cases "file_at fs i")
      case None
      then show ?thesis by (simp add: On w world_cursor file_at_def split: if_splits)
    next
      case (Some f)
      note f = file_at_Some [OF Some]
      note inv = world_file [OF assms(1) [unfolded w], of i f]
      have "memory_op (buffer (prv_data s)) (f_pos f) d \<noteq> None"
      proof (cases d)
        case (Write sg left user count)
        have "psd_write s f (f_pos f) sg left user count \<noteq> Ret (\<lparr>reply = neg ENOMEM, new_pos = f_pos f, user_out = []\<rparr>, s\<lparr>psd_mutex := True\<rparr>)"
          using assms(3,4) f by (auto simp: On w Write)
        moreover have "length (buffer (prv_data s)) = 512" using inv f by (simp add: psd_inv_def)
        ultimately show ?thesis
          using psd_write_eq [OF inv(1) inv(2) _ _ refl, of count left sg user] assms(2) f
          by (auto simp: On Write Let_def split: if_splits)
      qed (auto simp: case_prod_beta Let_def)
      then show ?thesis using f by (auto simp: On w world_cursor)
    qed
  qed (auto simp: split: option.splits)
  then obtain r0 a0 where spec: "memory_spec (world_memory w) c = Some (r0, a0)" by auto
  from psd_device.simulates [OF assms(1,2) this] assms(3) show ?thesis using spec by auto
qed

lemma memory_session:
  assumes "world_inv w" "list_all legal_syscall cs" "session psd_syscall w cs = Ret (rs, w')"
    "\<And>r. r \<in> set rs \<Longrightarrow> fst r \<noteq> neg ENOMEM"
  shows "spec_session memory_spec (world_memory w) cs = Some (rs, world_memory w')"
  using assms
proof (induction cs arbitrary: w rs)
  case (Cons c cs)
  then obtain r w1 rs1 where one: "psd_syscall w c = Ret (r, w1)" and
      rest: "session psd_syscall w1 cs = Ret (rs1, w')" "rs = r # rs1"
    by (auto simp: obind_Ret_iff split: prod.splits)
  have "memory_spec (world_memory w) c = Some (r, world_memory w1) \<and> world_inv w1"
    using memory_answers [OF Cons.prems(1) _ one] Cons.prems(2,4) rest(2) by simp
  then show ?case
    using Cons.IH [OF _ _ rest(1)] Cons.prems(2,4) rest(2) by simp
qed simp

lemma of_process_mem: "(On i c, a) \<in> set l \<Longrightarrow> fst a \<noteq> neg EINTR \<Longrightarrow> (c, a) \<in> set (of_process i l)"
  by (induction i l rule: of_process.induct) auto

lemma answered_to_mem: "(c, a) \<in> set (answered_to i h) \<Longrightarrow> Answered i c a \<in> set h"
  by (induction i h rule: answered_to.induct) (auto split: if_splits)

text \<open>An answer to open or close is never an error of the driver.\<close>

lemma session_members:
  "session psd_syscall w cs = Ret (rs, w') \<Longrightarrow> (c, r) \<in> set (zip cs rs) \<Longrightarrow> c = Open \<or> c = Close i \<Longrightarrow> fst r \<noteq> neg ENOMEM"
proof (induction cs arbitrary: w rs)
  case (Cons d cs)
  then obtain r1 w1 rs1 where one: "psd_syscall w d = Ret (r1, w1)" and
      rest: "session psd_syscall w1 cs = Ret (rs1, w')" "rs = r1 # rs1"
    by (auto simp: obind_Ret_iff split: prod.splits)
  show ?case
  proof (cases "(c, r) = (d, r1)")
    case True
    obtain s fs where "w = (s, fs)" by (cases w)
    then show ?thesis
      using one True Cons.prems(3) by (auto simp: psd_open_def psd_release_def neg_def EBADF_def split: if_splits option.splits)
  next
    case False
    then show ?thesis using Cons.IH [OF rest(1) _ Cons.prems(3)] Cons.prems(2) rest(2) by auto
  qed
qed simp

section \<open>The mutex that is never given back\<close>

text \<open>The owner of the mutex has left the driver.\<close>

definition leaked :: "psd_system \<Rightarrow> bool" where
  "leaked s \<longleftrightarrow> (\<exists>i. mutex_owner s = Some i \<and> section_call (phases s i) = None)"

definition told_full :: "psd_system \<Rightarrow> bool" where
  "told_full s \<longleftrightarrow> (\<exists>i c out. Answered i c (neg ENOMEM, out) \<in> set (history s)) \<or>
     (\<exists>i c r. phases s i = Returned c r \<and> reply r = neg ENOMEM)"

text \<open>A process waits for the mutex and no signal will end the wait.\<close>

fun stuck :: "psd_phase \<Rightarrow> bool" where
  "stuck (Called c) = (locking c \<and> \<not> call_signal c)"
| "stuck _ = False"

lemma owner_alone:
  assumes "\<And>j. in_section j s \<Longrightarrow> holder s = Some j" "mutex_owner s = Some i" "section_call (phases s i) = None"
  shows "section_call (phases s j) = None"
  using assms(1) [of j] assms(2,3)
  by (cases "section_call (phases s j)") (auto simp: in_section_def holder_def split: if_splits)

lemma answers_not_full:
  assumes "psd_inv (d, f)" "phase_ok d f (Unlocking c r)"
  shows "reply r \<noteq> neg ENOMEM"
  using psd_fops_mutex [of "(d\<lparr>psd_mutex := False\<rparr>, f)" c "(reply r, user_out r)"] assms
  by (auto simp: promised_def inv_unlocked)

lemma seek_not_full: "0 \<le> p \<Longrightarrow> p \<le> 512 \<Longrightarrow> fst (seek_spec 511 p off wh) \<noteq> neg ENOMEM"
  using seek_spec_cases [of 511 p off wh] by (auto simp: neg_def)

lemma leaked_step:
  assumes step: "psd_step s s'" and inv: "psd_sys_inv s" and hold: "\<And>j. in_section j s \<Longrightarrow> holder s = Some j"
    and leak: "leaked s"
  shows "leaked s' \<and> prv_data (dev s') = prv_data (dev s) \<and> (stuck (phases s i) \<longrightarrow> phases s' i = phases s i)"
proof -
  obtain o' where o': "mutex_owner s = Some o'" "section_call (phases s o') = None"
    using leak by (auto simp: leaked_def)
  have none: "section_call (phases s j) = None" for j using owner_alone [OF hold o'] .
  note D = psd_sys_invD [OF inv]
  from step show ?thesis
  proof (cases rule: psd_step_cases)
    case (run j f ph d own)
    have eff: "prv_data d = prv_data (dev s)"
      using advance_effect [OF run(2) D(6) [OF run(1)] D(7) [OF run(1)] D(4)] none by simp
    have "own = mutex_owner s \<and> section_call ph = None \<and> \<not> stuck (phases s j)"
      using run(2) D(6) [OF run(1)] D(7) [OF run(1)] D(4)
      by (cases rule: advance_cases) (use o' none [of j] in auto)
    then show ?thesis using run(3) o' eff by (auto simp: leaked_def)
  qed (use o' in \<open>auto simp: leaked_def\<close>)
qed

lemma leaked_steps:
  assumes "psd_reach s" "leaked s" "psd_step\<^sup>*\<^sup>* s s'"
  shows "leaked s' \<and> prv_data (dev s') = prv_data (dev s) \<and> (stuck (phases s i) \<longrightarrow> phases s' i = phases s i)"
  using assms(3)
proof (induction rule: rtranclp_induct)
  case (step t t')
  have reach: "psd_reach t" using assms(1) step.hyps(1) by simp
  show ?case
    using leaked_step [OF step.hyps(2) psd_reach_inv [OF reach] psd_lock.inside_holds [OF reach], of i] step.IH by auto
qed (use assms(2) in simp)

text \<open>The mutex is lost exactly when some write has been told that the memory is full.\<close>

lemma told_full_run:
  assumes "\<And>j c r. ph = Returned c r \<Longrightarrow> reply r \<noteq> neg ENOMEM" "\<And>c r. phases s i = Returned c r \<Longrightarrow> reply r \<noteq> neg ENOMEM"
  shows "told_full (s\<lparr>dev := d, mutex_owner := own, phases := (phases s)(i := ph)\<rparr>) = told_full s"
  using assms unfolding told_full_def by (simp add: fun_upd_def) metis

lemma leaked_run:
  assumes "own = mutex_owner s" "section_call ph = None \<longleftrightarrow> section_call (phases s i) = None"
  shows "leaked (s\<lparr>dev := d, mutex_owner := own, phases := (phases s)(i := ph)\<rparr>) = leaked s"
  using assms by (simp add: leaked_def fun_upd_def) metis

lemma leaked_iff_told_full: "psd_reach s \<Longrightarrow> leaked s = told_full s"
proof (induction rule: rtranclp_induct)
  case base
  then show ?case by (simp add: leaked_def told_full_def psd_start_def)
next
  case (step s s')
  note inv = psd_reach_inv [OF step.hyps(1)] and hold = psd_lock.inside_holds [OF step.hyps(1)]
  note D = psd_sys_invD [OF inv]
  from step.hyps(2) show ?case
  proof (cases rule: psd_step_cases)
    case (run i f ph d own)
    from run(2) D(6) [OF run(1)] D(7) [OF run(1)] D(4) show ?thesis
    proof (cases rule: advance_cases)
      case (seek off wh)
      have "fst (seek_spec 511 (f_pos f) off wh) \<noteq> neg ENOMEM"
        using D(6) [OF run(1)] seek_not_full by (simp add: psd_inv_def)
      then have "told_full s' = told_full s"
        unfolding run(3) using seek by (intro told_full_run) auto
      moreover have "leaked s' = leaked s" unfolding run(3) using seek by (intro leaked_run) auto
      ultimately show ?thesis using step.IH by simp
    next
      case (signal c)
      have "told_full s' = told_full s"
        unfolding run(3) using signal by (intro told_full_run) (auto simp: neg_def)
      moreover have "leaked s' = leaked s" unfolding run(3) using signal by (intro leaked_run) auto
      ultimately show ?thesis using step.IH by simp
    next
      case (lock c)
      have "told_full s' = told_full s"
        unfolding run(3) using lock by (intro told_full_run) auto
      then show ?thesis using lock run(3) step.IH by (auto simp: leaked_def)
    next
      case (full sg left user count)
      have "mutex_owner s = Some i" using hold [of i] full(1) by (auto simp: in_section_def holder_def split: if_splits)
      then show ?thesis using full run(3) by (auto simp: leaked_def told_full_def)
    next
      case (unlock c r)
      have own: "mutex_owner s = Some i" using hold [of i] unlock(1) by (auto simp: in_section_def holder_def split: if_splits)
      have "reply r \<noteq> neg ENOMEM" using answers_not_full D(6,7) [OF run(1)] unlock(1) by metis
      then have "told_full s' = told_full s"
        unfolding run(3) using unlock by (intro told_full_run) auto
      then show ?thesis using unlock run(3) step.IH own by (auto simp: leaked_def)
    next
      case (adjust c n)
      have "told_full s' = told_full s" unfolding run(3) using adjust by (intro told_full_run) auto
      moreover have "leaked s' = leaked s" unfolding run(3) using adjust by (intro leaked_run) auto
      ultimately show ?thesis using step.IH by simp
    next
      case (load c n k out out')
      have "told_full s' = told_full s" unfolding run(3) using load by (intro told_full_run) auto
      moreover have "leaked s' = leaked s" unfolding run(3) using load by (intro leaked_run) auto
      ultimately show ?thesis using step.IH by simp
    next
      case (store sg left user count n k)
      have "told_full s' = told_full s" unfolding run(3) using store by (intro told_full_run) auto
      moreover have "leaked s' = leaked s" unfolding run(3) using store by (intro leaked_run) auto
      ultimately show ?thesis using step.IH by simp
    next
      case (copied c n k out r)
      have "told_full s' = told_full s" unfolding run(3) using copied by (intro told_full_run) auto
      moreover have "leaked s' = leaked s" unfolding run(3) using copied by (intro leaked_run) auto
      ultimately show ?thesis using step.IH by simp
    qed
  next
    case (die i f e)
    then show ?thesis using advance_no_fault D(6,7) by blast
  next
    case (invoke i c)
    have none: "phases s i \<noteq> Returned d r" for d r using invoke(1) by simp
    have "(\<exists>j d r. phases s' j = Returned d r \<and> reply r = neg ENOMEM) \<longleftrightarrow>
        (\<exists>j d r. phases s j = Returned d r \<and> reply r = neg ENOMEM)"
      using none invoke(4) by (simp add: fun_upd_def) metis
    then have "told_full s' = told_full s" "leaked s' = leaked s"
      using invoke by (auto simp: told_full_def leaked_def split: if_splits)
    then show ?thesis using step.IH by simp
  next
    case (return i f c r)
    have "told_full s' \<longleftrightarrow> told_full s"
    proof
      assume "told_full s'"
      then show "told_full s"
        using return unfolding told_full_def by (fastforce split: if_splits)
    next
      assume "told_full s"
      then consider (answered) j d out where "Answered j d (neg ENOMEM, out) \<in> set (history s)"
        | (here) "reply r = neg ENOMEM"
        | (there) j d q where "j \<noteq> i" "phases s j = Returned d q" "reply q = neg ENOMEM"
        using return(2) unfolding told_full_def by (metis psd_phase.inject(5))
      then show "told_full s'"
      proof cases
        case there
        then have "phases s' j = Returned d q" using return(3) by simp
        then show ?thesis using there(3) unfolding told_full_def by blast
      qed (use return(3) in \<open>auto simp: told_full_def\<close>)
    qed
    moreover have "leaked s' = leaked s"
      using return by (auto simp: leaked_def split: if_splits)
    ultimately show ?thesis using step.IH by simp
  qed (use step.IH in \<open>auto simp: told_full_def leaked_def\<close>)
qed

section \<open>Calls finish\<close>

text \<open>A step of a call that has been invoked; no new calls.\<close>

inductive psd_drive :: "psd_system \<Rightarrow> psd_system \<Rightarrow> bool" where
  go: "psd_fire (Go i) s = Some s' \<Longrightarrow> psd_drive s s'"
| ret: "psd_fire (Return i) s = Some s' \<Longrightarrow> psd_drive s s'"

fun phase_work :: "psd_phase \<Rightarrow> nat" where
  "phase_work Outside = 0"
| "phase_work (Returned c r) = 1"
| "phase_work (Unlocking c r) = 2"
| "phase_work (Copying c n k out) = 3 + (512 - k)"
| "phase_work (Has_lock c) = 516"
| "phase_work (Called c) = 517"

definition work_left :: "psd_system \<Rightarrow> nat" where
  "work_left s = (\<Sum>i<length (files s). phase_work (phases s i))"

lemma work_less:
  fixes n :: nat
  assumes "i < n" "phase_work ph < phase_work (phs i)"
  shows "(\<Sum>j<n. phase_work ((phs(i := ph)) j)) < (\<Sum>j<n. phase_work (phs j))"
proof (rule sum_strict_mono_ex1)
  show "\<forall>j\<in>{..<n}. phase_work ((phs(i := ph)) j) \<le> phase_work (phs j)"
    using assms(2) by simp
  show "\<exists>j\<in>{..<n}. phase_work ((phs(i := ph)) j) < phase_work (phs j)"
    using assms by (intro bexI [of _ i]) simp_all
qed simp

lemma copy_bound:
  assumes inv: "psd_inv (d, f)" and legal: "legal_call c" and copy: "copy_ok d f n k out c"
  shows "k \<le> 512 \<and> n \<le> 512"
proof (cases c)
  case (Read sg left count)
  have n: "n = min count (512 - f_pos f)" and k: "int k \<le> n - left n"
    using copy unfolding Read copy_ok.simps by blast+
  show ?thesis using legal_count(2,3,5) [OF inv _ _ n, of left] legal k by (simp add: Read)
next
  case (Write sg left user count)
  have n: "n = min count (512 - f_pos f)" and k: "int k \<le> n"
    using copy unfolding Write copy_ok.simps by blast+
  show ?thesis using legal_count(2,5) [OF inv _ _ n, of left] legal k by (simp add: Write)
qed (use copy in simp)

lemma advance_work:
  assumes adv: "advance i f (d, own) ph = Ret (ph', d', own')"
    and inv: "psd_inv (d, f)" and ok: "phase_ok d f ph" and held: "psd_mutex d \<longleftrightarrow> own \<noteq> None"
  shows "phase_work ph' < phase_work ph"
  using adv inv ok held
proof (cases rule: advance_cases)
  case (load c n k out out')
  have "Suc k \<le> 512" using copy_bound [OF inv _ load(3)] ok load(1) by simp
  then show ?thesis using load by simp
next
  case (store sg left user count n k)
  have "n \<le> 512" using copy_bound [OF inv] ok unfolding store(1) phase_ok.simps by blast
  then show ?thesis using store by simp
qed simp_all

lemma advance_moves:
  assumes "psd_inv (d, f)" "phase_ok d f ph" "ph \<noteq> Outside" "\<And>c r. ph \<noteq> Returned c r"
    and "psd_mutex d \<Longrightarrow> \<not> stuck ph"
  shows "advance i f (d, own) ph \<noteq> Blocked"
proof (cases ph)
  case (Called c)
  then show ?thesis using assms
    by (cases c) (auto simp: psd_llseek_def psd_inv_def case_prod_beta mutex_lock_interruptible_def)
next
  case (Has_lock c)
  then show ?thesis using assms by (cases c) (auto simp: psd_inv_def Let_def)
next
  case (Copying c n k out)
  then show ?thesis using assms by (cases c) (auto simp: Let_def)
qed (use assms in simp_all)

lemma drive_step: "psd_drive s s' \<Longrightarrow> crash s = None \<Longrightarrow> psd_step s s'"
  by (cases rule: psd_drive.cases) (auto intro: psd_step.fire [of _ "Go _"] psd_step.fire [of _ "Return _"])

lemma drive_decreases:
  assumes "psd_sys_inv s" "psd_drive s s'"
  shows "work_left s' < work_left s"
  using assms(2)
proof (cases rule: psd_drive.cases)
  case (go i)
  then obtain f where f: "file_at (files s) i = Some f" by (auto split: option.splits)
  note D = psd_sys_invD [OF assms(1)]
  obtain ph d own where adv: "advance i f (dev s, mutex_owner s) (phases s i) = Ret (ph, d, own)"
    using go f advance_no_fault [OF D(6) [OF f] D(7) [OF f]] by (auto split: outcome.splits)
  then have "s' = s\<lparr>dev := d, mutex_owner := own, phases := (phases s)(i := ph)\<rparr>" using go f by simp
  then show ?thesis
    using work_less [of i "length (files s)" ph "phases s"] file_at_Some [OF f]
      advance_work [OF adv D(6) [OF f] D(7) [OF f] D(4)]
    by (simp add: work_left_def)
next
  case (ret i)
  then show ?thesis
    using file_at_Some [of "files s" i] work_less [of i "length (files s)" Outside "phases s"]
    by (auto simp: work_left_def split: option.splits psd_phase.splits)
qed

lemma drive_stops:
  assumes reach: "psd_reach s" and stop: "\<And>s'. \<not> psd_drive s s'" and at: "phases s i \<noteq> Outside"
  shows "stuck (phases s i) \<and> leaked s"
proof -
  note inv = psd_reach_inv [OF reach]
  note D = psd_sys_invD [OF inv]
  have rest: "psd_mutex (dev s) \<and> stuck (phases s j)" if j: "phases s j \<noteq> Outside" for j
  proof -
    obtain f where f: "file_at (files s) j = Some f"
      using D(5) [of j] j by (cases "file_at (files s) j") auto
    have no_return: "phases s j \<noteq> Returned c r" for c r
    proof
      assume "phases s j = Returned c r"
      then have "psd_fire (Return j) s \<noteq> None" using f by simp
      then show False using stop psd_drive.ret by blast
    qed
    have "advance j f (dev s, mutex_owner s) (phases s j) = Blocked"
    proof (cases "advance j f (dev s, mutex_owner s) (phases s j)")
      case (Ret x)
      then have "psd_fire (Go j) s \<noteq> None" using f by (auto split: prod.split)
      then show ?thesis using stop psd_drive.go by blast
    next
      case (Fault e)
      then show ?thesis using advance_no_fault [OF D(6) [OF f] D(7) [OF f]] by blast
    qed
    then show ?thesis using advance_moves [OF D(6) [OF f] D(7) [OF f] j no_return] by blast
  qed
  have "section_call (phases s j) = None" for j
    using rest [of j] by (cases "phases s j") auto
  then show ?thesis using rest [OF at] D(4) by (auto simp: leaked_def)
qed

section \<open>Concrete runs\<close>

fun psd_fires :: "psd_action list \<Rightarrow> psd_system \<Rightarrow> psd_system option" where
  "psd_fires [] s = Some s"
| "psd_fires (a # as) s = (case psd_fire a s of None \<Rightarrow> None | Some s' \<Rightarrow> psd_fires as s')"

lemma psd_fires_steps:
  "psd_fires as s = Some s' \<Longrightarrow> list_all legal_action as \<Longrightarrow> psd_reach s \<Longrightarrow> psd_step\<^sup>*\<^sup>* s s'"
proof (induction as arbitrary: s)
  case (Cons a as)
  then obtain s1 where s1: "psd_fire a s = Some s1" "psd_fires as s1 = Some s'"
    by (auto split: option.splits)
  have "psd_step s s1"
    using psd_step.fire [OF _ _ s1(1)] Cons.prems psd_sys_invD(1) [OF psd_reach_inv] by simp
  moreover have "psd_step\<^sup>*\<^sup>* s1 s'"
    using Cons.IH [OF s1(2)] Cons.prems rtranclp.rtrancl_into_rtrancl [OF Cons.prems(3) \<open>psd_step s s1\<close>] by simp
  ultimately show ?case by (rule converse_rtranclp_into_rtranclp)
qed simp

text \<open>One process writes a byte while another waits to read it.\<close>

definition write_while_read :: "psd_action list" where
  "write_while_read = [Open_file, Open_file, Invoke 0 (Write False (\<lambda>n. 0) [7] 1), Go 0, Invoke 1 (Read False (\<lambda>n. 0) 1),
     Go 0, Go 0, Go 0, Go 0, Go 1, Go 1, Go 1, Go 1, Go 1, Return 1, Return 0]"

lemma adjust_one: "psd_adjust 512 0 1 = 1"
  by (simp add: psd_adjust_eq is_size_t_def)

lemma write_while_read_run:
  "\<exists>s. psd_fires write_while_read psd_start = Some s \<and> (\<forall>i. phases s i = Outside) \<and>
     Answered 1 (Read False (\<lambda>n. 0) 1) (1, [7]) \<in> set (history s) \<and>
     (\<forall>i c out. Answered i c (neg ENOMEM, out) \<notin> set (history s))"
  by (simp add: write_while_read_def psd_start_def psd_initial_def psd_open_def file_at_def Let_def DEV_MEM_SIZE_def
      adjust_one in_bounds_def c_simps neg_def from_user_def)

lemma write_while_read_legal: "list_all legal_action write_while_read"
  by (simp add: write_while_read_def is_size_t_def is_copy_answer_def)

definition empty_write :: "psd_action list" where
  \<comment> \<open>a write of nothing, then a reader\<close>
  "empty_write = [Open_file, Open_file, Invoke 0 (Write False (\<lambda>n. 0) [] 0), Go 0, Go 0, Return 0,
     Invoke 1 (Read False (\<lambda>n. 0) 1)]"

lemma empty_write_run:
  "\<exists>s. psd_fires empty_write psd_start = Some s \<and> stuck (phases s 1) \<and> told_full s"
proof -
  have "psd_adjust 512 0 0 = 0" by (simp add: psd_adjust_eq is_size_t_def)
  then show ?thesis
    by (auto simp: empty_write_def psd_start_def psd_initial_def psd_open_def file_at_def Let_def DEV_MEM_SIZE_def told_full_def)
qed

lemma empty_write_legal: "list_all legal_action empty_write"
  by (simp add: empty_write_def is_size_t_def is_copy_answer_def)

section \<open>Properties\<close>

text \<open>
  C1: The driver is linearizable. However the steps of the processes interleave, byte copies
  included, there is an order of their calls in which the uninterrupted driver, doing one call
  after the other, gives every process the answers it got; calls that a signal ended are in no
  order, they have no effect. The order only grows: an order that explains what has happened so
  far extends to one that explains what happens later, so a call that has returned stays before
  a call that starts afterwards. When no call is running the device is in the state that the
  order leads to.
\<close>

theorem psd_linearizable:
  assumes "psd_reach s" "explains l (atomic_psd_view s)" "psd_step\<^sup>*\<^sup>* s s'"
  shows "\<exists>more. explains (l @ more) (atomic_psd_view s') \<and> seen (atomic_psd_view s') = history s' \<and>
    ((\<forall>i. phases s' i = Outside) \<longrightarrow> world (atomic_psd_view s') = (dev s', files s'))"
proof -
  have "atomic_psd_step\<^sup>*\<^sup>* (atomic_psd_view s) (atomic_psd_view s')"
    using psd_atomic.executions_from [OF assms(1,3)] .
  from explains_steps [OF this assms(2)] obtain more where "explains (l @ more) (atomic_psd_view s')" by blast
  then show ?thesis using view_quiet [of s'] by (auto simp: atomic_psd_view_def)
qed

lemma psd_linearizable_witness:
  "\<exists>s more. psd_fires write_while_read psd_start = Some s \<and> explains more (atomic_psd_view s) \<and>
     world (atomic_psd_view s) = (dev s, files s)"
proof -
  obtain s where s: "psd_fires write_while_read psd_start = Some s" "\<forall>i. phases s i = Outside"
    using write_while_read_run by blast
  have "psd_step\<^sup>*\<^sup>* psd_start s" using psd_fires_steps [OF s(1) write_while_read_legal] by simp
  from psd_linearizable [OF _ explains_start this] s show ?thesis by auto
qed

text \<open>
  C2: As long as no process has been told that the memory is full, the processes cannot tell the
  device from an abstract memory of 512 bytes with a cursor per open file, on which one call is
  executed after the other: some order of their calls is a session of that memory with exactly
  the answers they got, and when no call is running the buffer holds its bytes and the open files
  its cursors.
\<close>

theorem psd_concurrent_memory:
  assumes "psd_reach s" "\<forall>i. phases s i = Outside"
    and "\<forall>i c out. Answered i c (neg ENOMEM, out) \<notin> set (history s)"
  shows "\<exists>l. spec_session memory_spec \<lparr>cells = replicate 512 0, cursors = []\<rparr> (map fst l) =
      Some (map snd l, world_memory (dev s, files s)) \<and>
    (\<forall>i. of_process i l = answered_to i (history s))"
proof -
  have "atomic_psd_step\<^sup>*\<^sup>* (atomic_psd_view psd_start) (atomic_psd_view s)"
    using psd_atomic.executions [OF assms(1)] .
  from explains_steps [OF this explains_start] obtain l where l: "explains l (atomic_psd_view s)" by auto
  then have run: "session psd_syscall (psd_initial, []) (map fst l) = Ret (map snd l, (dev s, files s))"
    and legal: "list_all legal_syscall (map fst l)"
    and own: "\<forall>i. of_process i l = answered_to i (history s)"
    using view_quiet [OF assms(2)] assms(2) by (simp_all add: explains_def atomic_psd_view_def)
  have "fst r \<noteq> neg ENOMEM" if r: "r \<in> set (map snd l)" for r
  proof -
    obtain c where c: "(c, r) \<in> set l" using r by auto
    show ?thesis
    proof (cases c)
      case (On i d)
      show ?thesis
      proof
        assume full: "fst r = neg ENOMEM"
        then have "(d, r) \<in> set (answered_to i (history s))"
          using of_process_mem [of i d r l] c On own by (simp add: neg_def)
        then show False using answered_to_mem [of d r i] assms(3) full by (cases r) auto
      qed
    qed (use session_members [OF run, of c r] c in \<open>auto simp: zip_map_fst_snd\<close>)
  qed
  moreover have "world_inv (psd_initial, [])"
    by (simp add: world_inv_def psd_initial_def DEV_MEM_SIZE_def)
  ultimately have "spec_session memory_spec (world_memory (psd_initial, [])) (map fst l) =
      Some (map snd l, world_memory (dev s, files s))"
    using memory_session [OF _ legal run] by blast
  then show ?thesis using own by (auto simp: world_memory_def psd_initial_def)
qed

lemma psd_concurrent_memory_witness:
  "\<exists>s l. psd_fires write_while_read psd_start = Some s \<and>
     spec_session memory_spec \<lparr>cells = replicate 512 0, cursors = []\<rparr> (map fst l) =
       Some (map snd l, world_memory (dev s, files s)) \<and>
     of_process 1 l = answered_to 1 (history s)"
proof -
  obtain s where s: "psd_fires write_while_read psd_start = Some s" "\<forall>i. phases s i = Outside"
      "\<forall>i c out. Answered i c (neg ENOMEM, out) \<notin> set (history s)"
    using write_while_read_run by blast
  have "psd_reach s" using psd_fires_steps [OF s(1) write_while_read_legal] by simp
  from psd_concurrent_memory [OF this s(2,3)] s(1) show ?thesis by blast
qed

text \<open>
  C3: Whatever the processes do at the same time, no access leaves the buffer and no pointer is
  null, two processes are never in the locked region together, every position stays inside the
  memory, and the mutex is lost exactly when some write has been told that the memory is full.
\<close>

theorem psd_concurrent_safe:
  assumes "psd_reach s"
  shows "crash s = None \<and> (\<forall>i j. in_section i s \<longrightarrow> in_section j s \<longrightarrow> i = j) \<and>
    length (buffer (prv_data (dev s))) = 512 \<and>
    (\<forall>i f. file_at (files s) i = Some f \<longrightarrow> 0 \<le> f_pos f \<and> f_pos f \<le> 512) \<and>
    (leaked s \<longleftrightarrow> told_full s)"
  using psd_sys_invD [OF psd_reach_inv [OF assms]] psd_lock.exclusive [OF assms] leaked_iff_told_full [OF assms]
  by (auto simp: psd_inv_def)

lemma psd_concurrent_safe_witness:
  "\<exists>s. psd_fires (take 8 write_while_read) psd_start = Some s \<and> crash s = None \<and>
     (\<forall>j. in_section 0 s \<longrightarrow> in_section j s \<longrightarrow> j = 0)"
proof -
  have "\<exists>s. psd_fires (take 8 write_while_read) psd_start = Some s"
    by (simp add: write_while_read_def psd_start_def psd_initial_def psd_open_def file_at_def Let_def DEV_MEM_SIZE_def
        adjust_one in_bounds_def c_simps neg_def from_user_def)
  then obtain s where s: "psd_fires (take 8 write_while_read) psd_start = Some s" by blast
  have "list_all legal_action (take 8 write_while_read)"
    by (simp add: write_while_read_def is_size_t_def is_copy_answer_def)
  then have "psd_reach s" using psd_fires_steps [OF s] by simp
  then show ?thesis using psd_concurrent_safe s by blast
qed

text \<open>
  C4: Calls finish. Every step of a call in progress brings the calls in progress closer to their
  end, so without new calls they come to rest; and they come to rest only when every call has
  been answered, except that after a write has been told that the memory is full the processes
  which wait for the mutex and get no signal are never answered.
\<close>

theorem psd_calls_finish:
  assumes "psd_reach s"
  shows "(\<forall>s'. psd_drive s s' \<longrightarrow> psd_step s s' \<and> work_left s' < work_left s) \<and>
    ((\<forall>s'. \<not> psd_drive s s') \<longrightarrow> (\<forall>i. phases s i = Outside \<or> stuck (phases s i) \<and> told_full s))"
  using drive_decreases [OF psd_reach_inv [OF assms]] drive_stops [OF assms] leaked_iff_told_full [OF assms]
    drive_step psd_sys_invD(1) [OF psd_reach_inv [OF assms]]
  by blast

lemma psd_calls_finish_witness:
  "\<exists>s. psd_fires (take 3 write_while_read) psd_start = Some s \<and>
     (\<forall>s'. psd_drive s s' \<longrightarrow> work_left s' < work_left s)"
proof -
  have "\<exists>s. psd_fires (take 3 write_while_read) psd_start = Some s"
    by (simp add: write_while_read_def psd_start_def psd_open_def file_at_def)
  then obtain s where s: "psd_fires (take 3 write_while_read) psd_start = Some s" by blast
  have "list_all legal_action (take 3 write_while_read)"
    by (simp add: write_while_read_def is_size_t_def is_copy_answer_def)
  then have "psd_reach s" using psd_fires_steps [OF s] by simp
  then show ?thesis using psd_calls_finish s by blast
qed

text \<open>
  The loss of the mutex is for ever and for everybody: after a write that was told that the
  memory is full, whatever any process does (closing all files and opening them again included),
  no byte of the memory ever changes again, the mutex stays lost, and a reader or writer that
  waits without a signal is still waiting.
\<close>

theorem psd_leak_is_for_ever:
  assumes "psd_reach s" "told_full s" "psd_step\<^sup>*\<^sup>* s s'"
  shows "told_full s' \<and> psd_mutex (dev s') \<and> buffer (prv_data (dev s')) = buffer (prv_data (dev s)) \<and>
    (\<forall>i. stuck (phases s i) \<longrightarrow> phases s' i = phases s i)"
proof -
  have reach: "psd_reach s'" using assms(1,3) by simp
  have "leaked s" using leaked_iff_told_full assms(1,2) by blast
  then have "leaked s'" "prv_data (dev s') = prv_data (dev s)" "\<forall>i. stuck (phases s i) \<longrightarrow> phases s' i = phases s i"
    using leaked_steps [OF assms(1) _ assms(3)] by blast+
  then show ?thesis
    using leaked_iff_told_full [OF reach] psd_sys_invD(4) [OF psd_reach_inv [OF reach]] by (auto simp: leaked_def)
qed

lemma psd_leak_is_for_ever_witness:
  "\<exists>s. psd_fires empty_write psd_start = Some s \<and> stuck (phases s 1) \<and>
     (\<forall>s'. psd_step\<^sup>*\<^sup>* s s' \<longrightarrow> phases s' 1 = phases s 1)"
proof -
  obtain s where s: "psd_fires empty_write psd_start = Some s" "stuck (phases s 1)" "told_full s"
    using empty_write_run by blast
  have "psd_reach s" using psd_fires_steps [OF s(1) empty_write_legal] by simp
  then show ?thesis using psd_leak_is_for_ever [OF _ s(3)] s(1,2) by blast
qed

end
