(* ===== verification/Psd_Lifetime.thy ===== *)
theory Psd_Lifetime
  imports Psd_Concurrent
begin

text \<open>
  \<open>11_pseduo_char_driver\<close> from \<open>insmod\<close> to \<open>rmmod\<close>, any number of times: \<open>Psd\<close> has the init and
  exit functions as sequences of kernel calls, \<open>Psd_Concurrent\<close> the processes that use the loaded
  device; here they are put together. State: the device while the module is in memory, and what
  the module holds of the kernel. A failed init leaves no module; a loaded one starts with its
  initial data (the mutex free, the memory zero). The file operations name the module as their
  owner, so the kernel unloads it only when no file of the device is open.
\<close>

record machine =
  device :: "psd_system option"
  held :: "resource list option"  \<comment> \<open>\<open>None\<close>: something was given back that was not held\<close>

definition machine_start :: machine where
  "machine_start = \<lparr>device = None, held = Some []\<rparr>"

definition after_calls :: "kcall list \<Rightarrow> resource list option \<Rightarrow> resource list option" where
  "after_calls calls h = (case h of None \<Rightarrow> None | Some rs \<Rightarrow> ledger rs calls)"

definition all_closed :: "psd_system \<Rightarrow> bool" where
  "all_closed s \<longleftrightarrow> (\<forall>f \<in> set (files s). f = None)"

inductive machine_step :: "machine \<Rightarrow> machine \<Rightarrow> bool" where
  insmod: "device m = None \<Longrightarrow> documented_answers e \<Longrightarrow> pseduo_char_driver_init e = (r, calls) \<Longrightarrow>
    machine_step m \<lparr>device = (if r = 0 then Some psd_start else None), held = after_calls calls (held m)\<rparr>"
| use: "device m = Some s \<Longrightarrow> psd_step s s' \<Longrightarrow> machine_step m (m\<lparr>device := Some s'\<rparr>)"
| rmmod: "device m = Some s \<Longrightarrow> all_closed s \<Longrightarrow>
    machine_step m \<lparr>device = None, held = after_calls pseduo_char_driver_exit (held m)\<rparr>"

inductive_cases machine_stepE: "machine_step m m'"

abbreviation machine_reach :: "machine \<Rightarrow> bool" where
  "machine_reach \<equiv> machine_step\<^sup>*\<^sup>* machine_start"

definition machine_ok :: "machine \<Rightarrow> bool" where
  "machine_ok m \<longleftrightarrow> held m = Some (if device m = None then [] else chrdev_owned) \<and>
     (\<forall>s. device m = Some s \<longrightarrow> psd_reach s)"

lemma machine_step_ok:
  assumes "machine_step m m'" "machine_ok m"
  shows "machine_ok m'"
  using assms(1)
proof (cases rule: machine_step.cases)
  case (insmod e r calls)
  have "held m = Some []" using assms(2) insmod(2) by (simp add: machine_ok_def)
  then show ?thesis
    using psd_module.load_ok [OF insmod(3)] psd_module.load_fails [OF insmod(3)] insmod(4)
    by (simp add: insmod(1) machine_ok_def after_calls_def)
next
  case (use s s')
  then show ?thesis using assms(2) by (auto simp: machine_ok_def)
next
  case (rmmod s)
  then show ?thesis
    using assms(2) psd_module.unload_frees by (simp add: machine_ok_def after_calls_def)
qed

lemma machine_reach_ok: "machine_reach m \<Longrightarrow> machine_ok m"
proof (induction rule: rtranclp_induct)
  case base
  then show ?case by (simp add: machine_ok_def machine_start_def)
next
  case (step m m')
  then show ?case using machine_step_ok by blast
qed

text \<open>A process in a call has its file open.\<close>

lemma busy_not_closed:
  assumes "psd_reach s" "phases s i \<noteq> Outside"
  shows "\<not> all_closed s"
proof
  assume closed: "all_closed s"
  have "file_at (files s) i \<noteq> None"
    using psd_sys_invD(5) [OF psd_reach_inv [OF assms(1)]] assms(2) by blast
  then obtain f where "i < length (files s)" "files s ! i = Some f"
    using file_at_Some by blast
  then have "Some f \<in> set (files s)" by (metis nth_mem)
  then show False using closed by (auto simp: all_closed_def)
qed

lemma use_steps:
  "psd_step\<^sup>*\<^sup>* s s' \<Longrightarrow> machine_step\<^sup>*\<^sup>* \<lparr>device = Some s, held = h\<rparr> \<lparr>device = Some s', held = h\<rparr>"
proof (induction rule: rtranclp_induct)
  case (step s' s'')
  have "machine_step \<lparr>device = Some s', held = h\<rparr> \<lparr>device = Some s'', held = h\<rparr>"
    using machine_step.use [OF _ step.hyps(2), of "\<lparr>device = Some s', held = h\<rparr>"] by simp
  then show ?case using step.IH by simp
qed simp

definition all_well :: chrdev_env where
  "all_well = \<lparr>alloc_ret = 0, class_ret = Ptr 1, cdev_add_ret = 0, device_ret = Ptr 2\<rparr>"

lemma load_well:
  assumes "machine_reach m" "device m = None"
  shows "machine_step m \<lparr>device = Some psd_start, held = Some chrdev_owned\<rparr>"
proof -
  obtain r calls where i: "pseduo_char_driver_init all_well = (r, calls)" by force
  have doc: "documented_answers all_well" and r: "r = 0"
    using i by (auto simp: all_well_def pseduo_char_driver_init_def Let_def)
  have "held m = Some []" using machine_reach_ok [OF assms(1)] assms(2) by (simp add: machine_ok_def)
  then show ?thesis
    using machine_step.insmod [OF assms(2) doc i] psd_module.load_ok [OF doc] i r by (simp add: after_calls_def)
qed

section \<open>Properties\<close>

text \<open>
  C5: However often the module is inserted and removed, with failing registrations or not, and
  whatever processes do with the device in between: the module holds region, class, cdev and
  device exactly while it is loaded and gives each of them back once, no access goes wrong, and
  no process is ever in a call of a module that is gone.
\<close>

theorem psd_machine_balanced:
  assumes "machine_reach m"
  shows "held m = Some (if device m = None then [] else chrdev_owned) \<and>
    (\<forall>s. device m = Some s \<longrightarrow> crash s = None) \<and>
    (\<forall>s m'. device m = Some s \<longrightarrow> machine_step m m' \<longrightarrow> device m' = None \<longrightarrow> (\<forall>i. phases s i = Outside))"
proof (intro conjI allI impI)
  note ok = machine_reach_ok [OF assms]
  show "held m = Some (if device m = None then [] else chrdev_owned)" using ok by (simp add: machine_ok_def)
  fix s assume s: "device m = Some s"
  then have reach: "psd_reach s" using ok by (simp add: machine_ok_def)
  then show "crash s = None" using psd_sys_invD(1) [OF psd_reach_inv] by blast
  fix m' i assume "machine_step m m'" "device m' = None"
  then have "all_closed s" using s by (auto elim!: machine_stepE)
  then show "phases s i = Outside" using busy_not_closed [OF reach] by blast
qed

lemma psd_machine_balanced_witness:
  "\<exists>m. machine_reach m \<and> device m = Some psd_start \<and> held m = Some chrdev_owned"
proof -
  have "machine_reach \<lparr>device = Some psd_start, held = Some chrdev_owned\<rparr>"
    using load_well [of machine_start] by (simp add: machine_start_def)
  from psd_machine_balanced [OF this] this show ?thesis by force
qed

text \<open>
  The mutex that a full write loses can only be had back by removing the module, and once a
  process without a signal waits for it the module can never be removed: in every future of the
  machine the module is loaded, the process waits and the memory is as it was. As long as nobody
  waits, closing all files, removing and inserting the module gives a device as new.
\<close>

theorem psd_stuck_module:
  assumes "machine_reach m" "device m = Some s" "told_full s"
  shows "(stuck (phases s i) \<longrightarrow> machine_step\<^sup>*\<^sup>* m m' \<longrightarrow>
      (\<exists>s'. device m' = Some s' \<and> phases s' i = phases s i \<and> told_full s' \<and>
        buffer (prv_data (dev s')) = buffer (prv_data (dev s)))) \<and>
    (all_closed s \<longrightarrow> (\<exists>n. machine_step\<^sup>*\<^sup>* m n \<and> device n = Some psd_start))"
proof (intro conjI impI)
  have reach: "psd_reach s" using machine_reach_ok [OF assms(1)] assms(2) by (simp add: machine_ok_def)
  have leak: "leaked s" using leaked_iff_told_full [OF reach] assms(3) by simp
  assume stuck: "stuck (phases s i)"
  assume "machine_step\<^sup>*\<^sup>* m m'"
  then have "\<exists>s'. device m' = Some s' \<and> psd_step\<^sup>*\<^sup>* s s'"
  proof (induction rule: rtranclp_induct)
    case base
    then show ?case using assms(2) by blast
  next
    case (step n n')
    then obtain t where t: "device n = Some t" "psd_step\<^sup>*\<^sup>* s t" by blast
    then have "psd_reach t" using reach by simp
    moreover have "phases t i \<noteq> Outside"
      using leaked_steps [OF reach leak t(2), of i] stuck by (cases "phases s i") auto
    ultimately have "\<not> all_closed t" using busy_not_closed by blast
    with step.hyps(2) t show ?case by (auto elim!: machine_stepE)
  qed
  then obtain s' where s': "device m' = Some s'" "psd_step\<^sup>*\<^sup>* s s'" by blast
  then have "psd_reach s'" using reach by simp
  then show "\<exists>s'. device m' = Some s' \<and> phases s' i = phases s i \<and> told_full s' \<and>
      buffer (prv_data (dev s')) = buffer (prv_data (dev s))"
    using leaked_steps [OF reach leak s'(2), of i] s'(1) stuck leaked_iff_told_full by force
next
  assume "all_closed s"
  define n where "n = \<lparr>device = None, held = after_calls pseduo_char_driver_exit (held m)\<rparr>"
  have "machine_step m n" unfolding n_def by (rule machine_step.rmmod [OF assms(2) \<open>all_closed s\<close>])
  moreover from this have "machine_reach n" using assms(1) by simp
  from load_well [OF this] have "machine_step n \<lparr>device = Some psd_start, held = Some chrdev_owned\<rparr>"
    by (simp add: n_def)
  ultimately have "machine_step\<^sup>*\<^sup>* m \<lparr>device = Some psd_start, held = Some chrdev_owned\<rparr>" by simp
  then show "\<exists>n. machine_step\<^sup>*\<^sup>* m n \<and> device n = Some psd_start" by force
qed

lemma psd_stuck_module_witness:
  "\<exists>s. psd_fires empty_write psd_start = Some s \<and>
     (\<forall>m'. machine_step\<^sup>*\<^sup>* \<lparr>device = Some s, held = Some chrdev_owned\<rparr> m' \<longrightarrow> device m' \<noteq> None)"
proof -
  obtain s where s: "psd_fires empty_write psd_start = Some s" "stuck (phases s 1)" "told_full s"
    using empty_write_run by blast
  have "psd_step\<^sup>*\<^sup>* psd_start s" using psd_fires_steps [OF s(1) empty_write_legal] by simp
  from use_steps [OF this] have used: "machine_step\<^sup>*\<^sup>* \<lparr>device = Some psd_start, held = Some chrdev_owned\<rparr>
      \<lparr>device = Some s, held = Some chrdev_owned\<rparr>" .
  have "machine_step machine_start \<lparr>device = Some psd_start, held = Some chrdev_owned\<rparr>"
    by (rule load_well) (simp_all add: machine_start_def)
  from converse_rtranclp_into_rtranclp [OF this used]
  have "machine_reach \<lparr>device = Some s, held = Some chrdev_owned\<rparr>" .
  from psd_stuck_module [OF this _ s(3), of 1] s(1,2) show ?thesis by force
qed

end
