(* ===== verification/Spi_Bus.thy ===== *)
theory Spi_Bus
  imports Kernel
begin

text \<open>
  The SPI controller and whatever chip is wired to it are not under src/. A bus is a parameter
  of every function that talks to it: the answer to a request may depend on the whole history
  of requests, so any deterministic chip is an instance, and the history is at the same time
  the trace that the properties speak about.
\<close>

datatype spi_req =
  Spi_write "u8 list"
| Spi_write_then_read "u8 list" nat

type_synonym spi_history = "spi_req list"

text \<open>The return code of the transfer and the bytes received.\<close>

type_synonym spi_bus = "spi_history \<Rightarrow> spi_req \<Rightarrow> int \<times> u8 list"

text \<open>The multi-byte writes of a history, in order.\<close>

fun payload :: "spi_req \<Rightarrow> u8 list list" where
  "payload (Spi_write bs) = (if length bs \<le> 1 then [] else [bs])"
| "payload (Spi_write_then_read bs n) = []"

definition sent :: "spi_history \<Rightarrow> u8 list list" where
  "sent h = concat (map payload h)"

lemma sent_simps [simp]: "sent [] = []" "sent (h @ h') = sent h @ sent h'" "sent [r] = payload r"
  by (simp_all add: sent_def)

end
