(* ===== verification/W25q32.thy ===== *)
theory W25q32
  imports Spi_Bus Seek
begin

text \<open>
  \<open>device_drivers/w25q32_drv/w25q32_drv.c\<close>: a character device over a 4 MiB SPI flash.
  State: the SPI request history and the number of kernel buffers allocated and not yet freed;
  per open file the position. Parameters: the SPI bus, the allocator, user memory, the kernel
  memory behind an address, the answers of the registration calls. \<open>driver_fops\<close> composes the
  operations to sessions on an open file.
\<close>

unbundle bit_operations_syntax

section \<open>Constants\<close>

definition WRITE_EN :: u8 where "WRITE_EN = 0x06"
definition READ_STATUS_REG1 :: u8 where "READ_STATUS_REG1 = 0x05"
definition PAGE_PROGRAM :: u32 where "PAGE_PROGRAM = 0x02"
definition READ_DATA_INST :: u32 where "READ_DATA_INST = 0x03"
definition MANUFACTURER_ID_READ_INST :: u8 where "MANUFACTURER_ID_READ_INST = 0x90"
definition W25Q32_PAGE_SIZE :: int where "W25Q32_PAGE_SIZE = 256"
definition W25Q32_PAGE_COUNT :: int where "W25Q32_PAGE_COUNT = 16 * 1024"
definition W25Q32_TOTAL_MEM :: int where "W25Q32_TOTAL_MEM = W25Q32_PAGE_SIZE * W25Q32_PAGE_COUNT"

lemma total_mem [simp]: "W25Q32_TOTAL_MEM = 4194304"
  by (simp add: W25Q32_TOTAL_MEM_def W25Q32_PAGE_SIZE_def W25Q32_PAGE_COUNT_def)

section \<open>Instructions\<close>

text \<open>
  The busy wait. A failed status read leaves \<open>busy\<close> as it was; nothing bounds the loop, so a
  wait that never ends is \<open>None\<close>.
\<close>

definition poll_req :: spi_req where
  "poll_req = Spi_write_then_read [READ_STATUS_REG1] 1"

definition poll_busy :: "spi_bus \<Rightarrow> spi_history \<Rightarrow> u8 \<Rightarrow> u8" where
  \<comment> \<open>one turn of the loop: \<open>busy\<close> after the status read and the mask\<close>
  "poll_busy bus h busy =
     (case bus h poll_req of (ret, rx) \<Rightarrow>
        (if ret = 0 then (case rx of b # _ \<Rightarrow> b | [] \<Rightarrow> busy) else busy) AND 0x01)"

partial_function (option) w25q32_check_busy :: "spi_bus \<Rightarrow> spi_history \<Rightarrow> u8 \<Rightarrow> spi_history option" where
  "w25q32_check_busy bus h busy =
     (if busy = 1 then w25q32_check_busy bus (h @ [poll_req]) (poll_busy bus h busy) else Some h)"

definition w25q32_write_instruction :: "spi_history \<Rightarrow> u8 \<Rightarrow> spi_history" where
  \<comment> \<open>the answer of the transfer is only logged\<close>
  "w25q32_write_instruction h instruction = h @ [Spi_write [instruction]]"

section \<open>llseek, ioctl, open, release\<close>

definition driver_llseek :: "int \<Rightarrow> int \<Rightarrow> int \<Rightarrow> int \<times> int" where
  "driver_llseek pos offset whence =
     (if whence = SEEK_SET then
        (if offset > W25Q32_TOTAL_MEM - 1 \<or> offset < 0 then (neg EINVAL, pos) else (offset, offset))
      else if whence = SEEK_CUR then
        (let temp = to_s64 (pos + offset) in
         if temp > W25Q32_TOTAL_MEM - 1 \<or> temp < 0 then (neg EINVAL, pos) else (temp, temp))
      else if whence = SEEK_END then
        (let temp = to_s64 (W25Q32_TOTAL_MEM - 1 + offset) in
         if temp > W25Q32_TOTAL_MEM - 1 \<or> temp < 0 then (neg EINVAL, pos) else (temp, temp))
      else (neg EINVAL, pos))"

definition driver_ioctl :: "int \<Rightarrow> int \<Rightarrow> int" where
  "driver_ioctl cmd arg = 0"

text \<open>
  \<open>driver_open\<close> stores the private structure in the file; the operations below are those of an
  opened file, so they take it as given.
\<close>

record flash_file =
  flash_private :: "unit option"

definition driver_open :: "flash_file \<Rightarrow> int \<times> flash_file" where
  "driver_open filp = (0, filp\<lparr>flash_private := Some ()\<rparr>)"

definition driver_release :: int where
  "driver_release = 0"

section \<open>Read\<close>

record flash_state =
  hist :: spi_history
  live :: nat  \<comment> \<open>buffers from \<open>kzalloc\<close> not given to \<open>kfree\<close>\<close>

record flash_reply =
  result :: int
  next_pos :: int
  to_user :: "u8 list"

definition command :: "u32 \<Rightarrow> int \<Rightarrow> u32" where
  \<comment> \<open>\<open>(INST << 24) | (*f_pos & 0x0FFF)\<close> as \<open>uint32_t\<close>\<close>
  "command inst p = push_bit 24 inst OR (word_of_int p AND 0x0FFF)"

text \<open>
  \<open>driver_read bus alloc left s count p\<close>: \<open>alloc n\<close> tells whether \<open>kzalloc\<close> of \<open>n\<close> bytes
  succeeds, \<open>left n\<close> is the answer of \<open>copy_to_user\<close> for \<open>n\<close> bytes.
\<close>

definition driver_read ::
    "spi_bus \<Rightarrow> (int \<Rightarrow> bool) \<Rightarrow> (int \<Rightarrow> int) \<Rightarrow> flash_state \<Rightarrow> int \<Rightarrow> int \<Rightarrow>
     (flash_reply \<times> flash_state) outcome" where
  "driver_read bus alloc left s count p =
     (let caddr = command READ_DATA_INST p;
          tmp_count = (if to_s64 (count + p) \<ge> W25Q32_TOTAL_MEM
                       then to_s32 (W25Q32_TOTAL_MEM - p - 1) else to_s32 count);
          n = to_u32 tmp_count in
      if \<not> alloc n then Ret (\<lparr>result = neg ENOMEM, next_pos = p, to_user = []\<rparr>, s)
      else let s1 = s\<lparr>live := live s + 1\<rparr> in
      case w25q32_check_busy bus (hist s1) 1 of None \<Rightarrow> Blocked
      | Some h \<Rightarrow>
        let req = Spi_write_then_read (le_bytes caddr) (nat n);
            (ret, rx) = bus h req;
            s2 = s1\<lparr>hist := h @ [req]\<rparr>;
            rxbuff = blit 0 (take (nat n) rx) (replicate (nat n) 0) in
        if ret \<noteq> 0 then Ret (\<lparr>result = neg EFAULT, next_pos = p, to_user = []\<rparr>, s2)
        else if left n \<noteq> 0
        then Ret (\<lparr>result = neg EFAULT, next_pos = p, to_user = take (nat (n - left n)) rxbuff\<rparr>, s2)
        else Ret (\<lparr>result = tmp_count, next_pos = to_s64 ((p AND 0x0FFF) + tmp_count), to_user = rxbuff\<rparr>,
                  s2\<lparr>live := live s2 - 1\<rparr>))"

section \<open>Write\<close>

text \<open>
  Loads through \<open>tmp_char\<close>, the address of the command word taken as a pointer: \<open>mem a\<close> is the
  byte the kernel finds at address \<open>a\<close>, \<open>None\<close> where nothing is mapped.
\<close>

definition load_bytes :: "(u32 \<Rightarrow> u8 option) \<Rightarrow> u32 list \<Rightarrow> u8 list outcome" where
  "load_bytes mem as = (if list_all (\<lambda>a. mem a \<noteq> None) as then Ret (map (\<lambda>a. the (mem a)) as)
                  else Fault Bad_address)"

record write_loop =
  tmp_count :: int
  tmp_index :: int
  tmp_addr :: u32
  page_offset :: int  \<comment> \<open>the local \<open>offset\<close>\<close>
  txbuff :: "u8 list"
  lhist :: spi_history

text \<open>
  Busy wait, write enable, and the transfer of \<open>n\<close> bytes of the buffer from \<open>tmp_index\<close>: the
  three steps common to both branches of the loop.
\<close>

definition program :: "spi_bus \<Rightarrow> write_loop \<Rightarrow> int \<Rightarrow> (int \<times> spi_history) outcome" where
  "program bus l n =
     (case w25q32_check_busy bus (lhist l) 1 of None \<Rightarrow> Blocked
      | Some h \<Rightarrow>
        let h1 = w25q32_write_instruction h WRITE_EN in
        if \<not> in_bounds (tmp_index l) n (txbuff l) then Fault Out_of_bounds
        else let req = Spi_write (segment (nat (tmp_index l)) (nat n) (txbuff l)) in
        Ret (fst (bus h1 req), h1 @ [req]))"

text \<open>One turn of the do-while loop; \<open>Inl h\<close> is the error return.\<close>

definition write_turn ::
    "spi_bus \<Rightarrow> (u32 \<Rightarrow> u8 option) \<Rightarrow> write_loop \<Rightarrow> (spi_history + write_loop) outcome" where
  "write_turn bus mem l =
     (if to_u32 (page_offset l + tmp_count l) > W25Q32_PAGE_SIZE then
        let roll_count = to_s32 (W25Q32_PAGE_SIZE - page_offset l) in
        obind (program bus l (roll_count + 4)) (\<lambda>(ret, h).
          if ret \<noteq> 0 then Ret (Inl h)
          else let a = push_bit 24 PAGE_PROGRAM OR ((tmp_addr l + word_of_int roll_count) AND 0x0FFF) in
          obind (load_bytes mem [a, a, a + 1, a + 2]) (\<lambda>bytes.
            if \<not> in_bounds roll_count 4 (txbuff l) then Fault Out_of_bounds
            else Ret (Inr (l\<lparr>txbuff := blit (nat roll_count) bytes (txbuff l), tmp_addr := a,
                     tmp_index := roll_count, tmp_count := tmp_count l - roll_count,
                     page_offset := 0, lhist := h\<rparr>))))
      else
        obind (program bus l (tmp_count l + 4)) (\<lambda>(ret, h).
          if ret \<noteq> 0 then Ret (Inl h)
          else Ret (Inr (l\<lparr>tmp_addr := push_bit 24 PAGE_PROGRAM OR
                              ((tmp_addr l + word_of_int (tmp_count l)) AND 0x0FFF),
                     tmp_count := 0, lhist := h\<rparr>))))"

text \<open>The second branch sets \<open>tmp_count\<close> to zero, the first one lowers it by a page.\<close>

lemma write_turn_Inr:
  assumes "write_turn bus mem l = Ret (Inr l')" "tmp_count l' > 0"
  shows "page_offset l' = 0" "tmp_count l' = tmp_count l - to_s32 (W25Q32_PAGE_SIZE - page_offset l)"
  using assms by (auto simp: write_turn_def Let_def obind_Ret_iff split: if_splits)

function write_run ::
    "spi_bus \<Rightarrow> (u32 \<Rightarrow> u8 option) \<Rightarrow> write_loop \<Rightarrow> (spi_history + write_loop) outcome" where
  "write_run bus mem l =
     (case write_turn bus mem l of
        Ret (Inr l') \<Rightarrow> if tmp_count l' > 0 then write_run bus mem l' else Ret (Inr l')
      | Ret (Inl h) \<Rightarrow> Ret (Inl h)
      | Fault e \<Rightarrow> Fault e
      | Blocked \<Rightarrow> Blocked)"
  by pat_completeness auto
termination
proof (relation "measures [\<lambda>(bus, mem, l). if page_offset l = 0 then 0 else 1,
                           \<lambda>(bus, mem, l). nat (tmp_count l)]")
  fix bus mem l x l'
  assume "write_turn bus mem l = Ret x" "x = Inr l'" "tmp_count l' > 0"
  then have "page_offset l' = 0" "tmp_count l' = tmp_count l - to_s32 (256 - page_offset l)"
    using write_turn_Inr [of bus mem l l'] by (simp_all add: W25Q32_PAGE_SIZE_def)
  then show "((bus, mem, l'), bus, mem, l) \<in> measures [\<lambda>(bus, mem, l). if page_offset l = 0 then 0 else 1,
                           \<lambda>(bus, mem, l). nat (tmp_count l)]"
    using \<open>tmp_count l' > 0\<close> by (auto simp: c_simps)
qed simp

declare write_run.simps [simp del]

text \<open>
  \<open>driver_write bus mem alloc left user s count p\<close>. The first four bytes of the buffer are
  loaded through the command word; the data follow.
\<close>

definition write_clamp :: "int \<Rightarrow> int \<Rightarrow> int" where
  "write_clamp count p =
     (if to_s64 (count + p) \<ge> W25Q32_TOTAL_MEM then to_u32 (W25Q32_TOTAL_MEM - p - 1) else count)"

definition driver_write ::
    "spi_bus \<Rightarrow> (u32 \<Rightarrow> u8 option) \<Rightarrow> (int \<Rightarrow> bool) \<Rightarrow> (int \<Rightarrow> int) \<Rightarrow> u8 list \<Rightarrow>
     flash_state \<Rightarrow> int \<Rightarrow> int \<Rightarrow> (flash_reply \<times> flash_state) outcome" where
  "driver_write bus mem alloc left user s count0 p =
     (let caddr = command PAGE_PROGRAM p;
          count = write_clamp count0 p;
          tc = to_s32 count;
          n = to_u32 tc in
      if \<not> alloc (to_u32 (tc + 4)) then Ret (\<lparr>result = neg ENOMEM, next_pos = p, to_user = []\<rparr>, s)
      else let s1 = s\<lparr>live := live s + 1\<rparr>; buf0 = replicate (nat (to_u32 (tc + 4))) 0 in
      obind (load_bytes mem [caddr, caddr + 1, caddr + 2, caddr + 3]) (\<lambda>bytes.
      if \<not> in_bounds 0 4 buf0 \<or> \<not> in_bounds 4 n buf0 then Fault Out_of_bounds
      else let buf = blit 4 (from_user user (nat n) (nat (left n))) (blit 0 bytes buf0) in
      if left n \<noteq> 0 then Ret (\<lparr>result = neg EFAULT, next_pos = p, to_user = []\<rparr>, s1)
      else obind (write_run bus mem
          \<lparr>tmp_count = tc, tmp_index = 0, tmp_addr = word_of_int p AND 0x0FFF,
           page_offset = (p AND 0x0FFF) mod W25Q32_PAGE_SIZE, txbuff = buf, lhist = hist s1\<rparr>) (\<lambda>x.
        case x of
          Inl h \<Rightarrow> Ret (\<lparr>result = neg EFAULT, next_pos = p, to_user = []\<rparr>, s1\<lparr>hist := h\<rparr>)
        | Inr l \<Rightarrow> Ret (\<lparr>result = to_s32 count,
              next_pos = to_s64 ((p AND 0x0FFF) + uint (tmp_addr l AND 0x0FFF)), to_user = []\<rparr>,
            s1\<lparr>hist := lhist l, live := live s1 - 1\<rparr>))))"

section \<open>The busy wait\<close>

definition ready :: "spi_bus \<Rightarrow> spi_history \<Rightarrow> bool" where
  \<comment> \<open>the next status read succeeds and its BUSY bit is clear\<close>
  "ready bus h \<longleftrightarrow> (case bus h poll_req of (ret, rx) \<Rightarrow> ret = 0 \<and> (case rx of b # _ \<Rightarrow> even b | [] \<Rightarrow> False))"

definition polled :: "spi_history \<Rightarrow> nat \<Rightarrow> spi_history" where
  "polled h n = h @ replicate n poll_req"

lemma polled_simps [simp]:
  "polled h 0 = h" "polled (h @ [poll_req]) n = polled h (Suc n)" "sent (polled h n) = sent h"
proof -
  show "sent (polled h n) = sent h"
    by (induction n) (simp_all add: polled_def sent_def poll_req_def)
qed (simp_all add: polled_def)

lemma polled_Suc: "polled h n @ [poll_req] = polled h (Suc n)"
  by (simp add: polled_def replicate_append_same [symmetric])

lemma poll_busy_ready: "poll_busy bus h 1 = (if ready bus h then 0 else 1)"
  by (auto simp: poll_busy_def ready_def and_one_eq odd_iff_mod_2_eq_one [symmetric]
      even_iff_mod_2_eq_zero [symmetric] split: prod.splits list.splits)

lemma check_busy_unfold:
  "w25q32_check_busy bus h 1 =
    (if ready bus h then Some (h @ [poll_req]) else w25q32_check_busy bus (h @ [poll_req]) 1)"
  by (subst w25q32_check_busy.simps)
     (simp add: poll_busy_ready w25q32_check_busy.simps [of bus "h @ [poll_req]" 0])

lemma check_busy_returns:
  "(\<forall>j<k. \<not> ready bus (polled h j)) \<Longrightarrow> ready bus (polled h k) \<Longrightarrow>
   w25q32_check_busy bus h 1 = Some (polled h (Suc k))"
proof (induction k arbitrary: h)
  case 0
  then show ?case by (simp add: check_busy_unfold [of bus h] polled_def)
next
  case (Suc k)
  have "\<not> ready bus h"
    using Suc.prems(1) by (force dest: spec [of _ 0])
  moreover have "w25q32_check_busy bus (h @ [poll_req]) 1 = Some (polled (h @ [poll_req]) (Suc k))"
    using Suc.prems by (intro Suc.IH) auto
  ultimately show ?case by (simp add: check_busy_unfold [of bus h])
qed

lemma check_busy_Some_gen:
  assumes "w25q32_check_busy bus h b = Some h'"
  shows "if b = 1 then \<exists>k. ready bus (polled h k) \<and> h' = polled h (Suc k) else h' = h"
proof (rule w25q32_check_busy.raw_induct [where P = "\<lambda>bus h b h'. if b = 1
    then \<exists>k. ready bus (polled h k) \<and> h' = polled h (Suc k) else h' = h", OF _ assms])
  fix f :: "spi_bus \<Rightarrow> spi_history \<Rightarrow> u8 \<Rightarrow> spi_history option" and bus h b h'
  assume IH: "\<And>bus h b h'. f bus h b = Some h' \<Longrightarrow>
      if b = 1 then \<exists>k. ready bus (polled h k) \<and> h' = polled h (Suc k) else h' = h"
    and eq: "(if b = 1 then f bus (h @ [poll_req]) (poll_busy bus h b) else Some h) = Some h'"
  show "if b = 1 then \<exists>k. ready bus (polled h k) \<and> h' = polled h (Suc k) else h' = h"
  proof (cases "b = 1")
    case True
    with eq have step: "f bus (h @ [poll_req]) (if ready bus h then 0 else 1) = Some h'"
      by (simp add: poll_busy_ready)
    show ?thesis
    proof (cases "ready bus h")
      case True
      with step IH [OF step] have "h' = polled h (Suc 0)" by (simp add: polled_def)
      with True \<open>b = 1\<close> show ?thesis by (auto intro!: exI [of _ 0])
    next
      case False
      with step IH [OF step] obtain k where "ready bus (polled h (Suc k))" "h' = polled h (Suc (Suc k))"
        by auto
      with \<open>b = 1\<close> show ?thesis by auto
    qed
  qed (use eq in simp)
qed

lemma check_busy_sent: "w25q32_check_busy bus h 1 = Some h' \<Longrightarrow> sent h' = sent h"
  using check_busy_Some_gen [of bus h 1 h'] by auto

section \<open>Commands on the wire\<close>

lemma mask12: "(0x0FFF :: 'a::len word) = mask 12" "(0x0FFF :: int) = mask 12"
  by (simp_all add: mask_eq_exp_minus_1)

lemma int_mask12 [simp]: "(p :: int) AND 0x0FFF = p mod 4096"
  by (simp add: mask12 take_bit_eq_mod flip: take_bit_eq_mask)

lemma mod_4096: "(p :: int) mod 4096 = take_bit 12 p"
  by (simp add: take_bit_eq_mod)

lemma word_mask12: "(word_of_int p :: u32) AND 0x0FFF = word_of_int (p mod 4096)"
  by (simp add: mask12 mod_4096 take_bit_of_int flip: take_bit_eq_mask)

lemma div_256: "(p :: int) div 256 = drop_bit 8 p"
  by (simp add: drop_bit_eq_div)

text \<open>The bytes the controller shifts out when it is given the address of a command word.\<close>

lemma le_bytes_command:
  "le_bytes (command inst p) = [word_of_int p, word_of_int (p mod 4096 div 256), 0, ucast inst]"
proof -
  have "(ucast (command inst p) :: u8) = word_of_int p"
    by (rule bit_word_eqI) (auto simp: command_def mask12 bit_simps)
  moreover have "(ucast (drop_bit 8 (command inst p)) :: u8) = word_of_int (p mod 4096 div 256)"
    by (rule bit_word_eqI) (auto simp: command_def mask12 mod_4096 div_256 bit_simps)
  moreover have "(ucast (drop_bit 16 (command inst p)) :: u8) = 0"
    by (rule bit_word_eqI) (auto simp: command_def mask12 bit_simps)
  moreover have "(ucast (drop_bit 24 (command inst p)) :: u8) = ucast inst"
    by (rule bit_word_eqI) (auto simp: command_def mask12 bit_simps)
  ultimately show ?thesis by (simp add: le_bytes_def)
qed

section \<open>Seeking\<close>

lemma driver_llseek_spec:
  "0 \<le> p \<Longrightarrow> p \<le> 4194303 \<Longrightarrow> is_loff off \<Longrightarrow> driver_llseek p off wh = seek_spec 4194303 p off wh"
  using loff_sum_check [of p 4194303 off] loff_sum_check [of 4194303 4194303 off]
  by (auto simp: driver_llseek_def seek_spec_def seek_target_def Let_def seek_consts)

interpretation flash_seek: seekable driver_llseek 4194303
  by unfold_locales (simp_all add: driver_llseek_spec)

section \<open>Reading\<close>

definition flash_room :: "int \<Rightarrow> int \<Rightarrow> int" where
  \<comment> \<open>what a request for \<open>count\<close> bytes at \<open>p\<close> is cut down to\<close>
  "flash_room count p = min count (4194303 - p)"

lemma flash_room_range:
  "0 \<le> p \<Longrightarrow> p < 4194304 \<Longrightarrow> is_size_t count \<Longrightarrow> 0 \<le> flash_room count p \<and> p + flash_room count p < 4194304"
  by (auto simp: flash_room_def is_size_t_def)

lemma read_count:
  assumes "0 \<le> p" "p < 4194304" "is_size_t count"
  shows "(if to_s64 (count + p) \<ge> W25Q32_TOTAL_MEM then to_s32 (W25Q32_TOTAL_MEM - p - 1) else to_s32 count) =
    flash_room count p"
  using assms by (auto simp: flash_room_def is_size_t_def c_simps)

lemma write_count:
  assumes "0 \<le> p" "p < 4194304" "is_size_t count"
  shows "write_clamp count p = flash_room count p"
  using assms by (auto simp: write_clamp_def flash_room_def is_size_t_def c_simps)

definition read_req :: "int \<Rightarrow> int \<Rightarrow> spi_req" where
  "read_req p n = Spi_write_then_read [word_of_int p, word_of_int (p mod 4096 div 256), 0, 3] (nat n)"

lemma read_req_eq: "Spi_write_then_read (le_bytes (command READ_DATA_INST p)) (nat n) = read_req p n"
  by (simp add: le_bytes_command read_req_def READ_DATA_INST_def)

lemma driver_read_eq:
  assumes "0 \<le> p" "p < 4194304" "is_size_t count" and n: "n = flash_room count p"
  shows "driver_read bus alloc left s count p =
    (if \<not> alloc n then Ret (\<lparr>result = neg ENOMEM, next_pos = p, to_user = []\<rparr>, s)
     else case w25q32_check_busy bus (hist s) 1 of None \<Rightarrow> Blocked
     | Some h \<Rightarrow>
       let (ret, rx) = bus h (read_req p n);
           rxbuff = blit 0 (take (nat n) rx) (replicate (nat n) 0);
           h' = h @ [read_req p n] in
       if ret \<noteq> 0 then Ret (\<lparr>result = neg EFAULT, next_pos = p, to_user = []\<rparr>, \<lparr>hist = h', live = live s + 1\<rparr>)
       else if left n \<noteq> 0
       then Ret (\<lparr>result = neg EFAULT, next_pos = p, to_user = take (nat (n - left n)) rxbuff\<rparr>,
                 \<lparr>hist = h', live = live s + 1\<rparr>)
       else Ret (\<lparr>result = n, next_pos = p mod 4096 + n, to_user = rxbuff\<rparr>, \<lparr>hist = h', live = live s\<rparr>))"
proof -
  have rng: "0 \<le> n" "n < 4194304"
    using assms flash_room_range [of p count] by auto
  have "0 \<le> p mod 4096" "p mod 4096 < 4096" by simp_all
  with rng have pos: "to_s64 (p mod 4096 + n) = p mod 4096 + n" "to_u32 n = n"
    by (simp_all add: c_simps)
  show ?thesis
    unfolding driver_read_def Let_def read_count [OF assms(1-3)] n [symmetric] int_mask12 pos read_req_eq
    by (cases s) (auto split: option.splits prod.splits)
qed

section \<open>Writing\<close>

definition loop_ok :: "write_loop \<Rightarrow> bool" where
  "loop_ok l \<longleftrightarrow> 0 \<le> tmp_index l \<and> 0 \<le> page_offset l \<and> page_offset l < 256 \<and> 0 \<le> tmp_count l \<and>
     tmp_count l < 4194304 \<and> tmp_index l + tmp_count l + 4 \<le> int (length (txbuff l))"

definition chunk :: "write_loop \<Rightarrow> int" where
  \<comment> \<open>the data bytes the next turn sends\<close>
  "chunk l = min (tmp_count l) (256 - page_offset l)"

lemma loop_ok_branch:
  assumes "loop_ok l"
  shows "(to_u32 (page_offset l + tmp_count l) > W25Q32_PAGE_SIZE) \<longleftrightarrow> 256 < page_offset l + tmp_count l"
    and "to_s32 (W25Q32_PAGE_SIZE - page_offset l) = 256 - page_offset l"
  using assms by (auto simp: loop_ok_def W25Q32_PAGE_SIZE_def c_simps)

text \<open>A turn never leaves the transmit buffer, and keeps what the next turn needs.\<close>

lemma program_not_oob:
  assumes "loop_ok l" "0 \<le> n" "n \<le> tmp_count l + 4"
  shows "program bus l n \<noteq> Fault e"
  using assms by (auto simp: program_def loop_ok_def in_bounds_def Let_def split: option.splits)

lemma load_not_oob: "load_bytes mem as = Fault e \<Longrightarrow> e = Bad_address"
  by (simp add: load_bytes_def split: if_splits)

lemma load_bytes_Ret: "load_bytes mem as = Ret bs \<Longrightarrow> length bs = length as"
  by (auto simp: load_bytes_def split: if_splits)

lemma write_turn_fault:
  assumes "loop_ok l" "write_turn bus mem l = Fault e"
  shows "e = Bad_address"
proof (cases "256 < page_offset l + tmp_count l")
  case True
  with assms(1) have "program bus l (256 - page_offset l + 4) \<noteq> Fault f"
      "in_bounds (256 - page_offset l) 4 (txbuff l)" for f
    using program_not_oob [of l "256 - page_offset l + 4" bus f] by (auto simp: loop_ok_def in_bounds_def)
  with assms True show ?thesis
    by (cases "program bus l (256 - page_offset l + 4)")
       (auto simp: write_turn_def loop_ok_branch Let_def split: if_splits outcome.splits
         dest: load_not_oob elim!: obind.elims)
next
  case False
  with assms(1) have "program bus l (tmp_count l + 4) \<noteq> Fault f" for f
    using program_not_oob [of l "tmp_count l + 4" bus f] by (auto simp: loop_ok_def)
  with assms False show ?thesis
    by (cases "program bus l (tmp_count l + 4)")
       (auto simp: write_turn_def loop_ok_branch split: if_splits)
qed

lemma write_turn_ok:
  assumes "loop_ok l" "write_turn bus mem l = Ret (Inr l')"
  shows "loop_ok l'"
  using assms
  by (auto simp: write_turn_def loop_ok_branch Let_def obind_Ret_iff split: if_splits dest!: load_bytes_Ret)
     (auto simp: loop_ok_def)

lemma write_run_fault:
  "loop_ok l \<Longrightarrow> write_run bus mem l = Fault e \<Longrightarrow> e = Bad_address"
proof (induction bus mem l rule: write_run.induct)
  case (1 bus mem l)
  then show ?case
    by (auto simp: write_run.simps [of bus mem l] split: outcome.splits sum.splits if_splits
        dest: write_turn_fault write_turn_ok)
qed

text \<open>
  What a page program transaction may carry: the data cut at page boundaries.
\<close>

function page_sizes :: "int \<Rightarrow> int \<Rightarrow> int list" where
  "page_sizes off n =
     (if off < 256 \<and> 256 < off + n then (256 - off) # page_sizes 0 (n - (256 - off)) else [n])"
  by pat_completeness auto
termination by (relation "measure (\<lambda>(off, n). nat n)") auto

declare page_sizes.simps [simp del]

definition answers :: "spi_bus \<Rightarrow> bool" where
  \<comment> \<open>the chip gets ready again after every request, and the controller transmits\<close>
  "answers bus \<longleftrightarrow> (\<forall>h. w25q32_check_busy bus h 1 \<noteq> None) \<and> (\<forall>h bs. fst (bus h (Spi_write bs)) = 0)"

definition mapped :: "(u32 \<Rightarrow> u8 option) \<Rightarrow> bool" where
  "mapped mem \<longleftrightarrow> (\<forall>a. mem a \<noteq> None)"

lemma load_mapped: "mapped mem \<Longrightarrow> load_bytes mem as = Ret (map (\<lambda>a. the (mem a)) as)"
  by (simp add: load_bytes_def mapped_def list_all_iff)

lemma program_answers:
  assumes "answers bus" "loop_ok l" "0 \<le> n" "n \<le> tmp_count l"
  shows "\<exists>h. program bus l (n + 4) = Ret (0, h) \<and>
    sent h = sent (lhist l) @ [segment (nat (tmp_index l)) (nat n + 4) (txbuff l)]"
proof -
  obtain h where h: "w25q32_check_busy bus (lhist l) 1 = Some h"
    using assms(1) unfolding answers_def by blast
  have ok: "in_bounds (tmp_index l) (n + 4) (txbuff l)" "nat (n + 4) = nat n + 4"
    "nat (tmp_index l) + (nat n + 4) \<le> length (txbuff l)"
    using assms by (auto simp: loop_ok_def in_bounds_def)
  then show ?thesis
    using assms(1) h check_busy_sent [OF h]
    by (simp add: program_def answers_def w25q32_write_instruction_def sent_def)
qed

definition next_addr :: "u32 \<Rightarrow> int \<Rightarrow> u32" where
  "next_addr a n = push_bit 24 PAGE_PROGRAM OR ((a + word_of_int n) AND 0x0FFF)"

lemma run_last:
  assumes "answers bus" "loop_ok l" "\<not> 256 < page_offset l + tmp_count l"
  shows "\<exists>h. write_run bus mem l =
      Ret (Inr (l\<lparr>tmp_addr := next_addr (tmp_addr l) (tmp_count l), tmp_count := 0, lhist := h\<rparr>)) \<and>
    sent h = sent (lhist l) @ [segment (nat (tmp_index l)) (nat (tmp_count l) + 4) (txbuff l)]"
  using program_answers [OF assms(1,2), of "tmp_count l"] assms
  by (auto simp: write_run.simps [of bus mem l] write_turn_def loop_ok_branch next_addr_def loop_ok_def)

definition after_page :: "write_loop \<Rightarrow> u8 list \<Rightarrow> spi_history \<Rightarrow> write_loop" where
  \<comment> \<open>the loop state after a turn that filled its page\<close>
  "after_page l bytes h = (let r = 256 - page_offset l in
     l\<lparr>txbuff := blit (nat r) bytes (txbuff l), tmp_addr := next_addr (tmp_addr l) r,
       tmp_index := r, tmp_count := tmp_count l - r, page_offset := 0, lhist := h\<rparr>)"

lemma run_page:
  assumes "answers bus" "mapped mem" "loop_ok l" "256 < page_offset l + tmp_count l"
  shows "\<exists>h bytes. length bytes = 4 \<and> write_run bus mem l = write_run bus mem (after_page l bytes h) \<and>
    loop_ok (after_page l bytes h) \<and>
    sent h = sent (lhist l) @ [segment (nat (tmp_index l)) (nat (256 - page_offset l) + 4) (txbuff l)]"
proof -
  let ?r = "256 - page_offset l"
  obtain h where h: "program bus l (?r + 4) = Ret (0, h)"
      "sent h = sent (lhist l) @ [segment (nat (tmp_index l)) (nat ?r + 4) (txbuff l)]"
    using program_answers [OF assms(1,3), of ?r] assms(3,4) by (auto simp: loop_ok_def)
  let ?a = "next_addr (tmp_addr l) ?r"
  let ?bytes = "map (\<lambda>a. the (mem a)) [?a, ?a, ?a + 1, ?a + 2]"
  have bnd: "in_bounds ?r 4 (txbuff l)"
    using assms(3,4) by (auto simp: loop_ok_def in_bounds_def)
  have turn: "write_turn bus mem l = Ret (Inr (after_page l ?bytes h))"
    using assms(3,4) h(1) bnd
    by (simp add: write_turn_def loop_ok_branch load_mapped [OF assms(2)] after_page_def next_addr_def Let_def)
  moreover have "tmp_count (after_page l ?bytes h) > 0"
    using assms(4) by (simp add: after_page_def Let_def)
  ultimately have "write_run bus mem l = write_run bus mem (after_page l ?bytes h)"
    by (simp add: write_run.simps [of bus mem l])
  with turn h(2) write_turn_ok [OF assms(3) turn] show ?thesis
    by (intro exI [of _ h] exI [of _ ?bytes]) simp
qed

lemma next_addr_low: "next_addr a n AND 0x0FFF = (a + word_of_int n) AND 0x0FFF"
  by (rule bit_word_eqI) (auto simp: next_addr_def mask12 bit_simps)

lemma low_add: "((a AND 0x0FFF) + b) AND 0x0FFF = (a + b) AND (0x0FFF :: u32)"
proof -
  have "take_bit 12 (take_bit 12 a + b) = take_bit 12 (a + b)"
    by (simp only: word_uint_eq_iff unsigned_take_bit_eq uint_word_ariths)
       (simp add: take_bit_eq_mod mod_simps mod_mod_cancel)
  then show ?thesis by (simp add: mask12 flip: take_bit_eq_mask)
qed

lemma next_addr_next_addr:
  "next_addr (next_addr a n) m AND 0x0FFF = (a + word_of_int (n + m)) AND 0x0FFF"
  by (metis (no_types, opaque_lifting) add.assoc low_add next_addr_low of_int_add)

text \<open>
  With a chip that answers and a mapped command address the loop always ends, the final
  address has advanced by the whole count, and the transfers have the sizes of the page cut.
\<close>

lemma run_total:
  "answers bus \<Longrightarrow> mapped mem \<Longrightarrow> loop_ok l \<Longrightarrow>
   \<exists>l' cs. write_run bus mem l = Ret (Inr l') \<and>
     tmp_addr l' AND 0x0FFF = (tmp_addr l + word_of_int (tmp_count l)) AND 0x0FFF \<and>
     sent (lhist l') = sent (lhist l) @ cs \<and>
     map length cs = map (\<lambda>n. nat n + 4) (page_sizes (page_offset l) (tmp_count l))"
proof (induction "page_offset l" "tmp_count l" arbitrary: l rule: page_sizes.induct)
  case (1 l)
  let ?r = "256 - page_offset l"
  have size: "page_offset l < 256" "0 \<le> tmp_count l"
      "nat (tmp_index l) + (nat (tmp_count l) + 4) \<le> length (txbuff l)"
    using \<open>loop_ok l\<close> by (auto simp: loop_ok_def)
  show ?case
  proof (cases "256 < page_offset l + tmp_count l")
    case True
    then obtain h bytes where step: "write_run bus mem l = write_run bus mem (after_page l bytes h)"
        "loop_ok (after_page l bytes h)"
        "sent h = sent (lhist l) @ [segment (nat (tmp_index l)) (nat ?r + 4) (txbuff l)]"
      using run_page [OF 1(2-4)] by blast
    have fields: "page_offset (after_page l bytes h) = 0"
        "tmp_count (after_page l bytes h) = tmp_count l - ?r"
        "tmp_addr (after_page l bytes h) = next_addr (tmp_addr l) ?r"
        "lhist (after_page l bytes h) = h"
      by (simp_all add: after_page_def Let_def)
    obtain l' cs where rest: "write_run bus mem (after_page l bytes h) = Ret (Inr l')"
        "tmp_addr l' AND 0x0FFF = (next_addr (tmp_addr l) ?r + word_of_int (tmp_count l - ?r)) AND 0x0FFF"
        "sent (lhist l') = sent h @ cs"
        "map length cs = map (\<lambda>n. nat n + 4) (page_sizes 0 (tmp_count l - ?r))"
      using 1(1) [of "after_page l bytes h"] True size 1(2,3) step(2) by (auto simp: fields)
    have addr: "tmp_addr l' AND 0x0FFF = (tmp_addr l + word_of_int (tmp_count l)) AND 0x0FFF"
      using next_addr_next_addr [of "tmp_addr l" ?r "tmp_count l - ?r"] next_addr_low rest(2) by simp
    have len: "length (segment (nat (tmp_index l)) (nat ?r + 4) (txbuff l)) = nat ?r + 4"
      using size True by (intro length_segment) linarith
    have cut: "page_sizes (page_offset l) (tmp_count l) = ?r # page_sizes 0 (tmp_count l - ?r)"
      using True size by (simp add: page_sizes.simps [of "page_offset l"])
    show ?thesis
      using rest(1,3,4) step(1,3) addr len cut
      by (intro exI [of _ l'] exI [of _ "segment (nat (tmp_index l)) (nat ?r + 4) (txbuff l) # cs"]) simp
  next
    case False
    then obtain h where "write_run bus mem l =
        Ret (Inr (l\<lparr>tmp_addr := next_addr (tmp_addr l) (tmp_count l), tmp_count := 0, lhist := h\<rparr>))"
        "sent h = sent (lhist l) @ [segment (nat (tmp_index l)) (nat (tmp_count l) + 4) (txbuff l)]"
      using run_last [OF 1(2,4)] by blast
    moreover have "page_sizes (page_offset l) (tmp_count l) = [tmp_count l]"
      using False by (simp add: page_sizes.simps [of "page_offset l"])
    ultimately show ?thesis
      using size(3) by (simp add: next_addr_low)
  qed
qed

text \<open>What the transfers carry behind their four header bytes.\<close>

lemma header_data: "length hdr = 4 \<Longrightarrow> drop 4 (segment 0 (n + 4) (hdr @ data)) = take n data"
  by (simp add: segment_def)

lemma second_data:
  assumes "length hdr = 4" "length bytes = 4" "r + n \<le> length data"
  shows "drop 4 (segment r (n + 4) (blit r bytes (hdr @ data))) = segment r n data"
  using assms by (intro nth_equalityI) (auto simp: segment_def nth_blit nth_append)

lemma third_data:
  assumes "length hdr = 4" "length bytes = 4" "length bytes2 = 4" "r \<le> 256" "256 + n \<le> length data"
  shows "drop 4 (segment 256 (n + 4) (blit 256 bytes2 (blit r bytes (hdr @ data)))) = segment 256 n data"
  using assms by (intro nth_equalityI) (auto simp: segment_def nth_blit nth_append)

definition start_loop :: "spi_history \<Rightarrow> int \<Rightarrow> int \<Rightarrow> u8 list \<Rightarrow> write_loop" where
  "start_loop h p n buf =
     \<lparr>tmp_count = n, tmp_index = 0, tmp_addr = word_of_int p AND 0x0FFF,
      page_offset = p mod 256, txbuff = buf, lhist = h\<rparr>"

lemma start_loop_ok:
  "0 \<le> n \<Longrightarrow> n < 4194304 \<Longrightarrow> length buf = nat n + 4 \<Longrightarrow> loop_ok (start_loop h p n buf)"
  by (simp add: loop_ok_def start_loop_def)

lemma fill_buffer:
  "length hdr = 4 \<Longrightarrow> length xs = n \<Longrightarrow> blit 4 xs (blit 0 hdr (replicate (n + 4) (0 :: u8))) = hdr @ xs"
  by (simp add: blit_def)

abbreviation command_bytes :: "int \<Rightarrow> u32 list" where
  \<comment> \<open>the four addresses \<open>driver_write\<close> loads its header from\<close>
  "command_bytes p \<equiv> (let c = command PAGE_PROGRAM p in [c, c + 1, c + 2, c + 3])"

lemma driver_write_eq:
  assumes "0 \<le> p" "p < 4194304" "is_size_t count" and n: "n = flash_room count p"
  shows "driver_write bus mem alloc left user s count p =
    (if \<not> alloc (n + 4) then Ret (\<lparr>result = neg ENOMEM, next_pos = p, to_user = []\<rparr>, s)
     else obind (load_bytes mem (command_bytes p)) (\<lambda>bytes.
       if left n \<noteq> 0 then Ret (\<lparr>result = neg EFAULT, next_pos = p, to_user = []\<rparr>, s\<lparr>live := live s + 1\<rparr>)
       else obind (write_run bus mem
           (start_loop (hist s) p n (bytes @ from_user user (nat n) 0))) (\<lambda>x. case x of
           Inl h \<Rightarrow> Ret (\<lparr>result = neg EFAULT, next_pos = p, to_user = []\<rparr>, \<lparr>hist = h, live = live s + 1\<rparr>)
         | Inr l \<Rightarrow> Ret (\<lparr>result = n, next_pos = p mod 4096 + uint (tmp_addr l AND 0x0FFF), to_user = []\<rparr>,
             \<lparr>hist = lhist l, live = live s\<rparr>))))"
proof -
  have rng: "0 \<le> n" "n < 4194304"
    using assms flash_room_range [of p count] by auto
  have conv: "to_s32 n = n" "to_u32 n = n" "to_u32 (n + 4) = n + 4" "nat (n + 4) = nat n + 4"
    using rng by (simp_all add: c_simps nat_add_distrib)
  have pos: "to_s64 (p mod 4096 + uint (a AND 0x0FFF)) = p mod 4096 + uint (a AND 0x0FFF)" for a :: u32
  proof -
    have "0 \<le> p mod 4096" "p mod 4096 < 4096" "0 \<le> uint (a AND 0x0FFF)" "uint (a AND 0x0FFF) < 4294967296"
      using uint_lt2p [of "a AND 0x0FFF"] by simp_all
    then show ?thesis by (intro to_s64_id) linarith+
  qed
  have off: "p mod 4096 mod W25Q32_PAGE_SIZE = p mod 256"
    by (simp add: W25Q32_PAGE_SIZE_def mod_mod_cancel)
  have bnd: "in_bounds 0 4 (replicate (nat n + 4) (0 :: u8))" "in_bounds 4 n (replicate (nat n + 4) (0 :: u8))"
    using rng by (simp_all add: in_bounds_def)
  have fill: "blit 4 (from_user user (nat n) (nat (left n))) (blit 0 bytes (replicate (nat n + 4) 0)) =
      bytes @ from_user user (nat n) (nat (left n))" if "length bytes = 4" for bytes
    using that by (simp add: fill_buffer)
  show ?thesis
  proof (cases "load_bytes mem (command_bytes p)")
    case (Ret bytes)
    then have "length bytes = 4" by (auto simp: Let_def dest!: load_bytes_Ret)
    with Ret show ?thesis
      unfolding driver_write_def write_count [OF assms(1-3)] n [symmetric]
      by (cases s) (simp add: Let_def conv int_mask12 off bnd fill pos start_loop_def
          split: sum.splits cong: sum.case_cong)
  qed (simp_all add: driver_write_def write_count [OF assms(1-3)] n [symmetric] Let_def conv)
qed

text \<open>The transfers of a run over one, two and three pages.\<close>

lemma run_two:
  assumes "answers bus" "mapped mem" "loop_ok l" "256 < page_offset l + tmp_count l"
    "page_offset l + tmp_count l \<le> 512" and r: "r = 256 - page_offset l"
  shows "\<exists>l' b. length b = 4 \<and> write_run bus mem l = Ret (Inr l') \<and> sent (lhist l') = sent (lhist l) @
    [segment (nat (tmp_index l)) (nat r + 4) (txbuff l),
     segment (nat r) (nat (tmp_count l - r) + 4) (blit (nat r) b (txbuff l))]"
proof -
  obtain h b where page: "length b = 4" "write_run bus mem l = write_run bus mem (after_page l b h)"
      "loop_ok (after_page l b h)"
      "sent h = sent (lhist l) @ [segment (nat (tmp_index l)) (nat r + 4) (txbuff l)]"
    using run_page [OF assms(1-4)] r by auto
  have "\<not> 256 < page_offset (after_page l b h) + tmp_count (after_page l b h)"
    using assms(5) by (simp add: after_page_def Let_def)
  from run_last [OF assms(1) page(3) this, of mem] page r show ?thesis
    by (fastforce simp: after_page_def Let_def)
qed

lemma run_three:
  assumes "answers bus" "mapped mem" "loop_ok l" "512 < page_offset l + tmp_count l"
    "page_offset l + tmp_count l \<le> 768" and r: "r = 256 - page_offset l"
  shows "\<exists>l' b b2. length b = 4 \<and> length b2 = 4 \<and> write_run bus mem l = Ret (Inr l') \<and>
    sent (lhist l') = sent (lhist l) @
    [segment (nat (tmp_index l)) (nat r + 4) (txbuff l),
     segment (nat r) (256 + 4) (blit (nat r) b (txbuff l)),
     segment 256 (nat (tmp_count l - r - 256) + 4) (blit 256 b2 (blit (nat r) b (txbuff l)))]"
proof -
  obtain h b where page: "length b = 4" "write_run bus mem l = write_run bus mem (after_page l b h)"
      "loop_ok (after_page l b h)"
      "sent h = sent (lhist l) @ [segment (nat (tmp_index l)) (nat r + 4) (txbuff l)]"
    using run_page [OF assms(1-3)] assms(4) r by auto
  have flds: "page_offset (after_page l b h) = 0" "tmp_count (after_page l b h) = tmp_count l - r"
      "tmp_index (after_page l b h) = r" "txbuff (after_page l b h) = blit (nat r) b (txbuff l)"
      "lhist (after_page l b h) = h"
    by (simp_all add: after_page_def Let_def r)
  obtain l' b2 where "length b2 = 4" "write_run bus mem (after_page l b h) = Ret (Inr l')"
      "sent (lhist l') = sent h @
        [segment (nat r) (256 + 4) (blit (nat r) b (txbuff l)),
         segment 256 (nat (tmp_count l - r - 256) + 4) (blit 256 b2 (blit (nat r) b (txbuff l)))]"
    using run_two [OF assms(1,2) page(3), of 256] assms(4,5) by (auto simp: flds r)
  with page show ?thesis by auto
qed

text \<open>The data of the transfers: exact up to two pages, the third page goes wrong.\<close>

lemma start_loop_fields [simp]:
  "page_offset (start_loop h p n buf) = p mod 256" "tmp_count (start_loop h p n buf) = n"
  "tmp_index (start_loop h p n buf) = 0" "txbuff (start_loop h p n buf) = buf"
  "lhist (start_loop h p n buf) = h" "tmp_addr (start_loop h p n buf) = word_of_int p AND 0x0FFF"
  by (simp_all add: start_loop_def)

lemma run_data_two_pages:
  assumes "answers bus" "mapped mem" "0 \<le> n" "length hdr = 4" "length data = nat n"
    "p mod 256 + n \<le> 512" "write_run bus mem (start_loop h p n (hdr @ data)) = Ret (Inr l')"
  shows "\<exists>cs. sent (lhist l') = sent h @ cs \<and> concat (map (drop 4) cs) = data"
proof (cases "256 < p mod 256 + n")
  case True
  have rng: "0 \<le> p mod 256" "p mod 256 < 256" by simp_all
  have ok: "loop_ok (start_loop h p n (hdr @ data))"
    using assms rng by (intro start_loop_ok) auto
  let ?r = "256 - p mod 256"
  obtain b where b: "length b = 4" "sent (lhist l') = sent h @
      [segment 0 (nat ?r + 4) (hdr @ data),
       segment (nat ?r) (nat (n - ?r) + 4) (blit (nat ?r) b (hdr @ data))]"
    using run_two [OF assms(1,2) ok] True assms(6,7) by auto
  have "nat ?r + nat (n - ?r) = length data" using True rng assms(5) by simp
  then have "concat (map (drop 4) [segment 0 (nat ?r + 4) (hdr @ data),
       segment (nat ?r) (nat (n - ?r) + 4) (blit (nat ?r) b (hdr @ data))]) = data"
    using assms(4) b(1) by (simp add: header_data second_data) (simp add: segment_def)
  with b(2) show ?thesis by blast
next
  case False
  have rng: "0 \<le> p mod 256" by simp
  have "loop_ok (start_loop h p n (hdr @ data))"
    using assms rng by (intro start_loop_ok) auto
  from run_last [OF assms(1) this, of mem] False assms(4,5,7) show ?thesis
    by (auto simp: header_data)
qed

lemma run_data_three_pages:
  assumes "answers bus" "mapped mem" "0 \<le> n" "length hdr = 4" "length data = nat n"
    "512 < p mod 256 + n" "p mod 256 + n \<le> 768" and r: "r = 256 - p mod 256"
    "write_run bus mem (start_loop h p n (hdr @ data)) = Ret (Inr l')"
  shows "\<exists>cs. sent (lhist l') = sent h @ cs \<and> concat (map (drop 4) cs) =
    take (nat r) data @ segment (nat r) 256 data @ segment 256 (nat (n - r - 256)) data"
proof -
  have rng: "0 \<le> p mod 256" "p mod 256 < 256" by simp_all
  have ok: "loop_ok (start_loop h p n (hdr @ data))"
    using assms rng by (intro start_loop_ok) auto
  obtain b b2 where b: "length b = 4" "length b2 = 4" "sent (lhist l') = sent h @
      [segment 0 (nat r + 4) (hdr @ data), segment (nat r) (256 + 4) (blit (nat r) b (hdr @ data)),
       segment 256 (nat (n - r - 256) + 4) (blit 256 b2 (blit (nat r) b (hdr @ data)))]"
    using run_three [OF assms(1,2) ok] assms(6,7,8,9) by auto
  have "nat r + 256 \<le> length data" "256 + nat (n - r - 256) \<le> length data" "nat r \<le> 256"
    using assms rng by auto
  then show ?thesis
    using b assms(4) second_data [of hdr b "nat r" 256 data] by (simp add: header_data third_data)
qed

text \<open>A bus that is ready at once and transmits everything.\<close>

definition idle_bus :: spi_bus where
  "idle_bus h r = (case r of Spi_write bs \<Rightarrow> (0, []) | Spi_write_then_read bs n \<Rightarrow> (0, replicate n 0))"

lemma idle_bus_answers: "answers idle_bus"
proof -
  have "ready idle_bus h" for h
    by (simp add: ready_def poll_req_def idle_bus_def)
  then have "w25q32_check_busy idle_bus h 1 \<noteq> None" for h
    using check_busy_returns [of 0 idle_bus h] by simp
  then show ?thesis by (simp add: answers_def idle_bus_def)
qed

section \<open>Sessions on an open file\<close>

text \<open>
  \<open>driver_fops\<close> dispatches the system calls on an opened file: the state is that of the driver
  and the file position. Each call has its own allocator and user copies; bus and kernel
  memory are those of the machine.
\<close>

datatype flash_call =
  Flash_llseek int int
| Flash_read "int \<Rightarrow> bool" "int \<Rightarrow> int" int
| Flash_write "int \<Rightarrow> bool" "int \<Rightarrow> int" "u8 list" int
| Flash_ioctl int int

type_synonym flash_sys = "flash_state \<times> int"

definition flash_io :: "(flash_reply \<times> flash_state) outcome \<Rightarrow> ((int \<times> u8 list) \<times> flash_sys) outcome" where
  \<comment> \<open>the VFS hands read and write the position and stores it back\<close>
  "flash_io x = obind x (\<lambda>(r, s'). Ret ((result r, to_user r), s', next_pos r))"

fun driver_fops ::
    "spi_bus \<Rightarrow> (u32 \<Rightarrow> u8 option) \<Rightarrow> flash_sys \<Rightarrow> flash_call \<Rightarrow> ((int \<times> u8 list) \<times> flash_sys) outcome" where
  "driver_fops bus mem (s, p) (Flash_llseek off wh) = (let (r, p') = driver_llseek p off wh in Ret ((r, []), s, p'))"
| "driver_fops bus mem (s, p) (Flash_read alloc left count) = flash_io (driver_read bus alloc left s count p)"
| "driver_fops bus mem (s, p) (Flash_write alloc left user count) =
     flash_io (driver_write bus mem alloc left user s count p)"
| "driver_fops bus mem (s, p) (Flash_ioctl cmd arg) = Ret ((driver_ioctl cmd arg, []), s, p)"

fun flash_legal :: "flash_call \<Rightarrow> bool" where
  "flash_legal (Flash_llseek off wh) = is_loff off"
| "flash_legal (Flash_read alloc left count) = (is_size_t count \<and> is_copy_answer left)"
| "flash_legal (Flash_write alloc left user count) = (is_size_t count \<and> is_copy_answer left)"
| "flash_legal (Flash_ioctl cmd arg) = True"

text \<open>What a user may see: a count inside the memory, or one of three error numbers.\<close>

definition flash_answer :: "int \<Rightarrow> bool" where
  "flash_answer r \<longleftrightarrow> (0 \<le> r \<and> r < W25Q32_TOTAL_MEM) \<or> r = neg ENOMEM \<or> r = neg EFAULT \<or> r = neg EINVAL"

definition pos_ok :: "int \<Rightarrow> bool" where
  "pos_ok p \<longleftrightarrow> 0 \<le> p \<and> p < W25Q32_TOTAL_MEM"

definition flash_call_ok :: "nat \<Rightarrow> ((int \<times> u8 list) \<times> flash_sys) outcome \<Rightarrow> bool" where
  \<comment> \<open>what holds after one call that started with \<open>n\<close> live buffers\<close>
  "flash_call_ok n x = (case x of
       Ret ((r, out), s', p') \<Rightarrow> pos_ok p' \<and> flash_answer r \<and> live s' = n + of_bool (r = neg EFAULT)
     | Fault e \<Rightarrow> e = Bad_address
     | Blocked \<Rightarrow> True)"

lemma neg_distinct: "neg EFAULT \<noteq> neg ENOMEM" "neg EFAULT \<noteq> neg EINVAL" "neg ENOMEM \<noteq> neg EFAULT" "neg EINVAL \<noteq> neg EFAULT"
  by (simp_all add: neg_def)

lemma neg_not_eq: "0 \<le> r \<Longrightarrow> r \<noteq> neg e"
  using neg_neg(3) [of e] by auto

lemma flash_llseek_ok:
  assumes "pos_ok p" "is_loff off"
  shows "flash_call_ok (live s) (driver_fops bus mem (s, p) (Flash_llseek off wh))"
proof -
  have pos: "0 \<le> p" "p \<le> 4194303" using assms(1) by (simp_all add: pos_ok_def)
  have eq: "driver_fops bus mem (s, p) (Flash_llseek off wh) =
      Ret ((fst (seek_spec 4194303 p off wh), []), s, snd (seek_spec 4194303 p off wh))"
    by (simp add: driver_llseek_spec [OF pos assms(2)] case_prod_beta)
  show ?thesis
    using seek_spec_cases [of 4194303 p off wh] pos unfolding eq
    by (elim disjE exE conjE) (simp_all add: flash_call_ok_def pos_ok_def flash_answer_def neg_distinct neg_not_eq)
qed

lemma flash_read_ok:
  assumes "pos_ok p" "is_size_t count"
  shows "flash_call_ok (live s) (driver_fops bus mem (s, p) (Flash_read alloc left count))"
proof -
  have pos: "0 \<le> p" "p < 4194304" using assms(1) by (simp_all add: pos_ok_def)
  let ?n = "flash_room count p"
  have n: "0 \<le> ?n" "p + ?n < 4194304" "?n < 4194304"
    using flash_room_range [OF pos assms(2)] pos by simp_all
  have "p mod 4096 \<le> p" "0 \<le> p mod 4096" using pos(1) by (simp_all add: zmod_le_nonneg_dividend)
  then have npos: "0 \<le> p mod 4096 + ?n" "p mod 4096 + ?n < 4194304" using n by linarith+
  show ?thesis
    using n npos pos
    by (auto simp: driver_read_eq [OF pos assms(2) refl] flash_io_def Let_def flash_call_ok_def flash_answer_def
        pos_ok_def neg_distinct neg_not_eq split: option.splits prod.splits)
qed

lemma flash_write_ok:
  assumes "pos_ok p" "is_size_t count"
  shows "flash_call_ok (live s) (driver_fops bus mem (s, p) (Flash_write alloc left user count))"
proof -
  have pos: "0 \<le> p" "p < 4194304" using assms(1) by (simp_all add: pos_ok_def)
  let ?n = "flash_room count p" and ?l = "\<lambda>bytes. start_loop (hist s) p (flash_room count p) (bytes @ from_user user (nat (flash_room count p)) 0)"
  have n: "0 \<le> ?n" "?n < 4194304"
    using flash_room_range [OF pos assms(2)] pos by simp_all
  have low: "0 \<le> p mod 4096 + uint (a AND 0x0FFF) \<and> p mod 4096 + uint (a AND 0x0FFF) < 4194304" for a :: u32
  proof -
    have "uint (a AND 0x0FFF) < 2 ^ 12"
      unfolding mask12 take_bit_eq_mask [symmetric] unsigned_take_bit_eq by (rule take_bit_int_less_exp)
    moreover have "0 \<le> p mod 4096" "p mod 4096 < 4096" by simp_all
    ultimately show ?thesis by simp
  qed
  show ?thesis
  proof (cases "load_bytes mem (command_bytes p)")
    case (Ret bytes)
    then have "length bytes = 4" by (auto simp: Let_def dest!: load_bytes_Ret)
    then have "loop_ok (?l bytes)" using n by (intro start_loop_ok) auto
    then have fault: "e = Bad_address" if "write_run bus mem (?l bytes) = Fault e" for e
      using write_run_fault that by blast
    show ?thesis
    proof (cases "write_run bus mem (?l bytes)")
      case (Ret x)
      then show ?thesis
        using \<open>load_bytes mem (command_bytes p) = _\<close> n low pos
        by (cases x) (auto simp: driver_write_eq [OF pos assms(2) refl] flash_io_def flash_call_ok_def flash_answer_def
            pos_ok_def neg_distinct neg_not_eq)
    next
      case (Fault e)
      then show ?thesis
        using \<open>load_bytes mem (command_bytes p) = _\<close> n pos fault
        by (auto simp: driver_write_eq [OF pos assms(2) refl] flash_io_def flash_call_ok_def flash_answer_def
            pos_ok_def neg_distinct)
    next
      case Blocked
      then show ?thesis
        using \<open>load_bytes mem (command_bytes p) = _\<close> n pos
        by (auto simp: driver_write_eq [OF pos assms(2) refl] flash_io_def flash_call_ok_def flash_answer_def
            pos_ok_def neg_distinct)
    qed
  next
    case (Fault e)
    then show ?thesis
      using pos load_not_oob [OF Fault] n
      by (auto simp: driver_write_eq [OF pos assms(2) refl] flash_io_def flash_call_ok_def flash_answer_def
          pos_ok_def neg_distinct)
  next
    case Blocked
    then show ?thesis by (simp add: load_bytes_def split: if_splits)
  qed
qed

lemma driver_fops_ok:
  assumes "pos_ok (snd y)" "flash_legal c"
  shows "flash_call_ok (live (fst y)) (driver_fops bus mem y c)"
proof (cases y)
  case (Pair s p)
  with assms flash_llseek_ok [of p _ s bus mem] flash_read_ok [of p _ s bus mem] flash_write_ok [of p _ s bus mem]
  show ?thesis
    by (cases c) (auto simp: flash_call_ok_def flash_answer_def driver_ioctl_def simp del: driver_fops.simps(1-3))
qed

fun leaks :: "(int \<times> u8 list) list \<Rightarrow> nat" where
  \<comment> \<open>the answers \<open>-EFAULT\<close>\<close>
  "leaks [] = 0"
| "leaks (r # rs) = of_bool (fst r = neg EFAULT) + leaks rs"

lemma flash_session_sound:
  assumes "pos_ok (snd y)" "list_all flash_legal cs"
  shows "case session (driver_fops bus mem) y cs of
      Ret (rs, z) \<Rightarrow> pos_ok (snd z) \<and> list_all (\<lambda>r. flash_answer (fst r)) rs \<and>
        live (fst z) = live (fst y) + leaks rs
    | Fault e \<Rightarrow> e = Bad_address
    | Blocked \<Rightarrow> True"
  using assms
proof (induction cs arbitrary: y)
  case (Cons c cs)
  note one = driver_fops_ok [OF Cons.prems(1), of c bus mem]
  show ?case
  proof (cases "driver_fops bus mem y c")
    case (Ret ry)
    obtain r out y' where ry: "ry = ((r, out), y')" by (cases ry) auto
    have y': "pos_ok (snd y')" "flash_answer r" "live (fst y') = live (fst y) + of_bool (r = neg EFAULT)"
      using one Cons.prems(2) Ret ry by (cases y'; simp add: flash_call_ok_def)+
    show ?thesis
      using Cons.IH [OF y'(1)] Cons.prems(2) y'(2,3) Ret ry
      by (cases "session (driver_fops bus mem) y' cs") auto
  qed (use one Cons.prems(2) in \<open>simp_all add: flash_call_ok_def\<close>)
qed simp

section \<open>Properties of the data path\<close>

text \<open>
  \<open>llseek\<close> of the flash implements the seek contract: from a position inside the memory the
  result is the mathematical target or \<open>-EINVAL\<close> with the position kept, for every \<open>loff_t\<close>
  offset; wrap-around of the 64-bit sums is never visible.
\<close>

theorem w25q32_llseek_contract:
  assumes "0 \<le> p" "p \<le> 4194303" "is_loff off"
  shows "driver_llseek p off whence = seek_spec 4194303 p off whence \<and>
    (fst (driver_llseek p off whence) < 0 \<longleftrightarrow>
      (case seek_target 4194303 p off whence of None \<Rightarrow> True | Some t \<Rightarrow> t < 0 \<or> 4194303 < t)) \<and>
    snd (driver_llseek p off whence) =
      (if fst (driver_llseek p off whence) < 0 then p else fst (driver_llseek p off whence))"
  using flash_seek.seek_fails_iff [OF assms] flash_seek.seek_reports_position [OF assms]
    driver_llseek_spec [OF assms] by blast

lemma w25q32_llseek_contract_witness:
  "driver_llseek 4000000 9223372036854775807 SEEK_CUR = (neg EINVAL, 4000000)"
  using w25q32_llseek_contract [of 4000000 9223372036854775807 SEEK_CUR]
  by (simp add: is_loff_def seek_spec_def seek_target_def seek_consts)

text \<open>
  C24: The busy wait polls the status register until a read succeeds with the BUSY bit clear and
  returns right after that poll; it never returns if no such poll comes, for example when the
  status reads keep failing.
\<close>

theorem w25q32_check_busy_waits:
  "w25q32_check_busy bus h 1 =
    (if \<exists>k. ready bus (polled h k) then Some (polled h (Suc (LEAST k. ready bus (polled h k)))) else None)"
proof (cases "\<exists>k. ready bus (polled h k)")
  case True
  then have "ready bus (polled h (LEAST k. ready bus (polled h k)))"
    "\<forall>j<(LEAST k. ready bus (polled h k)). \<not> ready bus (polled h j)"
    by (auto intro: LeastI_ex dest: not_less_Least)
  with True show ?thesis by (simp add: check_busy_returns)
next
  case False
  then show ?thesis
    using check_busy_Some_gen [of bus h 1] by (cases "w25q32_check_busy bus h 1") auto
qed

text \<open>
  A read inside the memory asks the flash for \<open>min count (last byte - pos)\<close> bytes, so the last
  byte of the chip is never delivered; what it sends is the little-endian image of the command
  word: address bits 0 to 7 first and the READ opcode last, and only 12 address bits. The
  position afterwards is \<open>pos mod 4096 + n\<close>.
\<close>

theorem w25q32_read_behaviour:
  assumes "0 \<le> p" "p < 4194304" "is_size_t count" and n: "n = min count (4194303 - p)"
    and "alloc n" "w25q32_check_busy bus (hist s) 1 = Some h"
    and "bus h (read_req p n) = (0, rx)" "length rx = nat n" "left n = 0"
  shows "driver_read bus alloc left s count p =
      Ret (\<lparr>result = n, next_pos = p mod 4096 + n, to_user = rx\<rparr>,
           \<lparr>hist = h @ [Spi_write_then_read
              [word_of_int p, word_of_int (p mod 4096 div 256), 0, 0x03] (nat n)], live = live s\<rparr>)"
proof -
  have n': "n = flash_room count p" by (simp add: n flash_room_def)
  have "blit 0 (take (nat n) rx) (replicate (nat n) 0) = rx"
    using assms(8) by (simp add: blit_def)
  with assms(5-9) show ?thesis
    unfolding driver_read_eq [OF assms(1-3) n'] by (simp add: read_req_def)
qed

lemma w25q32_read_behaviour_witness:
  "driver_read idle_bus (\<lambda>n. True) (\<lambda>n. 0) \<lparr>hist = [], live = 0\<rparr> 2 8192 =
   Ret (\<lparr>result = 2, next_pos = 2, to_user = [0, 0]\<rparr>,
        \<lparr>hist = [poll_req, Spi_write_then_read [word_of_int 8192, 0, 0, 3] 2], live = 0\<rparr>)"
proof -
  have "ready idle_bus []" by (simp add: ready_def poll_req_def idle_bus_def)
  then have "w25q32_check_busy idle_bus (hist \<lparr>hist = [], live = 0\<rparr>) 1 = Some [poll_req]"
    using check_busy_returns [of 0 idle_bus "[]"] by (simp add: polled_def)
  moreover have "idle_bus [poll_req] (read_req 8192 2) = (0, [0, 0])"
    by (simp add: read_req_def idle_bus_def numeral_2_eq_2)
  ultimately show ?thesis
    using w25q32_read_behaviour [of 8192 2 2 "\<lambda>n. True" idle_bus "\<lparr>hist = [], live = 0\<rparr>" "[poll_req]" "[0, 0]" "\<lambda>n. 0"]
    by (simp add: is_size_t_def)
qed

text \<open>
  The chip as its data sheet describes the READ instruction: opcode 3, a 24-bit address with the
  most significant byte first, then the data, wrapping at the end of the 4 MiB. \<open>mem h\<close> is the
  memory after the history \<open>h\<close>.
\<close>

definition reads_memory :: "spi_bus \<Rightarrow> (spi_history \<Rightarrow> int \<Rightarrow> u8) \<Rightarrow> bool" where
  "reads_memory bus mem \<longleftrightarrow> (\<forall>h a2 a1 a0 n. bus h (Spi_write_then_read [0x03, a2, a1, a0] n) =
     (0, map (\<lambda>i. mem h ((uint a2 * 65536 + uint a1 * 256 + uint a0 + int i) mod 4194304)) [0..<n]))"

definition wire_address :: "int \<Rightarrow> int" where
  \<comment> \<open>the address the chip takes from a read at \<open>p\<close>\<close>
  "wire_address p = p mod 4096 div 256 * 65536 + 3"

lemma read_opcode: "(word_of_int p :: u8) = 0x03 \<longleftrightarrow> p mod 256 = 3"
proof -
  have "(word_of_int p :: u8) = 0x03 \<longleftrightarrow> uint (word_of_int p :: u8) = uint (0x03 :: u8)"
    by (simp only: word_uint_eq_iff)
  also have "\<dots> \<longleftrightarrow> p mod 256 = 3" by (simp add: uint_word_of_int)
  finally show ?thesis .
qed

lemma wire_address_right: "p mod 256 = 3 \<Longrightarrow> 0 \<le> p \<Longrightarrow> wire_address p = p \<longleftrightarrow> p = 3"
proof -
  assume low: "p mod 256 = 3" and pos: "0 \<le> p"
  have "p = 3" if eq: "wire_address p = p"
  proof -
    have "p mod 4096 = (p mod 4096 div 256 * 65536 + 3) mod 4096"
      using eq by (simp add: wire_address_def)
    also have "\<dots> = 3"
      using mod_mult_self2 [of 3 4096 "p mod 4096 div 256 * 16"] by (simp add: algebra_simps)
    finally have "p mod 4096 = 3" .
    then show ?thesis using eq by (simp add: wire_address_def)
  qed
  then show "wire_address p = p \<longleftrightarrow> p = 3" by (auto simp: wire_address_def)
qed

text \<open>
  C25: Where a read of the flash really reads. Behind its busy wait the driver sends one command, on
  any bus and at any position, and its first byte, which the chip takes for the opcode, is the low
  byte of the position; so it is a READ instruction only when the position is 3 modulo 256. Then,
  on a working chip, the caller gets the bytes from \<open>wire_address\<close> on, and that is the place asked
  for at position 3 and nowhere else.
\<close>

theorem w25q32_read_place:
  assumes "0 \<le> p" "p < 4194304" "is_size_t count" and n: "n = min count (4194303 - p)"
    and "alloc n" "w25q32_check_busy bus (hist s) 1 = Some h"
  shows "(\<exists>r s' op rest. driver_read bus alloc left s count p = Ret (r, s') \<and>
      hist s' = h @ [Spi_write_then_read (op # rest) (nat n)] \<and>
      int (unat op) = p mod 256 \<and> (op = ucast READ_DATA_INST \<longleftrightarrow> p mod 256 = 3)) \<and>
    (p mod 256 = 3 \<and> left n = 0 \<and> reads_memory bus mem \<longrightarrow> driver_read bus alloc left s count p =
      Ret (\<lparr>result = n, next_pos = p mod 4096 + n,
            to_user = map (\<lambda>i. mem h ((wire_address p + int i) mod 4194304)) [0..<nat n]\<rparr>,
           \<lparr>hist = h @ [read_req p n], live = live s\<rparr>) \<and>
      (wire_address p = p \<longleftrightarrow> p = 3))"
proof -
  have low: "int (unat (word_of_int p :: u8)) = p mod 256" by (simp add: uint_word_of_int)
  have n': "n = flash_room count p" by (simp add: n flash_room_def)
  have sent: "\<exists>r s'. driver_read bus alloc left s count p = Ret (r, s') \<and> hist s' = h @ [read_req p n]"
    using assms(5,6) unfolding driver_read_eq [OF assms(1-3) n'] by (auto simp: Let_def split: prod.splits)
  then have first: "\<exists>r s' op rest. driver_read bus alloc left s count p = Ret (r, s') \<and>
      hist s' = h @ [Spi_write_then_read (op # rest) (nat n)] \<and>
      int (unat op) = p mod 256 \<and> (op = ucast READ_DATA_INST \<longleftrightarrow> p mod 256 = 3)"
    using low read_opcode [of p] by (auto simp: read_req_def READ_DATA_INST_def)
  have mid: "uint (word_of_int (p mod 4096 div 256) :: u8) = p mod 4096 div 256"
  proof -
    have "0 \<le> p mod 4096" "p mod 4096 < 4096" by simp_all
    then have "0 \<le> p mod 4096 div 256" "p mod 4096 div 256 < 256" by (simp_all add: div_less_iff_less_mult)
    then show ?thesis by (simp add: uint_word_of_int mod_pos_pos_trivial)
  qed
  have "driver_read bus alloc left s count p =
      Ret (\<lparr>result = n, next_pos = p mod 4096 + n,
            to_user = map (\<lambda>i. mem h ((wire_address p + int i) mod 4194304)) [0..<nat n]\<rparr>,
           \<lparr>hist = h @ [read_req p n], live = live s\<rparr>)" if "p mod 256 = 3" "left n = 0" "reads_memory bus mem"
  proof -
    have req: "read_req p n = Spi_write_then_read [0x03, word_of_int (p mod 4096 div 256), 0, 3] (nat n)"
      using that(1) read_opcode [of p] by (simp add: read_req_def)
    have rx: "bus h (read_req p n) = (0, map (\<lambda>i. mem h ((wire_address p + int i) mod 4194304)) [0..<nat n])"
      using that(3) by (simp add: req reads_memory_def wire_address_def mid)
    show ?thesis
      using w25q32_read_behaviour [OF assms(1-3) n, of alloc bus s h _ left, OF assms(5,6) rx _ that(2)]
      by (simp add: read_req_def)
  qed
  moreover have "wire_address p = p \<longleftrightarrow> p = 3" if "p mod 256 = 3"
    using wire_address_right [OF that assms(1)] .
  ultimately show ?thesis using first by blast
qed

definition reading_chip :: "(int \<Rightarrow> u8) \<Rightarrow> spi_bus" where
  \<comment> \<open>never busy, read only\<close>
  "reading_chip mem h req = (case req of
       Spi_write_then_read (op # a2 # a1 # a0 # _) n \<Rightarrow>
         (0, map (\<lambda>i. mem ((uint a2 * 65536 + uint a1 * 256 + uint a0 + int i) mod 4194304)) [0..<n])
     | Spi_write_then_read _ n \<Rightarrow> (0, replicate n 0)
     | Spi_write _ \<Rightarrow> (0, []))"

lemma w25q32_read_place_witness:
  "\<exists>s'. driver_read (reading_chip (\<lambda>a. word_of_int a)) (\<lambda>n. True) (\<lambda>n. 0) \<lparr>hist = [], live = 0\<rparr> 2 3 =
     Ret (\<lparr>result = 2, next_pos = 5, to_user = [3, 4]\<rparr>, s')"
proof -
  let ?bus = "reading_chip (\<lambda>a. word_of_int a)"
  have "ready ?bus []" by (simp add: ready_def poll_req_def reading_chip_def)
  then have busy: "w25q32_check_busy ?bus (hist \<lparr>hist = [], live = 0\<rparr>) 1 = Some [poll_req]"
    using check_busy_returns [of 0 ?bus "[]"] by (simp add: polled_def)
  have "reads_memory ?bus (\<lambda>h a. word_of_int a)" by (simp add: reads_memory_def reading_chip_def)
  with w25q32_read_place [OF _ _ _ _ _ busy, of 3 2 2 "\<lambda>n. True" "\<lambda>n. 0" "\<lambda>h a. word_of_int a"]
  show ?thesis by (simp add: is_size_t_def wire_address_def upt_rec)
qed

text \<open>
  C26: A session of any system calls on an opened flash file, with any arguments the ABI allows,
  any chip, allocator and user memory: the file position never leaves the memory, every answer
  is a count inside the memory or one of three error numbers, every \<open>-EFAULT\<close> leaks exactly one
  kernel buffer and nothing else does, and the only fault is the load through the command word.
\<close>

theorem flash_session_accounted:
  assumes "0 \<le> p" "p < W25Q32_TOTAL_MEM" "list_all flash_legal cs"
  shows "(\<forall>rs s' p'. session (driver_fops bus mem) (s, p) cs = Ret (rs, s', p') \<longrightarrow>
      0 \<le> p' \<and> p' < W25Q32_TOTAL_MEM \<and> list_all (\<lambda>r. flash_answer (fst r)) rs \<and>
      length rs = length cs \<and> live s' = live s + leaks rs) \<and>
    (\<forall>e. session (driver_fops bus mem) (s, p) cs = Fault e \<longrightarrow> e = Bad_address)"
  using flash_session_sound [of "(s, p)" cs bus mem] assms session_length [of "driver_fops bus mem" "(s, p)" cs]
  by (auto simp: pos_ok_def split: outcome.splits)

lemma flash_session_accounted_witness:
  "\<exists>rs s' p'. session (driver_fops idle_bus (\<lambda>a. Some 0)) (\<lparr>hist = [], live = 0\<rparr>, 0)
      [Flash_llseek 5 0, Flash_read (\<lambda>n. True) (\<lambda>n. n) 2] = Ret (rs, s', p') \<and> live s' = leaks rs \<and> p' < 4194304"
proof -
  let ?cs = "[Flash_llseek 5 0, Flash_read (\<lambda>n. True) (\<lambda>n. n) 2]" and ?s = "\<lparr>hist = [], live = 0\<rparr>"
  have "ready idle_bus []" by (simp add: ready_def poll_req_def idle_bus_def)
  then have "w25q32_check_busy idle_bus [] 1 = Some [poll_req]"
    using check_busy_returns [of 0 idle_bus "[]"] by (simp add: polled_def)
  then have "\<exists>rs s' p'. session (driver_fops idle_bus (\<lambda>a. Some 0)) (?s, 0) ?cs = Ret (rs, s', p')"
    by (simp add: driver_llseek_def seek_consts driver_read_def flash_io_def idle_bus_def Let_def)
  then obtain rs s' p' where r: "session (driver_fops idle_bus (\<lambda>a. Some 0)) (?s, 0) ?cs = Ret (rs, s', p')" by blast
  have "list_all flash_legal ?cs" by (simp add: is_loff_def is_size_t_def is_copy_answer_def)
  from flash_session_accounted [OF _ _ this, of 0 idle_bus "\<lambda>a. Some 0" ?s] r show ?thesis by auto
qed

text \<open>
  Reads and writes inside the memory leak exactly one kernel buffer on every path that
  returns \<open>-EFAULT\<close> and none on any other path.
\<close>

theorem w25q32_error_paths_leak:
  assumes "0 \<le> p" "p < 4194304" "is_size_t count"
    and "driver_read bus alloc left s count p = Ret (r, s') \<or>
         driver_write bus mem alloc left user s count p = Ret (r, s')"
  shows "live s' = live s + (if result r = neg EFAULT then 1 else 0)"
proof -
  have nn: "0 \<le> flash_room count p"
    using flash_room_range [OF assms(1-3)] by simp
  from assms(4) show ?thesis
  proof
    assume "driver_read bus alloc left s count p = Ret (r, s')"
    then show ?thesis
      unfolding driver_read_eq [OF assms(1-3) refl] using nn
      by (auto simp: Let_def neg_def split: if_splits option.splits prod.splits)
  next
    assume "driver_write bus mem alloc left user s count p = Ret (r, s')"
    then show ?thesis
      unfolding driver_write_eq [OF assms(1-3) refl] using nn
      by (auto simp: Let_def neg_def obind_Ret_iff case_sum_outcome split: if_split_asm)
  qed
qed

lemma w25q32_error_paths_leak_witness:
  "\<exists>r s'. driver_read idle_bus (\<lambda>n. True) (\<lambda>n. 1) \<lparr>hist = [], live = 0\<rparr> 2 0 = Ret (r, s') \<and>
     result r = neg EFAULT \<and> live s' = 1"
proof -
  have "ready idle_bus []" by (simp add: ready_def poll_req_def idle_bus_def)
  then have "w25q32_check_busy idle_bus [] 1 = Some [poll_req]"
    using check_busy_returns [of 0 idle_bus "[]"] by (simp add: polled_def)
  then have "\<exists>r s'. driver_read idle_bus (\<lambda>n. True) (\<lambda>n. 1) \<lparr>hist = [], live = 0\<rparr> 2 0 = Ret (r, s') \<and>
      result r = neg EFAULT"
    by (simp add: driver_read_def idle_bus_def Let_def)
  then obtain r s' where r: "driver_read idle_bus (\<lambda>n. True) (\<lambda>n. 1) \<lparr>hist = [], live = 0\<rparr> 2 0 = Ret (r, s')"
    "result r = neg EFAULT" by blast
  show ?thesis
    using w25q32_error_paths_leak [OF _ _ _ disjI1 [OF r(1)]] r by (simp add: is_size_t_def)
qed

text \<open>
  C11: No write inside the memory reads or writes outside its transmit buffer, whatever the
  chip, the allocator and the user memory do: the only fault a write can have is the load
  through the command word, and it has that fault whenever the allocation succeeds and
  nothing is mapped at the command word taken as an address.
\<close>

theorem w25q32_write_memory_safety:
  assumes "0 \<le> p" "p < 4194304" "is_size_t count" and n: "n = min count (4194303 - p)"
  shows "(\<forall>e. driver_write bus mem alloc left user s count p = Fault e \<longrightarrow> e = Bad_address) \<and>
    (alloc (n + 4) \<and> mem (command PAGE_PROGRAM p) = None \<longrightarrow>
       driver_write bus mem alloc left user s count p = Fault Bad_address)"
proof -
  have n': "n = flash_room count p" by (simp add: n flash_room_def)
  have rng: "0 \<le> n" "n < 4194304"
    using flash_room_range [OF assms(1-3)] assms(1) n' by auto
  have run: "e = Bad_address"
    if "load_bytes mem (command_bytes p) = Ret bytes"
      "write_run bus mem (start_loop (hist s) p n (bytes @ from_user user (nat n) 0)) = Fault e" for bytes e
    using that rng by (intro write_run_fault [OF start_loop_ok that(2)])
      (auto simp: Let_def dest!: load_bytes_Ret)
  have "e = Bad_address" if "driver_write bus mem alloc left user s count p = Fault e" for e
    using that run unfolding driver_write_eq [OF assms(1-3) n']
    by (auto simp: obind_Fault_iff case_sum_outcome dest: load_not_oob split: if_split_asm)
  moreover have "load_bytes mem (command_bytes p) = Fault Bad_address"
    if "mem (command PAGE_PROGRAM p) = None"
    using that by (simp add: load_bytes_def Let_def)
  ultimately show ?thesis
    by (auto simp: driver_write_eq [OF assms(1-3) n'])
qed

lemma w25q32_write_memory_safety_witness:
  "driver_write (\<lambda>h r. (0, [0])) (\<lambda>a. None) (\<lambda>n. True) (\<lambda>n. 0) [1] \<lparr>hist = [], live = 0\<rparr> 1 0 =
     Fault Bad_address"
  using w25q32_write_memory_safety [of 0 1 1 "\<lambda>h r. (0, [0])" "\<lambda>a. None" "\<lambda>n. True" "\<lambda>n. 0" "[1]"
      "\<lparr>hist = [], live = 0\<rparr>"]
  by (simp add: is_size_t_def)

text \<open>
  C10: With an answering chip and a mapped command address a write inside the memory always
  terminates with the clamped count; its transfers have the sizes of the page cut plus the
  four header bytes, and the position afterwards is \<open>pos mod 4096 + (pos + n) mod 4096\<close>.
\<close>

theorem w25q32_write_total:
  assumes "0 \<le> p" "p < 4194304" "is_size_t count" and n: "n = min count (4194303 - p)"
    and "alloc (n + 4)" "left n = 0" "answers bus" "mapped mem"
  shows "\<exists>s' cs. driver_write bus mem alloc left user s count p =
      Ret (\<lparr>result = n, next_pos = p mod 4096 + (p + n) mod 4096, to_user = []\<rparr>, s') \<and>
    live s' = live s \<and> sent (hist s') = sent (hist s) @ cs \<and>
    map length cs = map (\<lambda>k. nat k + 4) (page_sizes (p mod 256) n)"
proof -
  have n': "n = flash_room count p" by (simp add: n flash_room_def)
  have rng: "0 \<le> n" "n < 4194304"
    using flash_room_range [OF assms(1-3)] assms(1) n' by auto
  obtain bytes where bytes: "load_bytes mem (command_bytes p) = Ret bytes" "length bytes = 4"
    using load_mapped [OF assms(8)] by (simp add: Let_def)
  let ?l = "start_loop (hist s) p n (bytes @ from_user user (nat n) 0)"
  have "loop_ok ?l" using rng bytes by (intro start_loop_ok) auto
  from run_total [OF assms(7,8) this] obtain l' cs where run: "write_run bus mem ?l = Ret (Inr l')"
      "tmp_addr l' AND 0x0FFF = ((word_of_int p AND 0x0FFF) + word_of_int n) AND 0x0FFF"
      "sent (lhist l') = sent (hist s) @ cs"
      "map length cs = map (\<lambda>k. nat k + 4) (page_sizes (p mod 256) n)"
    by auto
  have "tmp_addr l' AND 0x0FFF = word_of_int ((p + n) mod 4096)"
    using run(2) by (simp add: low_add word_mask12 mod_add_left_eq flip: of_int_add)
  moreover have "uint (word_of_int ((p + n) mod 4096) :: u32) = (p + n) mod 4096"
    by (simp add: uint_word_of_int mod_mod_trivial)
  ultimately show ?thesis
    using run bytes(1) assms(5,6) unfolding driver_write_eq [OF assms(1-3) n']
    by (intro exI [of _ "\<lparr>hist = lhist l', live = live s\<rparr>"] exI [of _ cs]) simp
qed

lemma w25q32_write_total_witness:
  "\<exists>s' cs. driver_write idle_bus (\<lambda>a. Some 0) (\<lambda>n. True) (\<lambda>n. 0) (replicate 300 7) \<lparr>hist = [], live = 0\<rparr> 300 4000 =
      Ret (\<lparr>result = 300, next_pos = 4204, to_user = []\<rparr>, s') \<and> sent (hist s') = cs \<and> map length cs = [100, 208]"
proof -
  have "page_sizes 160 300 = [96, 204]"
    by (simp add: page_sizes.simps)
  then show ?thesis
    using w25q32_write_total [of 4000 300 300 "\<lambda>n. True" "\<lambda>n. 0" idle_bus "\<lambda>a. Some 0"
        "replicate 300 7" "\<lparr>hist = [], live = 0\<rparr>"]
    by (auto simp: is_size_t_def idle_bus_answers mapped_def)
qed

text \<open>
  C9: The page loop of a write transmits the caller's data exactly as long as they touch at
  most two pages. As soon as they reach a third page it does not: after the first two pages
  the loop starts again at byte 256 of the data instead of going on behind what it has sent.
\<close>

theorem w25q32_write_payload:
  assumes "0 \<le> p" "p < 4194304" "is_size_t count" and n: "n = min count (4194303 - p)"
    and "alloc (n + 4)" "left n = 0" "n \<le> int (length user)" "answers bus" "mapped mem"
    and "p mod 256 + n \<le> 768" and r: "r = 256 - p mod 256"
  shows "\<exists>rep s' cs. driver_write bus mem alloc left user s count p = Ret (rep, s') \<and>
    sent (hist s') = sent (hist s) @ cs \<and>
    concat (map (drop 4) cs) =
      (if p mod 256 + n \<le> 512 then take (nat n) user
       else take (nat r) user @ segment (nat r) 256 user @ segment 256 (nat (n - r - 256)) user)"
proof -
  have n': "n = flash_room count p" by (simp add: n flash_room_def)
  have rng: "0 \<le> n" "n < 4194304"
    using flash_room_range [OF assms(1-3)] assms(1) n' by auto
  obtain bytes where bytes: "load_bytes mem (command_bytes p) = Ret bytes" "length bytes = 4"
    using load_mapped [OF assms(9)] by (simp add: Let_def)
  have data: "from_user user (nat n) 0 = take (nat n) user" "length (take (nat n) user) = nat n"
    using assms(7) by simp_all
  let ?l = "start_loop (hist s) p n (bytes @ take (nat n) user)"
  have "loop_ok ?l" using rng bytes data by (intro start_loop_ok) auto
  from run_total [OF assms(8,9) this] obtain l' where run: "write_run bus mem ?l = Ret (Inr l')" by auto
  have cut: "segment (nat r) 256 (take (nat n) user) = segment (nat r) 256 user"
      "take (nat r) (take (nat n) user) = take (nat r) user"
      "segment 256 (nat (n - r - 256)) (take (nat n) user) = segment 256 (nat (n - r - 256)) user"
    if "512 < p mod 256 + n"
  proof -
    have "0 \<le> p mod 256" "p mod 256 < 256" by simp_all
    with that r have "nat r + 256 \<le> nat n" "256 + nat (n - r - 256) \<le> nat n" by linarith+
    then show "segment (nat r) 256 (take (nat n) user) = segment (nat r) 256 user"
      "take (nat r) (take (nat n) user) = take (nat r) user"
      "segment 256 (nat (n - r - 256)) (take (nat n) user) = segment 256 (nat (n - r - 256)) user"
      by (auto simp: segment_def drop_take min_def)
  qed
  have "\<exists>cs. sent (lhist l') = sent (hist s) @ cs \<and> concat (map (drop 4) cs) =
      (if p mod 256 + n \<le> 512 then take (nat n) user
       else take (nat r) user @ segment (nat r) 256 user @ segment 256 (nat (n - r - 256)) user)"
    using run_data_two_pages [OF assms(8,9) rng(1) bytes(2) data(2) _ run]
      run_data_three_pages [OF assms(8,9) rng(1) bytes(2) data(2) _ assms(10) r run] cut
    by auto
  then show ?thesis
    using run bytes(1) assms(5,6) data(1) unfolding driver_write_eq [OF assms(1-3) n'] by auto
qed

lemma w25q32_write_payload_witness:
  "\<exists>rep s'. driver_write idle_bus (\<lambda>a. Some 0) (\<lambda>n. True) (\<lambda>n. 0)
       (replicate 256 1 @ replicate 256 2 @ replicate 8 3) \<lparr>hist = [], live = 0\<rparr> 520 0 = Ret (rep, s') \<and>
     concat (map (drop 4) (sent (hist s'))) = replicate 256 1 @ replicate 256 2 @ replicate 8 2"
proof -
  have "segment 256 256 (replicate 256 1 @ replicate 256 2 @ replicate 8 3) = replicate 256 (2 :: u8)"
    "segment 256 8 (replicate 256 1 @ replicate 256 2 @ replicate 8 3) = replicate 8 (2 :: u8)"
    by (simp_all add: segment_def)
  then show ?thesis
    using w25q32_write_payload [of 0 520 520 "\<lambda>n. True" "\<lambda>n. 0"
        "replicate 256 1 @ replicate 256 2 @ replicate 8 3" idle_bus "\<lambda>a. Some 0" 256 "\<lparr>hist = [], live = 0\<rparr>"]
    by (auto simp: is_size_t_def idle_bus_answers mapped_def)
qed

section \<open>Probe and remove\<close>

text \<open>
  \<open>w25q32_probe\<close>: the answers of the calls it makes are in the environment record. The
  manufacturer and device id are read from the chip but only logged: a chip that is absent or
  foreign is registered all the same.
\<close>

record probe_env =
  alloc_answer :: kptr  \<comment> \<open>\<open>devm_kzalloc\<close>\<close>
  setup1 :: int
  setup2 :: int
  chrdev :: chrdev_env

record probe_result =
  pret :: int
  pcalls :: "kcall list"
  pminor :: int  \<comment> \<open>the global \<open>minor_count\<close>, an \<open>unsigned int\<close>\<close>
  phist :: spi_history

definition id_req :: spi_req where
  "id_req = Spi_write_then_read [MANUFACTURER_ID_READ_INST, 0x00, 0x00, 0x00] 2"

definition w25q32_probe :: "probe_env \<Rightarrow> int \<Rightarrow> spi_history \<Rightarrow> probe_result" where
  "w25q32_probe e minor_count h =
     (let c = chrdev e;
          fail = (\<lambda>ret calls h. \<lparr>pret = ret, pcalls = calls, pminor = minor_count, phist = h\<rparr>);
          t0 = [devm_alloc ''prv_data'' (alloc_answer e)] in
      if alloc_answer e = Null then fail (neg ENOMEM) t0 h
      else let t1 = t0 @ [spi_setup (setup1 e), spi_setup (setup2 e)] in
      if setup2 e \<noteq> 0 then fail (setup2 e) (t1 @ [devm_free ''prv_data'']) h
      else let h1 = h @ [id_req]; t2 = t1 @ [alloc_chrdev_region (alloc_ret c)] in
      if alloc_ret c < 0 then fail (alloc_ret c) (t2 @ [devm_free ''prv_data'']) h1
      else let t3 = t2 @ [class_create (class_ret c)] in
      if IS_ERR (class_ret c)
      then fail (PTR_ERR (class_ret c)) (t3 @ [unregister_chrdev_region, devm_free ''prv_data'']) h1
      else let t4 = t3 @ [cdev_init, cdev_add (cdev_add_ret c)] in
      if cdev_add_ret c < 0
      then fail (cdev_add_ret c)
             (t4 @ [class_destroy, unregister_chrdev_region, devm_free ''prv_data'']) h1
      else let t5 = t4 @ [device_create (class_ret c) (device_ret c)] in
      if IS_ERR (device_ret c)
      then fail (PTR_ERR (device_ret c))
             (t5 @ [cdev_del, class_destroy, unregister_chrdev_region, devm_free ''prv_data'']) h1
      else \<lparr>pret = 0, pcalls = t5, pminor = to_u32 (minor_count + 1), phist = h1\<rparr>)"

definition w25q32_remove :: "unit option \<Rightarrow> int \<Rightarrow> (int \<times> kcall list \<times> int) outcome" where
  "w25q32_remove drvdata minor_count =
     deref drvdata (\<lambda>_. Ret (0,
       [device_destroy, class_destroy, cdev_del, unregister_chrdev_region], to_u32 (minor_count - 1)))"

fun probe_documented :: "probe_env \<Rightarrow> bool" where
  "probe_documented e = (\<not> IS_ERR (alloc_answer e) \<and> documented_answers (chrdev e))"

definition w25q32_owned :: "resource list" where
  "w25q32_owned = chrdev_owned @ [Managed ''prv_data'']"

lemma w25q32_probe_stack:
  assumes "probe_documented e"
  shows "stack_ledger [] (pcalls (w25q32_probe e m h)) =
      Some (if pret (w25q32_probe e m h) = 0 then w25q32_owned else [])"
    "pret (w25q32_probe e m h) \<noteq> 0 \<Longrightarrow> pminor (w25q32_probe e m h) = m"
  using assms
  by (auto simp: w25q32_probe_def w25q32_owned_def chrdev_owned_def Let_def ledger_simps kptr_answer)

definition w25q32_load :: "int \<Rightarrow> spi_history \<Rightarrow> probe_env \<Rightarrow> int \<times> kcall list" where
  "w25q32_load m h e = (pret (w25q32_probe e m h), pcalls (w25q32_probe e m h))"

interpretation flash_probe: unwinding probe_documented "w25q32_load m h" w25q32_owned for m h
  by unfold_locales (auto simp: w25q32_load_def w25q32_probe_stack intro!: stack_ledger_imp_ledger)

text \<open>
  C38: A failed probe of the flash driver unwinds everything it did in reverse order, keeps
  \<open>minor_count\<close> and returns a nonzero code, so that any number of attempts holds the region,
  class, cdev and device once if one of them succeeds and nothing otherwise. But no probe
  stores the private structure in the device, so the remove of a bound device dereferences
  NULL and gives none of them back.
\<close>

theorem w25q32_probe_remove:
  assumes "probe_documented e" "list_all probe_documented es"
  shows "(let r = w25q32_probe e m h in
     stack_ledger [] (pcalls r) = Some (if pret r = 0 then w25q32_owned else []) \<and>
     (pret r \<noteq> 0 \<longrightarrow> pminor r = m) \<and>
     w25q32_remove (drvdata_after (pcalls r)) (pminor r) = Fault Null_deref) \<and>
   ledger [] (flash_probe.attempts m h es) =
     Some (if list_ex (\<lambda>e. pret (w25q32_probe e m h) = 0) es then w25q32_owned else [])"
proof -
  have "set_drvdata \<notin> set (pcalls (w25q32_probe e m h))"
    by (simp add: w25q32_probe_def Let_def)
  moreover have "ledger [] (flash_probe.attempts m h es) =
      Some (if list_ex (\<lambda>e. pret (w25q32_probe e m h) = 0) es then w25q32_owned else [])"
    using flash_probe.attempts_hold [OF assms(2), of m h] by (simp add: w25q32_load_def)
  ultimately show ?thesis
    using w25q32_probe_stack [OF assms(1), of m h]
    by (simp add: Let_def w25q32_remove_def drvdata_after_def)
qed

lemma w25q32_probe_remove_witness:
  "w25q32_remove (drvdata_after (pcalls (w25q32_probe
     \<lparr>alloc_answer = Ptr 1, setup1 = 0, setup2 = 0, chrdev =
       \<lparr>alloc_ret = 0, class_ret = Ptr 2, cdev_add_ret = 0, device_ret = Ptr 3\<rparr>\<rparr> 0 [])))
     (pminor (w25q32_probe
     \<lparr>alloc_answer = Ptr 1, setup1 = 0, setup2 = 0, chrdev =
       \<lparr>alloc_ret = 0, class_ret = Ptr 2, cdev_add_ret = 0, device_ret = Ptr 3\<rparr>\<rparr> 0 [])) = Fault Null_deref"
  using w25q32_probe_remove [of "\<lparr>alloc_answer = Ptr 1, setup1 = 0, setup2 = 0, chrdev =
       \<lparr>alloc_ret = 0, class_ret = Ptr 2, cdev_add_ret = 0, device_ret = Ptr 3\<rparr>\<rparr>" "[]" 0 "[]"]
  by (simp add: Let_def)

end
