(* ===== verification/W25q32_Chip.thy ===== *)
theory W25q32_Chip
  imports W25q32
begin

text \<open>
  The flash driver on the flash chip. The chip is not under src/: \<open>chip_exec\<close> is what its data
  sheet says of the instructions whose opcodes the driver lists, as far as they change the memory.
  An instruction without its write enable is ignored, an erase is executed only if the
  transaction ends right behind the address, a program only if data follow, and it clears bits
  only. \<open>chip_after\<close> runs the chip over the driver's requests. The chip is never busy when it
  gets one, because the driver waits before each (\<open>w25q32_check_busy\<close>); the quad
  program is left out, since it needs a status bit that is off when the chip is shipped and that
  no request of the driver sets. While the controller only receives, it shifts out zeros.
\<close>

unbundle bit_operations_syntax

section \<open>The chip\<close>

definition WRITE_DI :: u8 where "WRITE_DI = 0x04"
definition BLOCK_ERASE_64 :: u8 where "BLOCK_ERASE_64 = 0xD8"
definition BLOCK_ERASE_32 :: u8 where "BLOCK_ERASE_32 = 0x52"
definition SECTOR_ERASE_4 :: u8 where "SECTOR_ERASE_4 = 0x20"
definition CHIP_ERASE :: u8 where "CHIP_ERASE = 0xC7"

type_synonym cells = "int \<Rightarrow> u8"

record flash_chip =
  cells :: cells
  write_enabled :: bool  \<comment> \<open>the latch WEL\<close>

definition chip_address :: "u8 \<Rightarrow> u8 \<Rightarrow> u8 \<Rightarrow> int" where
  "chip_address a2 a1 a0 = (uint a2 * 65536 + uint a1 * 256 + uint a0) mod 4194304"

definition erase :: "int \<Rightarrow> int \<Rightarrow> cells \<Rightarrow> cells" where
  "erase len a m = (\<lambda>x. if x div len = a div len then 0xFF else m x)"

text \<open>The page latch: data beyond the end of the page wrap to its beginning.\<close>

fun latch :: "cells \<Rightarrow> int \<Rightarrow> u8 list \<Rightarrow> cells" where
  "latch f off [] = f"
| "latch f off (b # bs) = latch (f(off mod 256 := b)) (off + 1) bs"

definition program_page :: "int \<Rightarrow> u8 list \<Rightarrow> cells \<Rightarrow> cells" where
  "program_page a data m =
     (\<lambda>x. if x div 256 = a div 256 then m x AND latch (\<lambda>_. 0xFF) (a mod 256) data (x mod 256) else m x)"

fun chip_exec :: "flash_chip \<Rightarrow> u8 list \<Rightarrow> flash_chip" where
  "chip_exec c [op] =
     (if op = WRITE_EN then c\<lparr>write_enabled := True\<rparr>
      else if op = WRITE_DI then c\<lparr>write_enabled := False\<rparr>
      else if op = CHIP_ERASE \<and> write_enabled c then \<lparr>cells = (\<lambda>_. 0xFF), write_enabled = False\<rparr>
      else c)"
| "chip_exec c (op # a2 # a1 # a0 # data) =
     (let a = chip_address a2 a1 a0; over = (\<lambda>m. \<lparr>cells = m, write_enabled = False\<rparr>) in
      if \<not> write_enabled c then c
      else if data = [] then
        (if op = SECTOR_ERASE_4 then over (erase 4096 a (cells c))
         else if op = BLOCK_ERASE_32 then over (erase 32768 a (cells c))
         else if op = BLOCK_ERASE_64 then over (erase 65536 a (cells c))
         else c)
      else if op = ucast PAGE_PROGRAM then over (program_page a data (cells c))
      else c)"
| "chip_exec c _ = c"

fun wire :: "spi_req \<Rightarrow> u8 list" where
  "wire (Spi_write bs) = bs"
| "wire (Spi_write_then_read bs n) = bs @ replicate n 0"

definition chip_after :: "flash_chip \<Rightarrow> spi_history \<Rightarrow> flash_chip" where
  "chip_after c h = foldl (\<lambda>c r. chip_exec c (wire r)) c h"

lemma chip_after_simps [simp]:
  "chip_after c [] = c" "chip_after c (h @ h') = chip_after (chip_after c h) h'"
  "chip_after c (r # h) = chip_after (chip_exec c (wire r)) h"
  by (simp_all add: chip_after_def)

lemma chip_poll [simp]: "chip_exec c (wire poll_req) = c"
  by (simp add: poll_req_def)

lemma chip_polls [simp]: "chip_after c (replicate k poll_req) = c"
  by (induction k) simp_all

section \<open>What the driver sends\<close>

lemma check_busy_hist:
  "w25q32_check_busy bus h 1 = Some h' \<Longrightarrow> \<exists>k. h' = h @ replicate k poll_req"
  using check_busy_Some_gen [of bus h 1 h'] by (auto simp: polled_def simp flip: replicate_Suc)

lemma program_hist:
  assumes "program bus l n = Ret (ret, h)"
  shows "\<exists>k. h = lhist l @ replicate k poll_req @
      [Spi_write [WRITE_EN], Spi_write (segment (nat (tmp_index l)) (nat n) (txbuff l))] \<and>
    in_bounds (tmp_index l) n (txbuff l)"
  using assms check_busy_hist [of bus "lhist l"]
  by (fastforce simp: program_def w25q32_write_instruction_def Let_def split: option.splits if_splits)

text \<open>
  A transfer of a write carries the header of its loop state in front: the one loaded at the
  start (\<open>hdr\<close>), or one that the loop has put together, whose first two bytes are the same.
\<close>

definition write_header :: "u8 list \<Rightarrow> u8 list \<Rightarrow> bool" where
  "write_header hdr t \<longleftrightarrow> t = hdr \<or> (\<exists>b c d. t = [b, b, c, d])"

definition write_req :: "u8 list \<Rightarrow> spi_req \<Rightarrow> bool" where
  "write_req hdr r \<longleftrightarrow> r = poll_req \<or> r = Spi_write [WRITE_EN] \<or>
     (\<exists>t data. r = Spi_write (t @ data) \<and> length t = 4 \<and> data \<noteq> [] \<and> write_header hdr t)"

lemma segment_split:
  "p + (k + n) \<le> length xs \<Longrightarrow> segment p (k + n) xs = segment p k xs @ segment (p + k) n xs"
  by (intro nth_equalityI) (auto simp: segment_def nth_append)

lemma program_reqs:
  assumes "program bus l (n + 4) = Ret (ret, h)" "0 < n" "write_header hdr (segment (nat (tmp_index l)) 4 (txbuff l))"
  shows "\<exists>rs. h = lhist l @ rs \<and> list_all (write_req hdr) rs"
proof -
  from program_hist [OF assms(1)] obtain k where
    h: "h = lhist l @ replicate k poll_req @
      [Spi_write [WRITE_EN], Spi_write (segment (nat (tmp_index l)) (nat (n + 4)) (txbuff l))]"
    and b: "in_bounds (tmp_index l) (n + 4) (txbuff l)" by blast
  have len: "nat (tmp_index l) + (4 + nat n) \<le> length (txbuff l)" "nat (n + 4) = 4 + nat n"
    using b assms(2) by (auto simp: in_bounds_def)
  have "write_req hdr (Spi_write (segment (nat (tmp_index l)) (nat (n + 4)) (txbuff l)))"
    unfolding len(2) segment_split [OF len(1)] write_req_def
    using assms(2,3) len(1) by (auto simp: segment_def)
  then show ?thesis
    using h by (auto simp: list_all_iff write_req_def)
qed

fun run_hist :: "(spi_history + write_loop) \<Rightarrow> spi_history" where
  "run_hist (Inl h) = h"
| "run_hist (Inr l) = lhist l"

lemma turn_reqs:
  assumes "loop_ok l" "0 < tmp_count l" "write_header hdr (segment (nat (tmp_index l)) 4 (txbuff l))"
    and "write_turn bus mem l = Ret x"
  shows "(\<exists>rs. run_hist x = lhist l @ rs \<and> list_all (write_req hdr) rs) \<and>
    (\<forall>l'. x = Inr l' \<and> 0 < tmp_count l' \<longrightarrow> write_header hdr (segment (nat (tmp_index l')) 4 (txbuff l')))"
proof (cases "256 < page_offset l + tmp_count l")
  case True
  let ?r = "256 - page_offset l"
  from assms(4) True obtain ret h where h: "program bus l (?r + 4) = Ret (ret, h)"
    by (auto simp: write_turn_def loop_ok_branch [OF assms(1)] obind_Ret_iff Let_def)
  have "0 < ?r" using assms(1) by (simp add: loop_ok_def)
  from program_reqs [OF h this assms(3)] show ?thesis
    using assms(1,4) True h
    by (auto simp: write_turn_def loop_ok_branch obind_Ret_iff Let_def in_bounds_def segment_blit_same
        write_header_def load_bytes_def nat_le_iff split: if_splits)
next
  case False
  with assms(4) obtain ret h where h: "program bus l (tmp_count l + 4) = Ret (ret, h)"
    by (auto simp: write_turn_def loop_ok_branch [OF assms(1)] obind_Ret_iff)
  from program_reqs [OF h assms(2,3)] show ?thesis
    using assms(1,4) False h
    by (auto simp: write_turn_def loop_ok_branch obind_Ret_iff split: if_splits)
qed

lemma run_reqs:
  "loop_ok l \<Longrightarrow> 0 < tmp_count l \<Longrightarrow> write_header hdr (segment (nat (tmp_index l)) 4 (txbuff l)) \<Longrightarrow>
   write_run bus mem l = Ret x \<Longrightarrow> \<exists>rs. run_hist x = lhist l @ rs \<and> list_all (write_req hdr) rs"
proof (induction bus mem l arbitrary: x rule: write_run.induct)
  case (1 bus mem l)
  from 1(5) obtain y where y: "write_turn bus mem l = Ret y"
    by (auto simp: write_run.simps [of bus mem l] split: outcome.splits)
  note turn = turn_reqs [OF 1(2-4) y]
  show ?case
  proof (cases "\<exists>l'. y = Inr l' \<and> 0 < tmp_count l'")
    case True
    then obtain l' where l': "y = Inr l'" "0 < tmp_count l'" by blast
    then have "write_run bus mem l' = Ret x"
      using 1(5) y by (simp add: write_run.simps [of bus mem l])
    from 1(1) [OF y l'(1,2) _ l'(2) _ this] turn write_turn_ok [OF 1(2)] y l'
    obtain rs where "run_hist x = lhist l' @ rs" "list_all (write_req hdr) rs" by auto
    with turn l' show ?thesis by auto
  next
    case False
    then have "x = y" using 1(5) y by (auto simp: write_run.simps [of bus mem l] split: sum.splits if_splits)
    then show ?thesis using turn by blast
  qed
qed

lemma read_hist:
  assumes "0 \<le> p" "p < 4194304" "is_size_t count" "driver_read bus alloc left s count p = Ret (r, s')"
  shows "hist s' = hist s \<or> (\<exists>k. hist s' = hist s @ replicate k poll_req @ [read_req p (flash_room count p)])"
  using assms(4) check_busy_hist [of bus "hist s"] unfolding driver_read_eq [OF assms(1-3) refl]
  by (auto simp: Let_def split: if_splits option.splits prod.splits)

lemma write_hist:
  assumes "0 \<le> p" "p < 4194304" "is_size_t count" "0 < flash_room count p"
    and "driver_write bus mem alloc left user s count p = Ret (r, s')"
  shows "hist s' = hist s \<or> (\<exists>hdr rs. load_bytes mem (command_bytes p) = Ret hdr \<and> length hdr = 4 \<and>
    hist s' = hist s @ rs \<and> list_all (write_req hdr) rs)"
proof (cases "hist s' = hist s")
  case False
  let ?n = "flash_room count p"
  let ?l = "\<lambda>bytes. start_loop (hist s) p ?n (bytes @ from_user user (nat ?n) 0)"
  from False assms(5) obtain hdr x where
    hdr: "load_bytes mem (command_bytes p) = Ret hdr" and x: "write_run bus mem (?l hdr) = Ret x" "hist s' = run_hist x"
    unfolding driver_write_eq [OF assms(1-3) refl]
    by (auto simp: obind_Ret_iff case_sum_outcome split: if_splits)
  have len: "length hdr = 4" using hdr by (auto simp: Let_def dest!: load_bytes_Ret)
  have n: "?n < 4194304" using flash_room_range [OF assms(1-3)] assms(1) by simp
  have "loop_ok (?l hdr)" using assms(4) n len by (intro start_loop_ok) auto
  moreover have "write_header hdr (segment (nat (tmp_index (?l hdr))) 4 (txbuff (?l hdr)))"
    using len by (simp add: write_header_def segment_def)
  ultimately show ?thesis
    using run_reqs [OF _ _ _ x(1)] assms(4) x(2) hdr len by auto
qed simp

section \<open>What the chip makes of it\<close>

definition clears :: "cells \<Rightarrow> cells \<Rightarrow> bool" where
  \<comment> \<open>some bits went from 1 to 0, none from 0 to 1\<close>
  "clears m m' \<longleftrightarrow> (\<forall>x. m' x AND m x = m' x)"

lemma clears_refl [simp]: "clears m m"
  by (simp add: clears_def)

lemma clears_trans: "clears m m' \<Longrightarrow> clears m' m'' \<Longrightarrow> clears m m''"
  unfolding clears_def by (metis and.assoc)

lemma program_clears: "clears m (program_page a data m)"
  by (simp add: clears_def program_page_def and.assoc and.commute and.left_commute)

lemma exec_program_cells:
  assumes "data \<noteq> []"
  shows "cells (chip_exec c ([op, a2, a1, a0] @ data)) =
    (if write_enabled c \<and> op = ucast PAGE_PROGRAM then program_page (chip_address a2 a1 a0) data (cells c) else cells c)"
  using assms by (auto simp: Let_def)

definition harmless :: "spi_req \<Rightarrow> bool" where
  "harmless r \<longleftrightarrow> (\<forall>c. clears (cells c) (cells (chip_exec c (wire r))))"

lemma four: "length t = 4 \<Longrightarrow> \<exists>a b c d. t = [a, b, c, d]"
  by (auto simp: length_Suc_conv eval_nat_numeral)

lemma harmless_reqs:
  "harmless poll_req" "harmless (Spi_write [WRITE_EN])" "0 < n \<Longrightarrow> harmless (read_req p n)"
  "length t = 4 \<Longrightarrow> data \<noteq> [] \<Longrightarrow> harmless (Spi_write (t @ data))"
proof -
  show "harmless (read_req p n)" if "0 < n"
    using that exec_program_cells [of "replicate (nat n) 0"] program_clears by (auto simp: harmless_def read_req_def Let_def)
  show "harmless (Spi_write (t @ data))" if "length t = 4" "data \<noteq> []"
    using that exec_program_cells [of data] program_clears four [of t] by (auto simp: harmless_def Let_def)
qed (simp_all add: harmless_def)

lemma write_req_harmless: "write_req hdr r \<Longrightarrow> harmless r"
  unfolding write_req_def using harmless_reqs by blast

lemma harmless_run: "list_all harmless rs \<Longrightarrow> clears (cells c) (cells (chip_after c rs))"
proof (induction rs arbitrary: c)
  case (Cons r rs)
  then have "clears (cells c) (cells (chip_exec c (wire r)))" by (simp add: harmless_def)
  with Cons show ?case by (auto intro: clears_trans)
qed simp

lemma harmless_polls: "list_all harmless (replicate k poll_req)"
  using harmless_reqs(1) by (simp add: list_all_iff)

text \<open>The pages a write can reach: that of its header, and those behind \<open>0x020000\<close>.\<close>

definition reached :: "u8 list \<Rightarrow> int \<Rightarrow> bool" where
  "reached hdr x \<longleftrightarrow> (\<exists>a2 a1 a0. hdr = [ucast PAGE_PROGRAM, a2, a1, a0] \<and> x div 256 = chip_address a2 a1 a0 div 256) \<or>
     (0x020000 \<le> x \<and> x < 0x030000)"

lemma loop_header_place:
  assumes "x div 256 = chip_address 0x02 a1 a0 div 256"
  shows "0x020000 \<le> x \<and> x < 0x030000"
proof -
  have u: "0 \<le> uint a1" "uint a1 < 256" "0 \<le> uint a0" "uint a0 < 256"
    using uint_lt2p [of a1] uint_lt2p [of a0] by simp_all
  then have "chip_address 0x02 a1 a0 = uint a0 + (512 + uint a1) * 256"
    by (simp add: chip_address_def)
  then have "x div 256 = (uint a0 + (512 + uint a1) * 256) div 256" using assms by simp
  also have "\<dots> = 512 + uint a1" using u by (subst div_mult_self1) simp_all
  finally have "x div 256 = 512 + uint a1" .
  moreover have "x = x div 256 * 256 + x mod 256" "0 \<le> x mod 256" "x mod 256 < 256" by simp_all
  ultimately show ?thesis using u by linarith
qed

lemma write_req_reach:
  assumes "write_req hdr r" "length hdr = 4" "\<not> reached hdr x"
  shows "cells (chip_exec c (wire r)) x = cells c x"
proof -
  from assms(1) consider "r = poll_req" | "r = Spi_write [WRITE_EN]"
    | t data where "r = Spi_write (t @ data)" "length t = 4" "data \<noteq> []" "write_header hdr t"
    unfolding write_req_def by blast
  then show ?thesis
  proof cases
    case 3
    obtain op a2 a1 a0 where t: "t = [op, a2, a1, a0]" using four [OF 3(2)] by blast
    have "x div 256 \<noteq> chip_address a2 a1 a0 div 256" if "op = ucast PAGE_PROGRAM"
    proof (cases "t = hdr")
      case True
      then show ?thesis using assms(3) that by (auto simp: reached_def t)
    next
      case False
      then have "a2 = 0x02" using 3(4) that by (auto simp: write_header_def t PAGE_PROGRAM_def)
      then show ?thesis using loop_header_place [of x a1 a0] assms(3) by (auto simp: reached_def)
    qed
    then show ?thesis
      using exec_program_cells [OF 3(3), of c op a2 a1 a0] by (simp add: 3(1) t program_page_def del: chip_exec.simps)
  qed simp_all
qed

lemma write_reqs_reach:
  "list_all (write_req hdr) rs \<Longrightarrow> length hdr = 4 \<Longrightarrow> \<not> reached hdr x \<Longrightarrow> cells (chip_after c rs) x = cells c x"
proof (induction rs arbitrary: c)
  case (Cons r rs)
  then show ?case using write_req_reach [of hdr r x c] by simp
qed simp

text \<open>An empty write sends its header alone, which the chip may take for an erase.\<close>

definition erases :: "u8 \<Rightarrow> int \<Rightarrow> int \<Rightarrow> bool" where
  "erases op a x \<longleftrightarrow> (op = SECTOR_ERASE_4 \<and> x div 4096 = a div 4096) \<or>
     (op = BLOCK_ERASE_32 \<and> x div 32768 = a div 32768) \<or> (op = BLOCK_ERASE_64 \<and> x div 65536 = a div 65536)"

lemma exec_header_cells:
  "\<not> erases op (chip_address a2 a1 a0) x \<Longrightarrow> cells (chip_exec c [op, a2, a1, a0]) x = cells c x"
  by (auto simp: erases_def erase_def Let_def)

lemma empty_write_hist:
  assumes "0 \<le> p" "p < 4194304" "is_size_t count" "flash_room count p = 0"
    and "driver_write bus mem alloc left user s count p = Ret (r, s')"
  shows "hist s' = hist s \<or> (\<exists>hdr k. load_bytes mem (command_bytes p) = Ret hdr \<and>
    hist s' = hist s @ replicate k poll_req @ [Spi_write [WRITE_EN], Spi_write hdr])"
proof (cases "hist s' = hist s")
  case False
  let ?l = "\<lambda>bytes. start_loop (hist s) p 0 (bytes @ from_user user 0 0)"
  from False assms(4,5) obtain hdr x where
    hdr: "load_bytes mem (command_bytes p) = Ret hdr" and x: "write_run bus mem (?l hdr) = Ret x" "hist s' = run_hist x"
    unfolding driver_write_eq [OF assms(1-3) refl]
    by (auto simp: obind_Ret_iff case_sum_outcome split: if_splits)
  have len: "length hdr = 4" using hdr by (auto simp: Let_def dest!: load_bytes_Ret)
  have ok: "loop_ok (?l hdr)" using len by (intro start_loop_ok) auto
  have small: "\<not> 256 < page_offset (?l hdr) + tmp_count (?l hdr)" by (simp add: start_loop_def)
  have zero: "tmp_count (?l hdr) = 0" by (simp add: start_loop_def)
  have "to_u32 (page_offset (?l hdr) + tmp_count (?l hdr)) > W25Q32_PAGE_SIZE \<longleftrightarrow> False"
    using small loop_ok_branch(1) [OF ok] by blast
  then obtain ret h where h: "program bus (?l hdr) 4 = Ret (ret, h)" "run_hist x = h"
    using x(1) unfolding write_run.simps [of bus mem "?l hdr"] write_turn_def zero
    by (auto simp: obind_Ret_iff split: outcome.splits sum.splits if_splits)
  from program_hist [OF h(1)] have "\<exists>k. h = hist s @ replicate k poll_req @ [Spi_write [WRITE_EN], Spi_write hdr]"
    using len by (simp add: start_loop_def segment_def)
  then show ?thesis using hdr unfolding x(2) h(2) by blast
qed simp

section \<open>Sessions\<close>

text \<open>Calls that move at least one byte. The last byte of the memory cannot be moved at all.\<close>

fun carries :: "flash_call \<Rightarrow> int \<Rightarrow> bool" where
  "carries (Flash_read alloc left count) p = (0 < flash_room count p)"
| "carries (Flash_write alloc left user count) p = (0 < flash_room count p)"
| "carries _ p = True"

inductive flash_use :: "spi_bus \<Rightarrow> (u32 \<Rightarrow> u8 option) \<Rightarrow> flash_sys \<Rightarrow> flash_sys \<Rightarrow> bool" for bus mem where
  call: "flash_legal c \<Longrightarrow> carries c p \<Longrightarrow> driver_fops bus mem (s, p) c = Ret (a, y) \<Longrightarrow> flash_use bus mem (s, p) y"

inductive_cases flash_useE: "flash_use bus mem x y"

lemma call_harmless:
  assumes "pos_ok p" "flash_legal c" "carries c p" "driver_fops bus mem (s, p) c = Ret (a, s', p')"
  shows "\<exists>rs. hist s' = hist s @ rs \<and> list_all harmless rs"
proof -
  have pos: "0 \<le> p" "p < 4194304" using assms(1) by (simp_all add: pos_ok_def)
  show ?thesis
  proof (cases c)
    case (Flash_read alloc left count)
    then obtain r where "driver_read bus alloc left s count p = Ret (r, s')"
      using assms(4) by (auto simp: flash_io_def obind_Ret_iff)
    from read_hist [OF pos _ this] assms(2,3) show ?thesis
      using harmless_polls harmless_reqs(3) by (auto simp: Flash_read)
  next
    case (Flash_write alloc left user count)
    then obtain r where "driver_write bus mem alloc left user s count p = Ret (r, s')"
      using assms(4) by (auto simp: flash_io_def obind_Ret_iff)
    from write_hist [OF pos _ _ this] assms(2,3) show ?thesis
      using write_req_harmless by (fastforce simp: Flash_write list_all_iff)
  qed (use assms(4) in \<open>auto split: prod.splits\<close>)
qed

lemma use_keeps:
  assumes "flash_use bus mem y z" "pos_ok (snd y)"
  shows "pos_ok (snd z)" "clears (cells (chip_after c (hist (fst y)))) (cells (chip_after c (hist (fst z))))"
proof -
  obtain cl p s a s' p' where yz: "y = (s, p)" "z = (s', p')" "flash_legal cl" "carries cl p"
      "driver_fops bus mem (s, p) cl = Ret (a, s', p')"
    using assms(1) by (cases z) (auto elim: flash_useE)
  show "pos_ok (snd z)"
    using driver_fops_ok [of y cl bus mem] assms(2) yz by (cases a) (auto simp: flash_call_ok_def)
  obtain rs where "hist s' = hist s @ rs" "list_all harmless rs"
    using call_harmless [OF _ yz(3,4,5)] assms(2) yz(1) by auto
  then show "clears (cells (chip_after c (hist (fst y)))) (cells (chip_after c (hist (fst z))))"
    using harmless_run by (simp add: yz)
qed

section \<open>A write inside one page\<close>

lemma write_one_page:
  assumes "0 \<le> p" "p < 4194304" "is_size_t count" and n: "n = flash_room count p"
    and "alloc (n + 4)" "left n = 0" "answers bus" "load_bytes mem (command_bytes p) = Ret hdr"
    and "n \<le> int (length user)" "p mod 256 + n \<le> 256"
  shows "\<exists>r s' k. driver_write bus mem alloc left user s count p = Ret (r, s') \<and> result r = n \<and> live s' = live s \<and>
    hist s' = hist s @ replicate k poll_req @ [Spi_write [WRITE_EN], Spi_write (hdr @ take (nat n) user)]"
proof -
  have rng: "0 \<le> n" "n < 4194304"
    using flash_room_range [OF assms(1-3)] assms(1) n by auto
  have hdr: "length hdr = 4" using assms(8) by (auto simp: Let_def dest!: load_bytes_Ret)
  have data: "from_user user (nat n) 0 = take (nat n) user" "length (take (nat n) user) = nat n"
    using assms(9) by simp_all
  let ?l = "start_loop (hist s) p n (hdr @ take (nat n) user)"
  have ok: "loop_ok ?l" using rng hdr data by (intro start_loop_ok) auto
  from program_answers [OF assms(7) ok, of n] rng obtain h where h: "program bus ?l (n + 4) = Ret (0, h)" by auto
  from program_hist [OF h] obtain k where
    k: "h = hist s @ replicate k poll_req @ [Spi_write [WRITE_EN], Spi_write (segment 0 (nat (n + 4)) (hdr @ take (nat n) user))]"
    by auto
  have "segment 0 (nat (n + 4)) (hdr @ take (nat n) user) = hdr @ take (nat n) user"
    using rng hdr data(2) by (simp add: segment_def nat_add_distrib)
  moreover have "\<exists>l. write_run bus mem ?l = Ret (Inr l) \<and> lhist l = h"
    using h assms(10) loop_ok_branch(1) [OF ok]
    by (simp add: write_run.simps [of bus mem ?l] write_turn_def)
  ultimately show ?thesis
    using k assms(5,6,8) data(1) unfolding driver_write_eq [OF assms(1-3) n] by auto
qed

lemma latch_zeros:
  "latch f off (replicate n 0) (x mod 256) =
     (if \<exists>i<n. (off + int i) mod 256 = x mod 256 then 0 else f (x mod 256))"
proof (induction n arbitrary: f off)
  case (Suc n)
  have "(\<exists>i<Suc n. (off + int i) mod 256 = x mod 256) \<longleftrightarrow>
      off mod 256 = x mod 256 \<or> (\<exists>i<n. (off + 1 + int i) mod 256 = x mod 256)"
    unfolding Ex_less_Suc2 by (simp add: algebra_simps)
  then show ?case unfolding replicate_Suc latch.simps Suc by auto
qed simp

lemma program_zeros:
  assumes "256 \<le> n" "x div 256 = a div 256"
  shows "program_page a (replicate n 0) m x = 0"
proof -
  define i where "i = (x - a) mod 256"
  have i: "0 \<le> i" "i < 256" by (simp_all add: i_def)
  have "(a mod 256 + i) mod 256 = x mod 256" by (simp add: i_def mod_simps)
  then have "\<exists>j<n. (a mod 256 + int j) mod 256 = x mod 256"
    using i assms(1) by (intro exI [of _ "nat i"]) auto
  then show ?thesis using assms(2) latch_zeros by (simp add: program_page_def)
qed

lemma one_page_chip:
  assumes "0 \<le> p" "p < 4194304" "is_size_t count" "n = flash_room count p" "0 < n"
    and "alloc (n + 4)" "left n = 0" "answers bus" "load_bytes mem (command_bytes p) = Ret [op, a2, a1, a0]"
    and "n \<le> int (length user)" "p mod 256 + n \<le> 256"
  shows "\<exists>r s'. driver_write bus mem alloc left user s count p = Ret (r, s') \<and> result r = n \<and>
    chip_after c (hist s') =
      (if op = ucast PAGE_PROGRAM
       then \<lparr>cells = program_page (chip_address a2 a1 a0) (take (nat n) user) (cells (chip_after c (hist s))),
             write_enabled = False\<rparr>
       else \<lparr>cells = cells (chip_after c (hist s)), write_enabled = True\<rparr>)"
proof -
  from write_one_page [of p count n alloc left bus mem "[op, a2, a1, a0]" user s] assms obtain r s' k where
    "driver_write bus mem alloc left user s count p = Ret (r, s')" "result r = n"
    and h: "hist s' = hist s @ replicate k poll_req @ [Spi_write [WRITE_EN], Spi_write ([op, a2, a1, a0] @ take (nat n) user)]"
    by blast
  moreover have "take (nat n) user \<noteq> []" using assms(5,10) by auto
  ultimately show ?thesis by (auto simp: Let_def)
qed

text \<open>A read that succeeds has sent its request.\<close>

lemma read_success:
  assumes "0 \<le> p" "p < 4194304" "is_size_t count" "driver_read bus alloc left s count p = Ret (r, s')" "0 \<le> result r"
  shows "\<exists>k. hist s' = hist s @ replicate k poll_req @ [read_req p (flash_room count p)] \<and> result r = flash_room count p"
  using assms(4,5) check_busy_hist [of bus "hist s"] unfolding driver_read_eq [OF assms(1-3) refl]
  by (auto simp: Let_def neg_def split: if_splits option.splits prod.splits)

lemma low_byte:
  assumes "p mod 256 = uint b"
  shows "(word_of_int p :: u8) = b"
proof -
  have "uint (word_of_int p :: u8) = uint b" using assms by (simp add: uint_word_of_int)
  then show ?thesis by (simp only: word_uint_eq_iff)
qed

section \<open>Properties\<close>

text \<open>
  C8: What a write inside one page does to the chip. The driver loads the four bytes of its command
  from the kernel memory behind the command word taken as an address. If the first of them happens
  to be the program opcode, the user's bytes are programmed at the address made of the other three,
  whatever the file position was; otherwise the chip keeps its memory and stays enabled for
  writing. The caller is told in both cases that everything is written.
\<close>

theorem flash_write_lands:
  assumes "0 \<le> p" "p < 4194304" "is_size_t count" and n: "n = min count (4194303 - p)" and "0 < n"
    and "alloc (n + 4)" "left n = 0" "answers bus" "load_bytes mem (command_bytes p) = Ret [op, a2, a1, a0]"
    and "n \<le> int (length user)" "p mod 256 + n \<le> 256"
  shows "\<exists>r s'. driver_write bus mem alloc left user s count p = Ret (r, s') \<and> result r = n \<and>
    chip_after c (hist s') =
      (if op = ucast PAGE_PROGRAM
       then \<lparr>cells = program_page (chip_address a2 a1 a0) (take (nat n) user) (cells (chip_after c (hist s))),
             write_enabled = False\<rparr>
       else \<lparr>cells = cells (chip_after c (hist s)), write_enabled = True\<rparr>)"
proof -
  have n': "n = flash_room count p" by (simp add: n flash_room_def)
  show ?thesis by (rule one_page_chip [of p count n]) (use assms n' in auto)
qed

lemma flash_write_lands_witness:
  "\<exists>r s'. driver_write idle_bus (\<lambda>a. Some (if a = 0x02000000 then 2 else 0)) (\<lambda>n. True) (\<lambda>n. 0) [0x5A]
      \<lparr>hist = [], live = 0\<rparr> 1 0 = Ret (r, s') \<and> result r = 1 \<and>
     cells (chip_after \<lparr>cells = (\<lambda>_. 0xFF), write_enabled = False\<rparr> (hist s')) 0 = 0x5A"
proof -
  let ?mem = "\<lambda>a. Some (if a = 0x02000000 then 2 else 0) :: u8 option"
  have "command PAGE_PROGRAM 0 = 0x02000000" by (simp add: command_def PAGE_PROGRAM_def push_bit_eq_mult)
  then have "load_bytes ?mem (command_bytes 0) = Ret [2, 0, 0, 0]" by (simp add: load_bytes_def Let_def)
  from flash_write_lands [OF _ _ _ _ _ _ _ idle_bus_answers this, where count = 1 and n = 1 and alloc = "\<lambda>n. True" and left = "\<lambda>n. 0"
      and user = "[0x5A]" and s = "\<lparr>hist = [], live = 0\<rparr>" and c = "\<lparr>cells = (\<lambda>_. 0xFF), write_enabled = False\<rparr>"]
  show ?thesis
    by (auto simp: is_size_t_def PAGE_PROGRAM_def program_page_def chip_address_def)
qed

text \<open>
  C22: However long a write is and wherever it starts, the cells it can change do not depend on its
  position but on the header \<open>op, a2, a1, a0\<close> it loads at the start. A write that moves data changes
  memory at two places only: in the page of the header's address if \<open>op\<close> is the program opcode,
  and, with the headers the page loop puts together, between \<open>0x020000\<close> and \<open>0x02FFFF\<close>, because the
  loop stores the first byte of a header twice; everything behind the first page of a write is lost
  or ends up there. A write that moves nothing (of no bytes, or at the last byte of the memory)
  sends the header alone: it changes nothing unless \<open>op\<close> is an erase opcode, and then it erases the
  sector or block of the header's address.
\<close>

theorem flash_write_reach:
  assumes "0 \<le> p" "p < 4194304" "is_size_t count"
    and "driver_write bus mem alloc left user s count p = Ret (r, s')"
    and "load_bytes mem (command_bytes p) = Ret [op, a2, a1, a0]"
    and "if 0 < min count (4194303 - p)
      then \<not> (op = ucast PAGE_PROGRAM \<and> x div 256 = chip_address a2 a1 a0 div 256) \<and> \<not> (0x020000 \<le> x \<and> x < 0x030000)
      else \<not> erases op (chip_address a2 a1 a0) x"
  shows "cells (chip_after c (hist s')) x = cells (chip_after c (hist s)) x"
proof (cases "0 < min count (4194303 - p)")
  case False
  then have "flash_room count p = 0"
    using flash_room_range [OF assms(1-3)] by (simp add: flash_room_def min_def)
  from empty_write_hist [OF assms(1-3) this assms(4)] show ?thesis
    using exec_header_cells [of op a2 a1 a0 x] assms(5,6) False by (auto simp del: chip_exec.simps(2))
next
  case True
  then have "0 < flash_room count p" by (simp add: flash_room_def)
  from write_hist [OF assms(1-3) this assms(4)] assms(5) obtain rs where
    "hist s' = hist s @ rs" "list_all (write_req [op, a2, a1, a0]) rs" by fastforce
  moreover have "\<not> reached [op, a2, a1, a0] x" using assms(6) True by (auto simp: reached_def)
  ultimately show ?thesis using write_reqs_reach by simp
qed

lemma flash_write_reach_witness:
  "\<exists>r s'. driver_write idle_bus (\<lambda>a. Some 2) (\<lambda>n. True) (\<lambda>n. 0) (replicate 600 0) \<lparr>hist = [], live = 0\<rparr> 600 0 = Ret (r, s') \<and>
     cells (chip_after \<lparr>cells = (\<lambda>_. 0xFF), write_enabled = False\<rparr> (hist s')) 0 = 0xFF"
proof -
  let ?s = "\<lparr>hist = [], live = 0\<rparr>"
  have m: "mapped (\<lambda>a. Some 2)" by (simp add: mapped_def)
  obtain r s' where w: "driver_write idle_bus (\<lambda>a. Some 2) (\<lambda>n. True) (\<lambda>n. 0) (replicate 600 0) ?s 600 0 = Ret (r, s')"
    using w25q32_write_total [OF _ _ _ refl _ _ idle_bus_answers m, of 0 600 "\<lambda>n. True" "\<lambda>n. 0" "replicate 600 0" ?s]
    by (auto simp: is_size_t_def)
  have "load_bytes (\<lambda>a. Some 2) (command_bytes 0) = Ret [2, 2, 2, 2]" by (simp add: load_bytes_def Let_def)
  from flash_write_reach [OF _ _ _ w this, where x = 0 and c = "\<lparr>cells = (\<lambda>_. 0xFF), write_enabled = False\<rparr>"] w show ?thesis
    by (simp add: is_size_t_def chip_address_def)
qed

text \<open>
  C7: The driver has no erase, and cannot do one by accident as long as every read and write moves
  a byte: over any session of calls on an open file, with any chip answers, any memory behind the
  command words and any user data, no bit of the flash goes from 0 to 1.
\<close>

theorem flash_never_sets_a_bit:
  assumes "pos_ok (snd y)" "(flash_use bus mem)\<^sup>*\<^sup>* y z"
  shows "pos_ok (snd z) \<and> clears (cells (chip_after c (hist (fst y)))) (cells (chip_after c (hist (fst z))))"
  using assms(2,1)
proof (induction rule: rtranclp_induct)
  case (step u v)
  from step.IH [OF step.prems] use_keeps(1) [OF step.hyps(2)] use_keeps(2) [OF step.hyps(2), of c] show ?case by (blast intro: clears_trans)
qed simp

lemma flash_never_sets_a_bit_witness:
  "\<exists>z. (flash_use idle_bus (\<lambda>a. Some 2))\<^sup>*\<^sup>* (\<lparr>hist = [], live = 0\<rparr>, 0) z \<and> hist (fst z) \<noteq> [] \<and>
     clears (\<lambda>_. 0x0F) (cells (chip_after \<lparr>cells = (\<lambda>_. 0x0F), write_enabled = False\<rparr> (hist (fst z))))"
proof -
  let ?s = "\<lparr>hist = [], live = 0\<rparr>"
  let ?c = "Flash_write (\<lambda>n. True) (\<lambda>n. 0) [0x5A] 1"
  have "load_bytes (\<lambda>a. Some 2) (command_bytes 0) = Ret [2, 2, 2, 2]" by (simp add: load_bytes_def Let_def)
  from write_one_page [OF _ _ _ refl _ _ idle_bus_answers this, where count = 1 and alloc = "\<lambda>n. True" and left = "\<lambda>n. 0"
      and user = "[0x5A]" and s = ?s]
  obtain r s' where w: "driver_write idle_bus (\<lambda>a. Some 2) (\<lambda>n. True) (\<lambda>n. 0) [0x5A] ?s 1 0 = Ret (r, s')" "hist s' \<noteq> []"
    by (auto simp: is_size_t_def flash_room_def)
  have legal: "flash_legal ?c" by (simp add: is_size_t_def is_copy_answer_def)
  have "flash_use idle_bus (\<lambda>a. Some 2) (?s, 0) (s', next_pos r)"
    by (rule flash_use.call [OF legal]) (simp_all add: flash_io_def w flash_room_def)
  then have "(flash_use idle_bus (\<lambda>a. Some 2))\<^sup>*\<^sup>* (?s, 0) (s', next_pos r)" by blast
  from flash_never_sets_a_bit [OF _ this, where c = "\<lparr>cells = (\<lambda>_. 0x0F), write_enabled = False\<rparr>"] this w(2) show ?thesis
    by (intro exI [of _ "(s', next_pos r)"]) (simp add: pos_ok_def)
qed

text \<open>
  C23: A read can destroy what the flash holds. After a write whose command byte the chip did not
  take, which the driver reports as a success, the chip is still enabled for writing. A read of 256
  bytes or more at a position of 2 modulo 256 then zeroes a whole page, because its low address
  byte arrives as the program opcode and the controller shifts out zeros while it receives; and an
  empty read at a position of \<open>0x20\<close> modulo 256 erases a sector.
\<close>

theorem flash_read_destroys:
  assumes "0 \<le> p" "p < 4194304" "is_size_t count" and n: "n = min count (4194303 - p)" and "0 < n"
    and "alloc (n + 4)" "left n = 0" "answers bus" "load_bytes mem (command_bytes p) = Ret [op, a2, a1, a0]"
    and "n \<le> int (length user)" "p mod 256 + n \<le> 256" "op \<noteq> ucast PAGE_PROGRAM"
    and q: "0 \<le> q" "q < 4194304" "is_size_t k" and m: "m = min k (4194303 - q)"
    and a: "a = chip_address (word_of_int (q mod 4096 div 256)) 0 3"
  shows "\<exists>r1 s1. driver_write bus mem alloc left user s count p = Ret (r1, s1) \<and> result r1 = n \<and>
    cells (chip_after c (hist s1)) = cells (chip_after c (hist s)) \<and>
    (\<forall>alloc' left' r2 s2. driver_read bus alloc' left' s1 k q = Ret (r2, s2) \<and> 0 \<le> result r2 \<longrightarrow>
      (q mod 256 = 2 \<and> 256 \<le> m \<longrightarrow>
        (\<forall>x. x div 256 = a div 256 \<longrightarrow> cells (chip_after c (hist s2)) x = 0)) \<and>
      (q mod 256 = 0x20 \<and> m = 0 \<longrightarrow> cells (chip_after c (hist s2)) = erase 4096 a (cells (chip_after c (hist s)))))"
proof -
  have nm: "n = flash_room count p" "m = flash_room k q" by (simp_all add: n m flash_room_def)
  have "\<exists>r1 s1. driver_write bus mem alloc left user s count p = Ret (r1, s1) \<and> result r1 = n \<and>
      chip_after c (hist s1) = (if op = ucast PAGE_PROGRAM
       then \<lparr>cells = program_page (chip_address a2 a1 a0) (take (nat n) user) (cells (chip_after c (hist s))),
             write_enabled = False\<rparr>
       else \<lparr>cells = cells (chip_after c (hist s)), write_enabled = True\<rparr>)"
    by (rule one_page_chip [of p count n]) (use assms nm in auto)
  then obtain r1 s1 where w: "driver_write bus mem alloc left user s count p = Ret (r1, s1)" "result r1 = n"
      "chip_after c (hist s1) = \<lparr>cells = cells (chip_after c (hist s)), write_enabled = True\<rparr>"
    using assms(12) by auto
  have chip: "chip_after c (hist s2) = chip_exec (chip_after c (hist s1)) (wire (read_req q m))"
    if "driver_read bus alloc' left' s1 k q = Ret (r2, s2)" "0 \<le> result r2" for alloc' left' r2 s2
    using read_success [OF q that] nm(2) by auto
  have two: "q mod 256 = 2 \<Longrightarrow> (word_of_int q :: u8) = ucast PAGE_PROGRAM"
    by (rule low_byte) (simp add: PAGE_PROGRAM_def)
  have sector: "q mod 256 = 0x20 \<Longrightarrow> (word_of_int q :: u8) = SECTOR_ERASE_4"
    by (rule low_byte) (simp add: SECTOR_ERASE_4_def)
  have "cells (chip_exec (chip_after c (hist s1)) (wire (read_req q m))) x = 0"
    if "q mod 256 = 2" "256 \<le> m" "x div 256 = a div 256" for x
  proof -
    have "replicate (nat m) (0 :: u8) \<noteq> []" "256 \<le> nat m" using that(2) by auto
    then show ?thesis
      using exec_program_cells [of "replicate (nat m) 0" "chip_after c (hist s1)" "word_of_int q"
          "word_of_int (q mod 4096 div 256)" 0 3] program_zeros [of "nat m" x a] two that
      by (simp add: w(3) read_req_def a del: chip_exec.simps)
  qed
  moreover have "cells (chip_exec (chip_after c (hist s1)) (wire (read_req q m))) = erase 4096 a (cells (chip_after c (hist s)))"
    if "q mod 256 = 0x20" "m = 0"
    using that sector by (simp add: w(3) read_req_def a Let_def)
  ultimately show ?thesis using w chip by auto
qed

lemma flash_read_destroys_witness:
  "\<exists>r1 s1 r2 s2. driver_write idle_bus (\<lambda>a. Some 0) (\<lambda>n. True) (\<lambda>n. 0) [0x5A] \<lparr>hist = [], live = 0\<rparr> 1 0 = Ret (r1, s1) \<and>
     driver_read idle_bus (\<lambda>n. True) (\<lambda>n. 0) s1 512 2 = Ret (r2, s2) \<and>
     cells (chip_after \<lparr>cells = (\<lambda>_. 0x77), write_enabled = False\<rparr> (hist s1)) 100 = 0x77 \<and>
     cells (chip_after \<lparr>cells = (\<lambda>_. 0x77), write_enabled = False\<rparr> (hist s2)) 100 = 0"
proof -
  let ?c = "\<lparr>cells = (\<lambda>_. 0x77), write_enabled = False\<rparr> :: flash_chip" and ?s = "\<lparr>hist = [], live = 0\<rparr>"
  have "load_bytes (\<lambda>a. Some 0) (command_bytes 0) = Ret [0, 0, 0, 0]" by (simp add: load_bytes_def Let_def)
  from flash_read_destroys [OF _ _ _ refl _ _ _ idle_bus_answers this _ _ _ _ _ _ refl refl,
      where count = 1 and alloc = "\<lambda>n. True" and left = "\<lambda>n. 0" and user = "[0x5A]" and s = ?s and q = 2 and k = 512 and c = ?c]
  obtain r1 s1 where w: "driver_write idle_bus (\<lambda>a. Some 0) (\<lambda>n. True) (\<lambda>n. 0) [0x5A] ?s 1 0 = Ret (r1, s1)"
      "cells (chip_after ?c (hist s1)) 100 = 0x77"
    and rd: "\<forall>alloc' left' r2 s2. driver_read idle_bus alloc' left' s1 512 2 = Ret (r2, s2) \<and> 0 \<le> result r2 \<longrightarrow>
      cells (chip_after ?c (hist s2)) 100 = 0"
    by (auto simp: is_size_t_def PAGE_PROGRAM_def chip_address_def)
  obtain h where "w25q32_check_busy idle_bus (hist s1) 1 = Some h" using idle_bus_answers unfolding answers_def by blast
  then obtain r2 s2 where "driver_read idle_bus (\<lambda>n. True) (\<lambda>n. 0) s1 512 2 = Ret (r2, s2)" "0 \<le> result r2"
    using driver_read_eq [of 2 512 512 idle_bus "\<lambda>n. True" "\<lambda>n. 0" s1]
    by (auto simp: is_size_t_def flash_room_def read_req_def idle_bus_def Let_def)
  with w rd show ?thesis by blast
qed

end
