(* ===== verification/At24c256.thy ===== *)
theory At24c256
  imports Kernel Refinement
begin

text \<open>
  \<open>device_drivers/at24c256_drv/at24c256_drv1.c\<close>: an I2C driver for a 32 KiB EEPROM with a
  sysfs interface. State: the address register of the private data and the history of I2C
  transfers. Operations: the four sysfs attributes, the byte read and write, the self test,
  probe and remove. Parameters: the I2C bus with the chip, the text a user writes, the values
  of uninitialised memory, the answers of the registration calls. Sequences of accesses to the
  attributes are sessions of \<open>at24_apply\<close>; on the documented chip they implement the abstract
  \<open>eeprom_spec\<close>.
\<close>

unbundle bit_operations_syntax

section \<open>The I2C bus\<close>

record i2c_msg =
  m_addr :: u16
  m_flags :: u16
  m_len :: u16
  m_buf :: "u8 list"  \<comment> \<open>the bytes sent; for a read, what the destination held\<close>

definition I2C_M_RD :: u16 where "I2C_M_RD = 1"

type_synonym i2c_history = "i2c_msg list list"

text \<open>The answer to \<open>i2c_transfer\<close>: its return value, and the bytes received.\<close>

type_synonym i2c_bus = "i2c_history \<Rightarrow> i2c_msg list \<Rightarrow> int \<times> u8 list"

section \<open>Constants and state\<close>

definition TOTAL_MEM_SIZE :: int where "TOTAL_MEM_SIZE = 256 * 1024 div 8"

definition PAGE_SIZE_AT24C256 :: int where "PAGE_SIZE_AT24C256 = 64"
definition PAGE_COUNT :: int where "PAGE_COUNT = TOTAL_MEM_SIZE div PAGE_SIZE_AT24C256"

record i2c_private_data =
  client :: u16  \<comment> \<open>the bus address of \<open>client\<close>\<close>
  reg_addr :: u16

record at24_state =
  prv :: i2c_private_data
  xfers :: i2c_history

section \<open>Byte transfers\<close>

definition addr_msb :: "u16 \<Rightarrow> u8" where
  "addr_msb a = ucast (drop_bit 8 (a AND 0x7F00))"

definition addr_lsb :: "u16 \<Rightarrow> u8" where
  "addr_lsb a = ucast (a AND 0x00FF)"

definition read_msgs :: "u16 \<Rightarrow> u8 list \<Rightarrow> u8 \<Rightarrow> i2c_msg list" where
  "read_msgs cl reg data =
     [\<lparr>m_addr = cl, m_flags = 0, m_len = 2, m_buf = take 2 reg\<rparr>,
      \<lparr>m_addr = cl, m_flags = I2C_M_RD, m_len = 1, m_buf = [data]\<rparr>]"

definition write_msgs :: "u16 \<Rightarrow> u8 list \<Rightarrow> i2c_msg list" where
  "write_msgs cl reg = [\<lparr>m_addr = cl, m_flags = 0, m_len = 3, m_buf = take 3 reg\<rparr>]"

text \<open>\<open>*data\<close> keeps its value when the transfer delivers nothing.\<close>

definition received :: "int \<times> u8 list \<Rightarrow> u8 \<Rightarrow> u8" where
  "received ans data = (case snd ans of b # _ \<Rightarrow> b | [] \<Rightarrow> data)"

definition at24c256_i2c_byte_read ::
    "i2c_bus \<Rightarrow> i2c_history \<Rightarrow> u16 \<Rightarrow> u16 \<Rightarrow> u8 \<Rightarrow> int \<times> u8 \<times> i2c_history" where
  "at24c256_i2c_byte_read bus h cl addr data =
     (let msgs = read_msgs cl [addr_msb addr, addr_lsb addr] data;
          ans = bus h msgs in
      (if fst ans < 0 then -1 else 0, received ans data, h @ [msgs]))"

definition at24c256_i2c_byte_write ::
    "i2c_bus \<Rightarrow> i2c_history \<Rightarrow> u16 \<Rightarrow> u16 \<Rightarrow> u8 \<Rightarrow> int \<times> i2c_history" where
  "at24c256_i2c_byte_write bus h cl addr data =
     (let msgs = write_msgs cl [addr_msb addr, addr_lsb addr, data] in
      (if fst (bus h msgs) < 0 then -1 else 0, h @ [msgs]))"

text \<open>
  The self test of the probe, on cell \<open>0x0011\<close>; \<open>data0\<close> is the uninitialised local \<open>data\<close>.
\<close>

definition dummy_read_write :: "i2c_bus \<Rightarrow> i2c_history \<Rightarrow> u16 \<Rightarrow> u8 \<Rightarrow> i2c_history" where
  "dummy_read_write bus h cl data0 =
     (let m1 = read_msgs cl [0x00, 0x11, 0xF9] data0;
          data = received (bus h m1) data0;
          h1 = h @ [m1];
          data_old = data;
          m2 = write_msgs cl [0x00, 0x11, 0xF9];
          h2 = h1 @ [m2];
          m3 = read_msgs cl [0x00, 0x11, 0xF9] data;
          h3 = h2 @ [m3];
          m4 = write_msgs cl [0x00, 0x11, data_old]
      in h3 @ [m4])"

section \<open>Parsing and printing hexadecimal numbers\<close>

text \<open>\<open>char\<close> is unsigned on the target. The base the code subtracts from a digit: \<open>tmp_char\<close>.\<close>

definition tmp_char :: "u8 \<Rightarrow> u8 option" where
  "tmp_char c =
     (if c \<le> 57 \<and> c \<ge> 48 then Some 48
      else if c \<le> 102 \<and> c \<ge> 97 then Some 97
      else if c \<le> 70 \<and> c \<ge> 65 then Some 65
      else None)"

definition char_at :: "u8 list \<Rightarrow> nat \<Rightarrow> u8 outcome" where
  "char_at buf i = (if i < length buf then Ret (buf ! i) else Fault Out_of_bounds)"

text \<open>
  \<open>x << k\<close> on an \<open>int\<close>: C leaves it undefined when the shift is not smaller than the width or the
  result is not representable.
\<close>

definition shl_int :: "int \<Rightarrow> nat \<Rightarrow> int outcome" where
  "shl_int x k = (if k < 32 \<and> 0 \<le> x \<and> push_bit k x < 2 ^ 31 then Ret (push_bit k x) else Fault Undefined_shift)"

function convert_loop :: "u8 list \<Rightarrow> nat \<Rightarrow> nat \<Rightarrow> int \<Rightarrow> (int \<times> int) outcome" where
  \<comment> \<open>return value and \<open>*out\<close>\<close>
  "convert_loop inp count i out =
     (if i < count then
        (case char_at inp i of
           Ret c \<Rightarrow>
             (case tmp_char c of
                None \<Rightarrow> Ret (-1, -1)
              | Some t \<Rightarrow>
                  (case shl_int (uint c - uint t) (4 * (count - 1 - i)) of
                     Ret d \<Rightarrow> convert_loop inp count (Suc i) (d OR out)
                   | Fault e \<Rightarrow> Fault e
                   | Blocked \<Rightarrow> Blocked))
         | Fault e \<Rightarrow> Fault e
         | Blocked \<Rightarrow> Blocked)
      else Ret (0, out))"
  by pat_completeness auto
termination by (relation "measure (\<lambda>(inp, count, i, out). count - i)") auto

declare convert_loop.simps [simp del]

definition convert_char_to_hex_reg :: "u8 list \<Rightarrow> nat \<Rightarrow> (int \<times> int) outcome" where
  "convert_char_to_hex_reg inp count = convert_loop inp count 0 0"

definition hex_char :: "nat \<Rightarrow> u8" where
  \<comment> \<open>a digit as \<open>%x\<close> prints it\<close>
  "hex_char d = (if d < 10 then of_nat (48 + d) else of_nat (87 + d))"

definition hex4 :: "u16 \<Rightarrow> u8 list" where
  \<comment> \<open>\<open>%04x\<close> of a 16-bit value\<close>
  "hex4 w = map (\<lambda>i. hex_char (unat w div 16 ^ i mod 16)) [3, 2, 1, 0]"

definition hex2 :: "u8 \<Rightarrow> u8 list" where
  \<comment> \<open>\<open>%02x\<close> of a byte\<close>
  "hex2 b = map (\<lambda>i. hex_char (unat b div 16 ^ i mod 16)) [1, 0]"

section \<open>The sysfs attributes\<close>

text \<open>
  A \<open>show\<close> function fills a page and returns its length; a \<open>store\<close> function gets the text the
  user wrote, followed by a NUL (\<open>buf\<close>), and its length \<open>count\<close>.
\<close>

fun decimal :: "nat \<Rightarrow> string" where
  \<comment> \<open>\<open>%d\<close> of a number that is not negative\<close>
  "decimal n = (if n < 10 then [char_of (48 + n)] else decimal (n div 10) @ [char_of (48 + n mod 10)])"

declare decimal.simps [simp del]

definition usage_text :: string where
  "usage_text = CHR 0x0A # ''Device name: at24c256 eeprom'' @ [CHR 0x0A] @
     ''TOTAL_MEM_SIZE : '' @ decimal (nat TOTAL_MEM_SIZE) @ '' bytes (0 - '' @ decimal (nat (TOTAL_MEM_SIZE - 1)) @ '')'' @ [CHR 0x0A] @
     ''PAGE_SIZE_AT24C256 : '' @ decimal (nat PAGE_SIZE_AT24C256) @ '' bytes'' @ [CHR 0x0A] @
     ''PAGE_COUNT : '' @ decimal (nat PAGE_COUNT) @ [CHR 0x0A] @
     ''Attribues: '' @ [CHR 0x0A] @
     ''1. reg_addr : starting address to which read/write will happen (has to be hexadecimal (has to be in 2bytes format 0x0000)'' @ [CHR 0x0A] @
     ''2. read_byte : read a single byte from dev_addr, after read the dev_addr will be incremented by 1 (address roll over happens from last byte of last mempage to first byte of first mempage)'' @ [CHR 0x0A] @
     ''3. write_byte : write a single byte from dev_addr (but be in hex format), after write the dev_addr will be incremented by 1 (address roll over happens from last byte of the page to first byte of the same page)'' @ [CHR 0x0A] @
     ''4. read_page (TODO) : read a page of bytes, starting from dev_addr (Note: dev_addr should be multiple of 64 or should be zero), after operation dev_addr will be incremented by no of bytes read'' @ [CHR 0x0A] @
     ''5. write_page (TODO): write a page of bytes (must be hex/decimal format), staring from dev_addr (Note: dev_addr should be multiple of 64 or should be zero), after operation dev_addr will be incremented by no of bytes write'' @ [CHR 0x0A] @
     ''6. usage : prints usage of each functionality'' @ [CHR 0x0A]"

definition show_usage :: "int \<times> string" where
  "show_usage = (int (length usage_text), usage_text)"

text \<open>
  The text fits the page a show function gets, and the numbers it prints are those of the chip.
\<close>

lemma show_usage_fits:
  "fst show_usage < 4096" "decimal (nat TOTAL_MEM_SIZE) = ''32768''" "decimal (nat PAGE_COUNT) = ''512''"
  "PAGE_COUNT * PAGE_SIZE_AT24C256 = TOTAL_MEM_SIZE"
  by (simp_all add: show_usage_def usage_text_def TOTAL_MEM_SIZE_def PAGE_SIZE_AT24C256_def PAGE_COUNT_def
      decimal.simps char_of_def bit_0)

definition show_reg_addr :: "at24_state \<Rightarrow> int \<times> u8 list" where
  "show_reg_addr s = (let t = [48, 120] @ hex4 (reg_addr (prv s)) @ [10] in (int (length t), t))"

text \<open>The check for the \<open>0x\<close> prefix, with the short circuit of \<open>&&\<close>.\<close>

definition has_0x :: "u8 list \<Rightarrow> bool outcome" where
  "has_0x buf = obind (char_at buf 0) (\<lambda>c0. if c0 \<noteq> 48 then Ret False
     else obind (char_at buf 1) (\<lambda>c1. Ret (c1 = 120 \<or> c1 = 88)))"

definition store_reg_addr :: "at24_state \<Rightarrow> u8 list \<Rightarrow> int \<Rightarrow> (int \<times> at24_state) outcome" where
  "store_reg_addr s buf count = obind (has_0x buf) (\<lambda>prefix.
     if prefix then obind (convert_char_to_hex_reg (drop 2 buf) 4) (\<lambda>(ret, tmp_addr).
       if ret > -1 then
         if tmp_addr < TOTAL_MEM_SIZE
         then Ret (count, s\<lparr>prv := (prv s)\<lparr>reg_addr := word_of_int tmp_addr\<rparr>\<rparr>)
         else Ret (count, s)
       else Ret (neg EINVAL, s))
     else Ret (count, s))"

definition next_reg :: "u16 \<Rightarrow> u16" where
  "next_reg a = (a + 1) AND 0x7FFF"

definition show_read_byte :: "i2c_bus \<Rightarrow> u8 \<Rightarrow> at24_state \<Rightarrow> int \<times> u8 list \<times> at24_state" where
  "show_read_byte bus data0 s =
     (let (ret, data, h) = at24c256_i2c_byte_read bus (xfers s) (client (prv s)) (reg_addr (prv s)) data0;
          s1 = s\<lparr>xfers := h\<rparr> in
      if ret = -1 then (ret, [], s1)
      else let t = [48, 120] @ hex2 data @ [10] in
        (int (length t), t, s1\<lparr>prv := (prv s1)\<lparr>reg_addr := next_reg (reg_addr (prv s1))\<rparr>\<rparr>))"

definition store_write_byte :: "i2c_bus \<Rightarrow> at24_state \<Rightarrow> u8 list \<Rightarrow> int \<Rightarrow> (int \<times> at24_state) outcome" where
  "store_write_byte bus s buf count =
     (let advance = (\<lambda>s. s\<lparr>prv := (prv s)\<lparr>reg_addr := next_reg (reg_addr (prv s))\<rparr>\<rparr>) in
      obind (has_0x buf) (\<lambda>prefix.
      if prefix then obind (convert_char_to_hex_reg (drop 2 buf) 2) (\<lambda>(cret, data).
        if cret > -1 then
          let (ret, h) = at24c256_i2c_byte_write bus (xfers s) (client (prv s)) (reg_addr (prv s)) (word_of_int data);
              s1 = s\<lparr>xfers := h\<rparr> in
          if ret = -1 then Ret (ret, s1) else Ret (count, advance s1)
        else Ret (neg EINVAL, s))
      else Ret (count, advance s)))"

section \<open>Probe and remove\<close>

record at24_env =
  functionality :: bool
  kmalloc_ans :: kptr
  file_rets :: "int \<times> int \<times> int \<times> int"
  garbage_data :: u8  \<comment> \<open>the local of the self test\<close>
  garbage_reg :: u16  \<comment> \<open>\<open>devm_kmalloc\<close> does not clear the private data\<close>

definition at24c256_sysfs_register :: "int \<times> int \<times> int \<times> int \<Rightarrow> int \<times> kcall list" where
  "at24c256_sysfs_register rs = (case rs of (r1, r2, r3, r4) \<Rightarrow>
     (r4, [device_create_file ''usage_attr'' r1, device_create_file ''reg_addr_attr'' r2,
           device_create_file ''read_byte_attr'' r3, device_create_file ''write_byte_attr'' r4]))"

definition at24c256_sysfs_unregister :: "kcall list" where
  "at24c256_sysfs_unregister =
     [device_remove_file ''usage_attr'', device_remove_file ''reg_addr_attr'',
      device_remove_file ''read_byte_attr'', device_remove_file ''write_byte_attr'']"

definition at24c256_i2c_driver_probe ::
    "at24_env \<Rightarrow> i2c_bus \<Rightarrow> i2c_history \<Rightarrow> u16 \<Rightarrow> int \<times> kcall list \<times> at24_state option \<times> i2c_history" where
  \<comment> \<open>return value, calls, the private state if one was set up, the history\<close>
  "at24c256_i2c_driver_probe e bus h cl =
     (if \<not> functionality e then (neg EIO, [], None, h)
      else let t0 = [devm_alloc ''prv_data'' (kmalloc_ans e)] in
      if kmalloc_ans e = Null then (neg ENOMEM, t0, None, h)
      else let h1 = dummy_read_write bus h cl (garbage_data e);
               s = \<lparr>prv = \<lparr>client = cl, reg_addr = garbage_reg e\<rparr>, xfers = h1\<rparr>;
               (r, files) = at24c256_sysfs_register (file_rets e);
               t1 = t0 @ [set_drvdata] @ files in
      if r \<noteq> 0 then (r, t1 @ [devm_free ''prv_data''], None, h1)
      else (0, t1, Some s, h1))"

definition at24c256_i2c_driver_remove :: "int \<times> kcall list" where
  "at24c256_i2c_driver_remove = (0, at24c256_sysfs_unregister)"

section \<open>What the parser computes\<close>

definition is_letter :: "u8 \<Rightarrow> bool" where
  \<comment> \<open>\<open>a\<close> to \<open>f\<close>, \<open>A\<close> to \<open>F\<close>\<close>
  "is_letter c \<longleftrightarrow> (97 \<le> c \<and> c \<le> 102) \<or> (65 \<le> c \<and> c \<le> 70)"

definition is_hex :: "u8 \<Rightarrow> bool" where
  "is_hex c \<longleftrightarrow> (48 \<le> c \<and> c \<le> 57) \<or> is_letter c"

definition hex_digit :: "u8 \<Rightarrow> int" where
  \<comment> \<open>the value of a hexadecimal digit\<close>
  "hex_digit c = (if 97 \<le> c \<and> c \<le> 102 then uint c - 87
     else if 65 \<le> c \<and> c \<le> 70 then uint c - 55
     else if 48 \<le> c \<and> c \<le> 57 then uint c - 48 else 0)"

definition code_digit :: "u8 \<Rightarrow> int" where
  \<comment> \<open>the value the code gives a digit\<close>
  "code_digit c = (case tmp_char c of Some t \<Rightarrow> uint c - uint t | None \<Rightarrow> 0)"

lemma is_hex_tmp: "is_hex c \<longleftrightarrow> tmp_char c \<noteq> None"
  by (auto simp: is_hex_def is_letter_def tmp_char_def)

lemma hex_digit_code: "hex_digit c = code_digit c + (if is_letter c then 10 else 0)"
  by (auto simp: is_letter_def hex_digit_def code_digit_def tmp_char_def word_le_def)

definition number :: "(u8 \<Rightarrow> int) \<Rightarrow> int \<Rightarrow> u8 list \<Rightarrow> int" where
  "number v = foldl (\<lambda>acc c. 16 * acc + v c)"

lemma number_simps [simp]: "number v a [] = a" "number v a (c # cs) = number v (16 * a + v c) cs"
  by (simp_all add: number_def)

lemma tmp_char_range:
  assumes "tmp_char c = Some t"
  shows "0 \<le> uint c - uint t" "uint c - uint t < 10" "t \<noteq> 48 \<Longrightarrow> uint c - uint t < 6"
  using assms by (auto simp: tmp_char_def word_le_def split: if_splits)

lemma code_digit_range: "0 \<le> code_digit c" "code_digit c < 16"
  using tmp_char_range [of c] by (auto simp: code_digit_def split: option.splits)

lemma shift_or:
  assumes "0 \<le> d" "d < (16 :: int)"
  shows "push_bit (4 * k) d OR a * 16 ^ Suc k = (16 * a + d) * 16 ^ k"
proof -
  have d: "take_bit 4 d = d"
    using assms by (simp add: take_bit_eq_mod)
  have p16: "(16 :: int) ^ k = 2 ^ (4 * k)"
    by (simp add: power_mult)
  then have "a * 16 ^ Suc k = push_bit (4 * k) (push_bit 4 a)"
    by (simp add: push_bit_eq_mult)
  then have "push_bit (4 * k) d OR a * 16 ^ Suc k = push_bit (4 * k) (d OR push_bit 4 a)"
    by (simp add: push_bit_or)
  also have "d OR push_bit 4 a = d + push_bit 4 a"
    using concat_bit_eq [of 4 d a] concat_bit_def [of 4 d a] d by simp
  finally show ?thesis
    by (simp add: push_bit_eq_mult p16 algebra_simps)
qed

text \<open>Up to seven digits no shift overflows.\<close>

lemma shl_digit:
  assumes "0 \<le> d" "d < 16" "k < 7"
  shows "shl_int d (4 * k) = Ret (push_bit (4 * k) d)"
proof -
  have "push_bit (4 * k) d = d * 16 ^ k" by (simp add: push_bit_eq_mult power_mult)
  also have "\<dots> \<le> 15 * 16 ^ 6"
    using assms by (intro mult_mono power_increasing) simp_all
  finally show ?thesis using assms by (simp add: shl_int_def)
qed

lemma convert_loop_eq:
  assumes "i \<le> count" "i \<le> length inp" "cs = take (count - i) (drop i inp)" "count \<le> 7"
  shows "convert_loop inp count i (a * 16 ^ (count - i)) =
    (if list_all is_hex cs then
       if count \<le> length inp then Ret (0, number code_digit a cs) else Fault Out_of_bounds
     else Ret (-1, -1))"
  using assms(1-3)
proof (induction "count - i" arbitrary: i a cs)
  case 0
  then show ?case by (simp add: convert_loop.simps [of inp i i])
next
  case (Suc k)
  then have lt: "i < count" "count - Suc i = k" "count - 1 - i = k" "count - i = Suc k" by simp_all
  show ?case
  proof (cases "i < length inp")
    case True
    then have cs: "cs = inp ! i # take k (drop (Suc i) inp)"
      using Suc.prems(3) lt by (simp add: Cons_nth_drop_Suc [symmetric])
    show ?thesis
    proof (cases "tmp_char (inp ! i)")
      case None
      then show ?thesis
        using lt True cs by (simp add: convert_loop.simps [of inp count i] char_at_def is_hex_tmp)
    next
      case (Some t)
      have d: "code_digit (inp ! i) = uint (inp ! i) - uint t"
        by (simp add: code_digit_def Some)
      have "push_bit (4 * k) (uint (inp ! i) - uint t) OR a * 16 ^ Suc k =
          (16 * a + code_digit (inp ! i)) * 16 ^ k"
        using shift_or [OF code_digit_range, of k "inp ! i" a] by (simp only: d)
      moreover have "shl_int (uint (inp ! i) - uint t) (4 * k) = Ret (push_bit (4 * k) (uint (inp ! i) - uint t))"
        using code_digit_range [of "inp ! i"] lt assms(4) unfolding d by (intro shl_digit) simp_all
      ultimately have "convert_loop inp count i (a * 16 ^ (count - i)) =
          convert_loop inp count (Suc i) ((16 * a + code_digit (inp ! i)) * 16 ^ (count - Suc i))"
        using lt True Some by (simp add: convert_loop.simps [of inp count i] char_at_def)
      then show ?thesis
        using Suc.hyps(1) [of "Suc i" "take k (drop (Suc i) inp)" "16 * a + code_digit (inp ! i)"]
          lt True cs Some by (simp add: is_hex_tmp)
    qed
  next
    case False
    then have "i = length inp" "cs = []" using Suc.prems by simp_all
    then show ?thesis
      using lt by (simp add: convert_loop.simps [of inp count "length inp"] char_at_def)
  qed
qed

lemma convert_eq:
  "count \<le> 7 \<Longrightarrow> convert_char_to_hex_reg inp count =
    (if list_all is_hex (take count inp) then
       if count \<le> length inp then Ret (0, number code_digit 0 (take count inp)) else Fault Out_of_bounds
     else Ret (-1, -1))"
  using convert_loop_eq [of 0 count inp "take count inp" 0] by (simp add: convert_char_to_hex_reg_def)

lemma number_code_le:
  "a \<le> b \<Longrightarrow> number code_digit a cs \<le> number hex_digit b cs \<and>
    (a < b \<or> list_ex is_letter cs \<longrightarrow> number code_digit a cs < number hex_digit b cs)"
proof (induction cs arbitrary: a b)
  case (Cons c cs)
  have "16 * a + code_digit c \<le> 16 * b + hex_digit c"
    using Cons.prems by (simp add: hex_digit_code)
  moreover have "16 * a + code_digit c < 16 * b + hex_digit c" if "a < b \<or> is_letter c"
    using Cons.prems that by (auto simp: hex_digit_code)
  ultimately show ?case
    using Cons.IH [of "16 * a + code_digit c" "16 * b + hex_digit c"] by auto
qed simp

lemma number_code_eq: "\<not> list_ex is_letter cs \<Longrightarrow> number code_digit a cs = number hex_digit a cs"
  by (induction cs arbitrary: a) (auto simp: hex_digit_code)

lemma number_nonneg: "0 \<le> a \<Longrightarrow> 0 \<le> number code_digit a cs"
  by (induction cs arbitrary: a) (auto simp: code_digit_range)

section \<open>The address register\<close>

definition reg_ok :: "at24_state \<Rightarrow> bool" where
  "reg_ok s \<longleftrightarrow> unat (reg_addr (prv s)) < 32768"

lemma next_reg_eq: "next_reg a = word_of_int ((uint a + 1) mod 32768)"
proof -
  have "(0x7FFF :: u16) = mask 15" by (simp add: mask_eq_exp_minus_1)
  then have "next_reg a = take_bit 15 (a + 1)"
    by (simp only: next_reg_def take_bit_eq_mask)
  also have "a + 1 = word_of_int (uint a + 1)"
    by simp
  also have "take_bit 15 (word_of_int (uint a + 1)) = (word_of_int (take_bit 15 (uint a + 1)) :: u16)"
    by (rule take_bit_of_int)
  finally show ?thesis by (simp add: take_bit_eq_mod)
qed

lemma unat_of_small: "0 \<le> x \<Longrightarrow> x < 65536 \<Longrightarrow> unat (word_of_int x :: u16) = nat x"
  by (simp add: unat_eq_nat_uint uint_word_of_int)

lemma next_reg_small: "unat (next_reg a) < 32768"
  by (simp add: next_reg_eq unat_of_small nat_less_iff)

text \<open>The text of a user, as a store function receives it.\<close>

definition nul_terminated :: "u8 list \<Rightarrow> bool" where
  "nul_terminated buf \<longleftrightarrow> buf \<noteq> [] \<and> last buf = 0"

lemma nul_not_hex [simp]: "\<not> is_hex 0"
  by (simp add: is_hex_tmp tmp_char_def)

lemma nul_stops:
  assumes "nul_terminated buf" "list_all is_hex (take n (drop k buf))" "k < length buf"
  shows "n \<le> length (drop k buf)"
proof (rule ccontr)
  assume "\<not> n \<le> length (drop k buf)"
  then have "take n (drop k buf) = drop k buf" by simp
  moreover have "last buf \<in> set (drop k buf)"
    using assms(3) by (metis drop_eq_Nil2 last_drop last_in_set not_le)
  ultimately show False
    using assms(1,2) by (auto simp: nul_terminated_def list_all_iff)
qed

lemma has_0x_text:
  assumes "nul_terminated buf"
  shows "\<exists>b. has_0x buf = Ret b \<and> (b \<longrightarrow> 2 < length buf)"
proof -
  have "1 < length buf" if "buf ! 0 = 48"
    using assms that by (cases buf rule: rev_cases) (auto simp: nul_terminated_def nth_append split: if_splits)
  moreover have "2 < length buf" if "1 < length buf" "buf ! 1 = 120 \<or> buf ! 1 = 88"
  proof (rule ccontr)
    assume "\<not> 2 < length buf"
    then have "length buf = 2"
      using that(1) by simp
    then have "last buf = buf ! 1"
      by (subst last_conv_nth) auto
    then show False using assms that(2) by (auto simp: nul_terminated_def)
  qed
  ultimately show ?thesis
    using assms by (auto simp: has_0x_def char_at_def nul_terminated_def)
qed

text \<open>On a NUL-terminated text the parser never reads behind the NUL.\<close>

lemma convert_text:
  assumes "nul_terminated buf" "2 < length buf" "n \<le> 7"
  shows "convert_char_to_hex_reg (drop 2 buf) n =
    Ret (if list_all is_hex (take n (drop 2 buf)) then (0, number code_digit 0 (take n (drop 2 buf))) else (-1, -1))"
  using nul_stops [OF assms(1) _ assms(2), of n] assms(3) by (simp add: convert_eq)

text \<open>Accesses to the attributes; the answer is the return value and the text for the reader.\<close>

datatype at24_op =
  Show_reg_addr
| Store_reg_addr "u8 list" int
| Show_read_byte u8
| Store_write_byte "u8 list" int

type_synonym at24_answer = "int \<times> u8 list"

fun at24_apply :: "i2c_bus \<Rightarrow> at24_state \<Rightarrow> at24_op \<Rightarrow> (at24_answer \<times> at24_state) outcome" where
  "at24_apply bus s Show_reg_addr = Ret (show_reg_addr s, s)"
| "at24_apply bus s (Store_reg_addr buf n) = obind (store_reg_addr s buf n) (\<lambda>(r, s'). Ret ((r, []), s'))"
| "at24_apply bus s (Show_read_byte g) = (let (r, t, s') = show_read_byte bus g s in Ret ((r, t), s'))"
| "at24_apply bus s (Store_write_byte buf n) = obind (store_write_byte bus s buf n) (\<lambda>(r, s'). Ret ((r, []), s'))"

abbreviation at24_run :: "i2c_bus \<Rightarrow> at24_state \<Rightarrow> at24_op list \<Rightarrow> (at24_answer list \<times> at24_state) outcome" where
  "at24_run bus \<equiv> session (at24_apply bus)"

fun text_op :: "at24_op \<Rightarrow> bool" where
  "text_op (Store_reg_addr buf n) = nul_terminated buf"
| "text_op (Store_write_byte buf n) = nul_terminated buf"
| "text_op _ = True"

lemma store_ok:
  assumes "nul_terminated buf"
  shows "\<exists>r s'. store_reg_addr s buf n = Ret (r, s') \<and> (reg_ok s \<longrightarrow> reg_ok s')"
    and "\<exists>r s'. store_write_byte bus s buf n = Ret (r, s') \<and> (reg_ok s \<longrightarrow> reg_ok s')"
proof -
  from has_0x_text [OF assms] obtain b where b: "has_0x buf = Ret b" "b \<longrightarrow> 2 < length buf" by blast
  show "\<exists>r s'. store_reg_addr s buf n = Ret (r, s') \<and> (reg_ok s \<longrightarrow> reg_ok s')"
    using b convert_text [OF assms, of 4] number_nonneg [of 0 "take 4 (drop 2 buf)"]
    by (cases b) (auto simp: store_reg_addr_def reg_ok_def TOTAL_MEM_SIZE_def unat_of_small nat_less_iff)
  show "\<exists>r s'. store_write_byte bus s buf n = Ret (r, s') \<and> (reg_ok s \<longrightarrow> reg_ok s')"
    using b convert_text [OF assms, of 2]
    by (cases b) (auto simp: store_write_byte_def reg_ok_def next_reg_small Let_def split: prod.splits)
qed

lemma show_ok: "reg_ok s \<Longrightarrow> reg_ok (snd (snd (show_read_byte bus g s)))"
  by (simp add: show_read_byte_def reg_ok_def next_reg_small Let_def split: prod.splits)

lemma at24_apply_ok:
  assumes "text_op x"
  shows "\<exists>r s'. at24_apply bus s x = Ret (r, s') \<and> (reg_ok s \<longrightarrow> reg_ok s')"
proof (cases x)
  case (Store_reg_addr buf n)
  with assms store_ok(1) [of buf s n] show ?thesis by auto
next
  case (Store_write_byte buf n)
  with assms store_ok(2) [of buf bus s n] show ?thesis by auto
next
  case (Show_read_byte g)
  then show ?thesis using show_ok [of s bus g] by (cases "show_read_byte bus g s") auto
qed simp

lemma at24_run_ok:
  "list_all text_op xs \<Longrightarrow>
   \<exists>rs s'. at24_run bus s xs = Ret (rs, s') \<and> length rs = length xs \<and> (reg_ok s \<longrightarrow> reg_ok s')"
proof (induction xs arbitrary: s)
  case (Cons x xs)
  then obtain r s1 where "at24_apply bus s x = Ret (r, s1)" "reg_ok s \<longrightarrow> reg_ok s1"
    using at24_apply_ok [of x bus s] by fastforce
  with Cons.IH [of s1] Cons.prems show ?case by auto
qed simp


section \<open>Printing and parsing back\<close>

lemma hex_char_props:
  assumes "d < 16"
  shows "is_hex (hex_char d)" "hex_digit (hex_char d) = int d" "is_letter (hex_char d) \<longleftrightarrow> 10 \<le> d"
proof -
  have "d = 0 \<or> d = 1 \<or> d = 2 \<or> d = 3 \<or> d = 4 \<or> d = 5 \<or> d = 6 \<or> d = 7 \<or> d = 8 \<or> d = 9 \<or>
      d = 10 \<or> d = 11 \<or> d = 12 \<or> d = 13 \<or> d = 14 \<or> d = 15"
    using assms by presburger
  then have "is_hex (hex_char d) \<and> hex_digit (hex_char d) = int d \<and> (is_letter (hex_char d) \<longleftrightarrow> 10 \<le> d)"
    by (elim disjE) (simp_all add: hex_char_def is_hex_def hex_digit_def is_letter_def)
  then show "is_hex (hex_char d)" "hex_digit (hex_char d) = int d" "is_letter (hex_char d) \<longleftrightarrow> 10 \<le> d"
    by blast+
qed

definition nibbles :: "u16 \<Rightarrow> nat list" where
  "nibbles w = map (\<lambda>i. unat w div 16 ^ i mod 16) [3, 2, 1, 0]"

lemma nibbles_small: "d \<in> set (nibbles w) \<Longrightarrow> d < 16"
  by (auto simp: nibbles_def)

lemma four_digits:
  "a = 16 * b + r0 \<Longrightarrow> b = 16 * c + r1 \<Longrightarrow> c = 16 * d + r2 \<Longrightarrow>
   16 * (16 * (16 * d + r2) + r1) + r0 = (a :: nat)"
  by simp

lemma number_hex4: "number hex_digit 0 (hex4 w) = int (unat w)"
proof -
  have lt: "unat w < 65536" using unsigned_less [of w, where ?'a = nat] by simp
  have "number hex_digit 0 (hex4 w) =
      16 * (16 * (16 * int (unat w div 4096 mod 16) + int (unat w div 256 mod 16)) + int (unat w div 16 mod 16))
        + int (unat w mod 16)"
    by (simp add: hex4_def hex_char_props)
  also have "\<dots> = int (unat w)"
  proof -
    let ?a = "unat w"
    have "?a div 4096 < 16" using lt by (simp add: less_mult_imp_div_less)
    then have top: "?a div 4096 mod 16 = ?a div 4096" by simp
    have "?a = 16 * (?a div 16) + ?a mod 16" "?a div 16 = 16 * (?a div 256) + ?a div 16 mod 16"
      "?a div 256 = 16 * (?a div 4096) + ?a div 256 mod 16"
      using mult_div_mod_eq [of 16 "?a div 16"] mult_div_mod_eq [of 16 "?a div 256"]
      by (simp_all add: div_mult2_eq [symmetric])
    then have "16 * (16 * (16 * (?a div 4096) + ?a div 256 mod 16) + ?a div 16 mod 16) + ?a mod 16 = ?a"
      by (rule four_digits)
    then have "int (16 * (16 * (16 * (?a div 4096) + ?a div 256 mod 16) + ?a div 16 mod 16) + ?a mod 16) = int ?a"
      by (rule arg_cong)
    then show ?thesis unfolding top by (simp only: of_nat_add of_nat_mult of_nat_numeral)
  qed
  finally show ?thesis .
qed

lemma hex4_letters: "list_ex is_letter (hex4 w) \<longleftrightarrow> (\<exists>d\<in>set (nibbles w). 10 \<le> d)"
  by (auto simp: hex4_def nibbles_def hex_char_props)

lemma hex4_hex: "list_all is_hex (hex4 w)" "length (hex4 w) = 4"
  by (auto simp: hex4_def hex_char_props)

section \<open>Memory behind the bus\<close>

text \<open>
  What the documented chip does: a three byte write stores the third byte at the 15-bit address
  of the first two; a two byte write followed by a one byte read delivers that cell.
\<close>

definition cell :: "u8 \<Rightarrow> u8 \<Rightarrow> u16" where
  "cell hi lo = (push_bit 8 (ucast hi) OR ucast lo) AND 0x7FFF"

fun written :: "i2c_msg list \<Rightarrow> (u16 \<times> u8) option" where
  "written [m] = (case m_buf m of [hi, lo, d] \<Rightarrow> if m_flags m = 0 then Some (cell hi lo, d) else None | _ \<Rightarrow> None)"
| "written _ = None"

text \<open>
  After each write the chip is busy for some milliseconds, its write cycle; it acknowledges nothing
  then, and a transfer it does not acknowledge fails and changes nothing. Time is not in the
  history: \<open>rdy h\<close> says whether the chip is ready when the transfer behind the history \<open>h\<close> is
  made. It is ready as long as nothing was written.
\<close>

type_synonym readiness = "i2c_history \<Rightarrow> bool"

fun store_from :: "readiness \<Rightarrow> i2c_history \<Rightarrow> i2c_history \<Rightarrow> (u16 \<Rightarrow> u8) \<Rightarrow> u16 \<Rightarrow> u8" where
  "store_from rdy past [] mem = mem"
| "store_from rdy past (x # xs) mem = store_from rdy (past @ [x]) xs
     (if rdy past then (case written x of Some (a, d) \<Rightarrow> mem(a := d) | None \<Rightarrow> mem) else mem)"

definition contents :: "readiness \<Rightarrow> (u16 \<Rightarrow> u8) \<Rightarrow> i2c_history \<Rightarrow> u16 \<Rightarrow> u8" where
  "contents rdy mem0 h = store_from rdy [] h mem0"

definition at24_chip :: "readiness \<Rightarrow> i2c_bus \<Rightarrow> u16 \<Rightarrow> (u16 \<Rightarrow> u8) \<Rightarrow> bool" where
  "at24_chip rdy bus cl mem0 \<longleftrightarrow>
     (\<forall>h. (\<forall>x\<in>set h. written x = None) \<longrightarrow> rdy h) \<and>
     (\<forall>h hi lo t g. rdy h \<longrightarrow> bus h (read_msgs cl (hi # lo # t) g) = (2, [contents rdy mem0 h (cell hi lo)])) \<and>
     (\<forall>h hi lo d. rdy h \<longrightarrow> fst (bus h (write_msgs cl [hi, lo, d])) = 1) \<and>
     (\<forall>h msgs. \<not> rdy h \<longrightarrow> fst (bus h msgs) < 0 \<and> snd (bus h msgs) = [])"

text \<open>From here on every transfer finds the chip ready: its user waits for the write cycles.\<close>

definition rested :: "readiness \<Rightarrow> i2c_history \<Rightarrow> bool" where
  "rested rdy h \<longleftrightarrow> (\<forall>t. rdy (h @ t))"

lemma rested_ready: "rested rdy h \<Longrightarrow> rdy h"
  unfolding rested_def by (metis append_Nil2)

lemma rested_append: "rested rdy h \<Longrightarrow> rested rdy (h @ t)"
  by (simp add: rested_def)

lemma contents_Nil: "contents rdy mem0 [] = mem0"
  by (simp add: contents_def)

lemma store_from_snoc: "store_from rdy past (h @ [x]) mem =
    (if rdy (past @ h) then (case written x of Some (a, d) \<Rightarrow> (store_from rdy past h mem)(a := d)
       | None \<Rightarrow> store_from rdy past h mem) else store_from rdy past h mem)"
  by (induction h arbitrary: past mem) (auto split: option.splits)

lemma written_msgs [simp]:
  "written (read_msgs cl reg g) = None" "written (write_msgs cl [hi, lo, d]) = Some (cell hi lo, d)"
  by (simp_all add: read_msgs_def write_msgs_def)

lemma contents_snoc [simp]:
  "contents rdy mem0 (h @ [read_msgs cl reg g]) = contents rdy mem0 h"
  "contents rdy mem0 (h @ [write_msgs cl [hi, lo, d]]) =
    (if rdy h then (contents rdy mem0 h)(cell hi lo := d) else contents rdy mem0 h)"
  by (simp_all add: contents_def store_from_snoc)

lemma cell_of_addr:
  assumes "unat a < 32768"
  shows "cell (addr_msb a) (addr_lsb a) = a"
proof -
  have "take_bit 15 a = a"
    using assms by (simp add: word_unat_eq_iff unsigned_take_bit_eq take_bit_nat_eq_self)
  then have hi: "n < 15" if "bit a n" for n
    using that by (metis bit_take_bit_iff)
  have masks: "(0x7F00 :: u16) = push_bit 8 (mask 7)" "(0x00FF :: u16) = mask 8" "(0x7FFF :: u16) = mask 15"
    by (simp_all add: mask_eq_exp_minus_1)
  show ?thesis
    unfolding cell_def addr_msb_def addr_lsb_def masks
    by (rule bit_word_eqI) (auto simp: bit_simps dest: hi)
qed

lemma cell_inj_addr: "unat a < 32768 \<Longrightarrow> unat b < 32768 \<Longrightarrow>
  cell (addr_msb a) (addr_lsb a) = cell (addr_msb b) (addr_lsb b) \<longleftrightarrow> a = b"
  by (simp add: cell_of_addr)

section \<open>A burst of bytes\<close>

text \<open>
  A user writes a list of bytes to \<open>write_byte_attr\<close>, each as \<open>%02x\<close> prints it, and reads the
  memory back through \<open>read_byte_attr\<close>.
\<close>

definition byte_text :: "u8 \<Rightarrow> u8 list" where
  "byte_text d = [48, 120] @ hex2 d @ [10, 0]"

definition coded :: "u8 \<Rightarrow> u8" where
  \<comment> \<open>what the parser makes of the printed byte\<close>
  "coded d = word_of_int (number code_digit 0 (hex2 d))"

definition write_burst :: "u8 list \<Rightarrow> at24_op list" where
  "write_burst ds = map (\<lambda>d. Store_write_byte (byte_text d) 5) ds"

fun read_burst :: "i2c_bus \<Rightarrow> u8 \<Rightarrow> nat \<Rightarrow> at24_state \<Rightarrow> u8 list list" where
  "read_burst bus g 0 s = []"
| "read_burst bus g (Suc n) s = (let (r, t, s') = show_read_byte bus g s in t # read_burst bus g n s')"

definition adr :: "u16 \<Rightarrow> nat \<Rightarrow> u16" where
  "adr a i = word_of_int ((uint a + int i) mod 32768)"

lemma uint_adr: "uint (adr a i) = (uint a + int i) mod 32768"
  unfolding adr_def by (subst uint_word_of_int) (simp add: mod_pos_pos_trivial)

lemma adr_0: "unat a < 32768 \<Longrightarrow> adr a 0 = a"
proof -
  assume "unat a < 32768"
  then have "int (unat a) < 32768" by linarith
  then have "uint a < 32768" by simp
  then have "(uint a + int 0) mod 32768 = uint a" by (simp add: mod_pos_pos_trivial)
  then show ?thesis unfolding adr_def by (simp only: word_of_int_uint)
qed

lemma adr_next: "adr (next_reg a) i = adr a (Suc i)"
proof -
  have "uint (next_reg a) = (uint a + 1) mod 32768"
    unfolding next_reg_eq by (subst uint_word_of_int) simp
  then have "(uint (next_reg a) + int i) mod 32768 = (uint a + int (Suc i)) mod 32768"
    using mod_add_left_eq [of "uint a + 1" 32768 "int i"] by (simp add: algebra_simps)
  then show ?thesis by (simp add: adr_def)
qed

lemma adr_inj:
  assumes "i < 32768" "j < 32768" "adr a i = adr a j"
  shows "i = j"
proof -
  have "(uint a + int i) mod 32768 = (uint a + int j) mod 32768"
    using assms(3) by (metis uint_adr)
  then have "int i mod 32768 = int j mod 32768"
    by (simp add: mod_eq_dvd_iff)
  then show ?thesis using assms(1,2) by simp
qed

lemma hex2_props: "list_all is_hex (hex2 d)" "length (hex2 d) = 2"
  by (simp_all add: hex2_def hex_char_props)

lemma has_0x_printed [simp]: "has_0x (48 # 120 # t) = Ret True"
  by (simp add: has_0x_def char_at_def)

definition advanced :: "at24_state \<Rightarrow> at24_state" where
  "advanced s = s\<lparr>prv := (prv s)\<lparr>reg_addr := next_reg (reg_addr (prv s))\<rparr>\<rparr>"

definition after_write :: "at24_state \<Rightarrow> u8 \<Rightarrow> at24_state" where
  "after_write s b = s\<lparr>xfers := xfers s @ [write_msgs (client (prv s))
     [addr_msb (reg_addr (prv s)), addr_lsb (reg_addr (prv s)), b]]\<rparr>"

lemma store_write_printed:
  assumes "at24_chip rdy bus (client (prv s)) mem0" "rdy (xfers s)"
  shows "store_write_byte bus s (byte_text d) 5 = Ret (5, advanced (after_write s (coded d)))"
proof -
  have "convert_char_to_hex_reg (hex2 d @ [10, 0]) 2 = Ret (0, number code_digit 0 (hex2 d))"
    using hex2_props [of d] by (simp add: convert_eq)
  moreover have "\<not> fst (bus (xfers s) (write_msgs (client (prv s)) [hi, lo, v])) < 0" for hi lo v
    using assms by (simp add: at24_chip_def)
  ultimately show ?thesis
    by (simp add: store_write_byte_def byte_text_def at24c256_i2c_byte_write_def Let_def
        advanced_def after_write_def coded_def)
qed

lemma show_read_chip:
  assumes "at24_chip rdy bus (client (prv s)) mem0" "reg_ok s" "rested rdy (xfers s)"
  shows "\<exists>s'. show_read_byte bus g s =
      (5, [48, 120] @ hex2 (contents rdy mem0 (xfers s) (reg_addr (prv s))) @ [10], advanced s') \<and>
    prv s' = prv s \<and> contents rdy mem0 (xfers s') = contents rdy mem0 (xfers s) \<and> rested rdy (xfers s')"
  using assms cell_of_addr [of "reg_addr (prv s)"] rested_ready [OF assms(3)] rested_append [OF assms(3)]
  by (auto simp: show_read_byte_def at24c256_i2c_byte_read_def at24_chip_def received_def reg_ok_def
      advanced_def hex2_props Let_def intro!: exI [of _ "s\<lparr>xfers := xfers s @ [m]\<rparr>" for m])

lemma advanced_simps [simp]:
  "reg_ok (advanced s)" "client (prv (advanced s)) = client (prv s)" "xfers (advanced s) = xfers s"
  "reg_addr (prv (advanced s)) = next_reg (reg_addr (prv s))"
  by (simp_all add: advanced_def reg_ok_def next_reg_small)

lemma after_write_simps [simp]:
  "prv (after_write s b) = prv s"
  "reg_ok s \<Longrightarrow> rested rdy (xfers s) \<Longrightarrow>
    contents rdy mem0 (xfers (after_write s b)) = (contents rdy mem0 (xfers s))(reg_addr (prv s) := b)"
  "rested rdy (xfers s) \<Longrightarrow> rested rdy (xfers (after_write s b))"
  by (simp_all add: after_write_def reg_ok_def cell_of_addr rested_ready rested_append)

lemma read_burst_contents:
  assumes "at24_chip rdy bus (client (prv s)) mem0" "reg_ok s" "rested rdy (xfers s)"
  shows "read_burst bus g n s =
    map (\<lambda>i. [48, 120] @ hex2 (contents rdy mem0 (xfers s) (adr (reg_addr (prv s)) i)) @ [10]) [0..<n]"
  using assms
proof (induction n arbitrary: s)
  case (Suc n)
  from show_read_chip [OF Suc.prems, of g] obtain s' where s': "show_read_byte bus g s =
      (5, [48, 120] @ hex2 (contents rdy mem0 (xfers s) (reg_addr (prv s))) @ [10], advanced s')"
    "prv s' = prv s" "contents rdy mem0 (xfers s') = contents rdy mem0 (xfers s)" "rested rdy (xfers s')" by blast
  have "[0..<Suc n] = 0 # map Suc [0..<n]"
    by (simp add: upt_conv_Cons map_Suc_upt del: upt_Suc)
  moreover have "adr (reg_addr (prv s)) 0 = reg_addr (prv s)"
    using Suc.prems(2) by (simp add: reg_ok_def adr_0)
  ultimately show ?case
    using Suc.IH [of "advanced s'"] Suc.prems(1) s' by (simp add: adr_next)
qed simp

lemma write_burst_contents:
  assumes "at24_chip rdy bus (client (prv s)) mem0" "reg_ok s" "rested rdy (xfers s)" "length ds \<le> 32768"
  shows "\<exists>s'. at24_run bus s (write_burst ds) = Ret (replicate (length ds) (5, []), s') \<and>
    client (prv s') = client (prv s) \<and> reg_ok s' \<and> rested rdy (xfers s') \<and>
    (\<forall>i<length ds. contents rdy mem0 (xfers s') (adr (reg_addr (prv s)) i) = coded (ds ! i)) \<and>
    (\<forall>x. (\<forall>i<length ds. x \<noteq> adr (reg_addr (prv s)) i) \<longrightarrow>
       contents rdy mem0 (xfers s') x = contents rdy mem0 (xfers s) x)"
  using assms
proof (induction ds arbitrary: s)
  case Nil
  then show ?case by (simp add: write_burst_def)
next
  case (Cons d ds)
  let ?a = "reg_addr (prv s)" and ?s = "advanced (after_write s (coded d))"
  from Cons.IH [of ?s] Cons.prems obtain s' where s': "at24_run bus ?s (write_burst ds) =
      Ret (replicate (length ds) (5, []), s')" "client (prv s') = client (prv s)" "reg_ok s'" "rested rdy (xfers s')"
    "\<And>i. i < length ds \<Longrightarrow> contents rdy mem0 (xfers s') (adr ?a (Suc i)) = coded (ds ! i)"
    "\<And>x. (\<And>i. i < length ds \<Longrightarrow> x \<noteq> adr ?a (Suc i)) \<Longrightarrow>
       contents rdy mem0 (xfers s') x = ((contents rdy mem0 (xfers s))(?a := coded d)) x"
    by (auto simp: adr_next)
  have a0: "adr ?a 0 = ?a" using Cons.prems(2) by (simp add: reg_ok_def adr_0)
  have "?a \<noteq> adr ?a (Suc i)" if "i < length ds" for i
    using adr_inj [of 0 "Suc i" ?a] that Cons.prems(4) a0 by auto
  then have first: "contents rdy mem0 (xfers s') (adr ?a 0) = coded d"
    using s'(6) [of ?a] a0 by simp
  have "contents rdy mem0 (xfers s') x = contents rdy mem0 (xfers s) x"
    if "\<forall>i<length (d # ds). x \<noteq> adr ?a i" for x
    using s'(6) [of x] that a0 by force
  moreover have "contents rdy mem0 (xfers s') (adr ?a i) = coded ((d # ds) ! i)" if "i < length (d # ds)" for i
    using that first s'(5) by (cases i) auto
  moreover have "at24_run bus s (write_burst (d # ds)) = Ret (replicate (length (d # ds)) (5, []), s')"
    using store_write_printed [OF Cons.prems(1) rested_ready [OF Cons.prems(3)], of d] s'(1) by (simp add: write_burst_def)
  ultimately show ?case using s'(2-4) by blast
qed

section \<open>Bounds of the parsed numbers\<close>

text \<open>The code never counts a digit for more than nine.\<close>

lemma code_digit_nine: "code_digit c \<le> 9"
  using tmp_char_range [of c] by (auto simp: code_digit_def split: option.splits)

lemma number_range:
  assumes "0 \<le> a"
  shows "a * 16 ^ length cs \<le> number code_digit a cs"
    and "5 * number code_digit a cs \<le> (5 * a + 3) * 16 ^ length cs - 3"
  using assms
proof (induction cs arbitrary: a)
  case (Cons c cs)
  {
    case 1
    have "a * 16 ^ length (c # cs) \<le> (16 * a + code_digit c) * 16 ^ length cs"
      using mult_right_mono [OF code_digit_range(1) [of c], of "16 ^ length cs"] by (simp add: algebra_simps)
    also have "\<dots> \<le> number code_digit (16 * a + code_digit c) cs"
      using Cons.IH(1) [of "16 * a + code_digit c"] 1 code_digit_range(1) [of c] by simp
    finally show ?case by simp
  next
    case 2
    have "5 * number code_digit (16 * a + code_digit c) cs \<le>
        (5 * (16 * a + code_digit c) + 3) * 16 ^ length cs - 3"
      using Cons.IH(2) [of "16 * a + code_digit c"] 2 code_digit_range(1) [of c] by simp
    also have "(5 * (16 * a + code_digit c) + 3) * 16 ^ length cs \<le> ((5 * a + 3) * 16) * 16 ^ length cs"
      using code_digit_nine [of c] by (intro mult_right_mono) simp_all
    finally show ?case by (simp add: algebra_simps)
  }
qed simp_all

lemma number_bound: "5 * number code_digit 0 cs \<le> 3 * (16 ^ length cs - 1)"
  using number_range(2) [of 0 cs] by (simp add: algebra_simps)

lemma number_nines: "5 * number code_digit a (replicate n 57) = (5 * a + 3) * 16 ^ n - 3"
proof (induction n arbitrary: a)
  case (Suc n)
  have "code_digit 57 = 9" by (simp add: code_digit_def tmp_char_def)
  then show ?case using Suc.IH [of "16 * a + 9"] by (simp add: algebra_simps)
qed simp

lemma number_less: "number code_digit 0 cs < 16 ^ length cs"
proof -
  have "5 * number code_digit 0 cs < 5 * 16 ^ length cs"
    using number_bound [of cs] zero_less_power [of "16 :: int" "length cs"] unfolding right_diff_distrib by linarith
  then show ?thesis by simp
qed

section \<open>The EEPROM as a memory with a pointer\<close>

text \<open>
  What the attributes promise: 32 KiB of cells and a pointer that each byte access moves on,
  past the end to the beginning. The specification knows no bus transfers, no masks and no
  parser: a text is a number in hexadecimal notation or it is not. It promises nothing about
  texts without the \<open>0x\<close> prefix and about numbers with letters, which the driver misreads.
\<close>

record eeprom =
  ecells :: "u16 \<Rightarrow> u8"
  pointer :: u16

definition onwards :: "eeprom \<Rightarrow> eeprom" where
  "onwards e = e\<lparr>pointer := if pointer e = 32767 then 0 else pointer e + 1\<rparr>"

datatype typed = Unspecified | Rejected | Number int

definition typed :: "nat \<Rightarrow> u8 list \<Rightarrow> typed" where
  "typed n buf =
     (if 2 < length buf \<and> buf ! 0 = 48 \<and> (buf ! 1 = 120 \<or> buf ! 1 = 88) then
        let ds = take n (drop 2 buf) in
        if \<not> list_all is_hex ds then Rejected
        else if list_ex is_letter ds then Unspecified
        else Number (number hex_digit 0 ds)
      else Unspecified)"

fun eeprom_spec :: "eeprom \<Rightarrow> at24_op \<Rightarrow> (at24_answer \<times> eeprom) option" where
  "eeprom_spec e Show_reg_addr = Some ((7, [48, 120] @ hex4 (pointer e) @ [10]), e)"
| "eeprom_spec e (Show_read_byte g) = Some ((5, [48, 120] @ hex2 (ecells e (pointer e)) @ [10]), onwards e)"
| "eeprom_spec e (Store_reg_addr buf count) =
     (case typed 4 buf of
        Unspecified \<Rightarrow> None
      | Rejected \<Rightarrow> Some ((neg EINVAL, []), e)
      | Number v \<Rightarrow> Some ((count, []), if v < 32768 then e\<lparr>pointer := word_of_int v\<rparr> else e))"
| "eeprom_spec e (Store_write_byte buf count) =
     (case typed 2 buf of
        Unspecified \<Rightarrow> None
      | Rejected \<Rightarrow> Some ((neg EINVAL, []), e)
      | Number v \<Rightarrow> Some ((count, []),
          onwards (e\<lparr>ecells := (ecells e)(pointer e := word_of_int v)\<rparr>)))"

definition eeprom_view :: "readiness \<Rightarrow> (u16 \<Rightarrow> u8) \<Rightarrow> at24_state \<Rightarrow> eeprom" where
  "eeprom_view rdy mem0 s = \<lparr>ecells = contents rdy mem0 (xfers s), pointer = reg_addr (prv s)\<rparr>"

definition on_chip :: "readiness \<Rightarrow> i2c_bus \<Rightarrow> (u16 \<Rightarrow> u8) \<Rightarrow> at24_state \<Rightarrow> bool" where
  "on_chip rdy bus mem0 s \<longleftrightarrow> reg_ok s \<and> at24_chip rdy bus (client (prv s)) mem0 \<and> rested rdy (xfers s)"

lemma next_reg_wraps:
  assumes "unat a < 32768"
  shows "next_reg a = (if a = 32767 then 0 else a + 1)"
proof (cases "a = 32767")
  case True
  then show ?thesis by (simp add: next_reg_def)
next
  case False
  have "uint a \<noteq> 32767"
    using False by (metis word_of_int_numeral word_of_int_uint)
  moreover have "int (unat a) < 32768" using assms by linarith
  ultimately have "uint a + 1 < 32768" by simp
  then have "next_reg a = word_of_int (uint a + 1)"
    by (simp add: next_reg_eq mod_pos_pos_trivial)
  then show ?thesis using False by simp
qed

lemma eeprom_view_advanced:
  "reg_ok s \<Longrightarrow> eeprom_view rdy mem0 (advanced s) = onwards (eeprom_view rdy mem0 s)"
  by (simp add: eeprom_view_def onwards_def reg_ok_def next_reg_wraps)

text \<open>When the specification has a view of a text, the driver's parser has the same.\<close>

lemma typed_parse:
  assumes "nul_terminated buf" "typed n buf = t" "t \<noteq> Unspecified" "n \<le> 7"
  shows "has_0x buf = Ret True" and "convert_char_to_hex_reg (drop 2 buf) n =
      Ret (case t of Number v \<Rightarrow> (0, v) | _ \<Rightarrow> (-1, -1))"
    and "t = Number v \<Longrightarrow> 0 \<le> v \<and> v < 16 ^ n"
proof -
  let ?ds = "take n (drop 2 buf)"
  have pre: "2 < length buf" "buf ! 0 = 48" "buf ! 1 = 120 \<or> buf ! 1 = 88"
    using assms(2,3) by (auto simp: typed_def split: if_splits)
  then show "has_0x buf = Ret True"
    by (auto simp: has_0x_def char_at_def)
  have t: "t = (if list_all is_hex ?ds then Number (number code_digit 0 ?ds) else Rejected)"
    using assms(2,3) pre number_code_eq [of ?ds 0] by (auto simp: typed_def Let_def)
  then show "convert_char_to_hex_reg (drop 2 buf) n = Ret (case t of Number v \<Rightarrow> (0, v) | _ \<Rightarrow> (-1, -1))"
    using convert_text [OF assms(1) pre(1) assms(4)] by simp
  show "0 \<le> v \<and> v < 16 ^ n" if "t = Number v"
  proof -
    have v: "v = number code_digit 0 ?ds" "list_all is_hex ?ds" using that t by (simp_all split: if_splits)
    then have "length ?ds = n"
      using nul_stops [OF assms(1), of n 2] pre(1) by simp
    then show ?thesis
      using number_less [of ?ds] number_nonneg [of 0 ?ds] v(1) by simp
  qed
qed

lemma eeprom_store_addr:
  assumes "on_chip rdy bus mem0 s" "nul_terminated buf"
    and "eeprom_spec (eeprom_view rdy mem0 s) (Store_reg_addr buf n) = Some (r, e)"
  shows "\<exists>s'. at24_apply bus s (Store_reg_addr buf n) = Ret (r, s') \<and> eeprom_view rdy mem0 s' = e \<and> on_chip rdy bus mem0 s'"
proof -
  obtain t where t: "typed 4 buf = t" "t \<noteq> Unspecified" using assms(3) by (auto split: typed.splits)
  note parse = typed_parse [OF assms(2) t, simplified]
  show ?thesis
  proof (cases t)
    case (Number v)
    then show ?thesis
      using parse(1,2) parse(3) [OF Number] assms(1,3) t(1)
      by (auto simp: store_reg_addr_def TOTAL_MEM_SIZE_def eeprom_view_def on_chip_def reg_ok_def
          unat_of_small nat_less_iff)
  qed (use parse(1,2) assms(1,3) t in \<open>simp_all add: store_reg_addr_def\<close>)
qed

lemma eeprom_store_byte:
  assumes "on_chip rdy bus mem0 s" "nul_terminated buf"
    and "eeprom_spec (eeprom_view rdy mem0 s) (Store_write_byte buf n) = Some (r, e)"
  shows "\<exists>s'. at24_apply bus s (Store_write_byte buf n) = Ret (r, s') \<and> eeprom_view rdy mem0 s' = e \<and> on_chip rdy bus mem0 s'"
proof -
  obtain t where t: "typed 2 buf = t" "t \<noteq> Unspecified" using assms(3) by (auto split: typed.splits)
  note parse = typed_parse [OF assms(2) t, simplified]
  show ?thesis
  proof (cases t)
    case (Number v)
    let ?s = "after_write s (word_of_int v)"
    have ok: "reg_ok s" "at24_chip rdy bus (client (prv s)) mem0" "rested rdy (xfers s)"
      using assms(1) by (simp_all add: on_chip_def)
    have "\<not> fst (bus (xfers s) (write_msgs (client (prv s)) [hi, lo, d])) < 0" for hi lo d
      using ok(2) rested_ready [OF ok(3)] by (simp add: at24_chip_def)
    then have "store_write_byte bus s buf n = Ret (n, advanced ?s)"
      using parse(1,2) Number
      by (simp add: store_write_byte_def at24c256_i2c_byte_write_def Let_def advanced_def after_write_def)
    moreover have "eeprom_view rdy mem0 (advanced ?s) = e" "r = (n, [])"
      using assms(3) t(1) Number ok(1,3) eeprom_view_advanced [of ?s rdy mem0]
      by (simp_all add: eeprom_view_def reg_ok_def)
    ultimately show ?thesis using ok by (simp add: on_chip_def)
  qed (use parse(1,2) assms(1,3) t in \<open>simp_all add: store_write_byte_def\<close>)
qed

interpretation at24_memory: implements "at24_apply bus" eeprom_spec "eeprom_view rdy mem0" "on_chip rdy bus mem0" text_op
  for rdy bus mem0
proof
  fix s c r e
  assume inv: "on_chip rdy bus mem0 s" and legal: "text_op c" and spec: "eeprom_spec (eeprom_view rdy mem0 s) c = Some (r, e)"
  show "\<exists>s'. at24_apply bus s c = Ret (r, s') \<and> eeprom_view rdy mem0 s' = e \<and> on_chip rdy bus mem0 s'"
  proof (cases c)
    case Show_reg_addr
    then show ?thesis using inv spec by (simp add: show_reg_addr_def hex4_hex eeprom_view_def)
  next
    case (Show_read_byte g)
    from inv have ok: "reg_ok s" "at24_chip rdy bus (client (prv s)) mem0" "rested rdy (xfers s)" by (simp_all add: on_chip_def)
    from show_read_chip [OF ok(2,1,3), of g] obtain s' where s': "show_read_byte bus g s =
        (5, [48, 120] @ hex2 (contents rdy mem0 (xfers s) (reg_addr (prv s))) @ [10], advanced s')"
      "prv s' = prv s" "contents rdy mem0 (xfers s') = contents rdy mem0 (xfers s)" "rested rdy (xfers s')" by blast
    then have "eeprom_view rdy mem0 (advanced s') = onwards (eeprom_view rdy mem0 s)"
      using ok(1) eeprom_view_advanced [of s' rdy mem0] by (simp add: reg_ok_def eeprom_view_def)
    then show ?thesis
      using s' spec ok by (simp add: Show_read_byte on_chip_def eeprom_view_def)
  qed (use inv legal spec eeprom_store_addr eeprom_store_byte in auto)
qed

section \<open>Properties\<close>

lemma list_ex_conv: "list_ex P xs \<longleftrightarrow> (\<exists>x\<in>set xs. P x)"
  by (simp add: list_ex_iff)

text \<open>
  C19: On a NUL-terminated text the hexadecimal parser, asked for up to seven digits (the driver
  asks for two and for four), never reads behind the NUL and never overflows its \<open>int\<close>. It rejects
  every text with a character that is no hexadecimal digit. A number it accepts is never too
  big, and it is the number the digits denote exactly when none of them is a letter (the
  letters \<open>a\<close> to \<open>f\<close> count as 0 to 5). Eight digits can be too many: eight nines end in a shift
  that C leaves undefined.
\<close>

theorem at24c256_parser_value:
  assumes "nul_terminated buf" "2 < length buf" "n \<le> 7" and digits: "digits = take n (drop 2 buf)"
  shows "convert_char_to_hex_reg (drop 2 buf) n =
      Ret (if list_all is_hex digits then (0, number code_digit 0 digits) else (-1, -1)) \<and>
    0 \<le> number code_digit 0 digits \<and> number code_digit 0 digits \<le> number hex_digit 0 digits \<and>
    (number code_digit 0 digits = number hex_digit 0 digits \<longleftrightarrow> \<not> list_ex is_letter digits) \<and>
    convert_char_to_hex_reg (replicate 8 57 @ [0]) 8 = Fault Undefined_shift"
proof -
  have "convert_char_to_hex_reg (57 # t) 8 = Fault Undefined_shift" for t
    by (simp add: convert_char_to_hex_reg_def convert_loop.simps char_at_def tmp_char_def shl_int_def push_bit_eq_mult)
  moreover have "replicate 8 57 @ [0] = 57 # replicate 7 57 @ [0 :: u8]" by (simp add: eval_nat_numeral)
  ultimately have over: "convert_char_to_hex_reg (replicate 8 57 @ [0]) 8 = Fault Undefined_shift" by simp
  have "number code_digit 0 digits \<le> number hex_digit 0 digits"
    "list_ex is_letter digits \<longrightarrow> number code_digit 0 digits < number hex_digit 0 digits"
    using number_code_le [of 0 0 digits] by simp_all
  then show ?thesis
    using convert_text [OF assms(1-3)] number_nonneg [of 0 digits] number_code_eq [of digits 0] over
    by (auto simp: digits)
qed

lemma at24c256_parser_value_witness:
  "convert_char_to_hex_reg [49, 48, 97, 70, 10, 0] 4 = Ret (0, 0x1005) \<and>
   number hex_digit 0 [49, 48, 97, 70] = 0x10AF"
  using at24c256_parser_value [of "[48, 120, 49, 48, 97, 70, 10, 0]" 4 "[49, 48, 97, 70]"]
  by (simp add: nul_terminated_def is_hex_def is_letter_def code_digit_def tmp_char_def hex_digit_def)

text \<open>
  The arithmetic of the parser fits the C types it is stored in. A number of \<open>n\<close> accepted
  digits, up to seven, is at most \<open>3 * (16 ^ n - 1) / 5\<close> (the number written with nines, which is
  reached), so the four digits of an address fit the \<open>uint16_t\<close> and the two of a byte the
  \<open>uint8_t\<close>: nothing is cut off.
\<close>

theorem at24c256_parser_bounds:
  assumes "convert_char_to_hex_reg inp n = Ret (0, v)" "n \<le> 7"
  shows "0 \<le> v \<and> 5 * v \<le> 3 * (16 ^ n - 1) \<and> to_s32 v = v \<and>
    (n = 4 \<longrightarrow> uint (word_of_int v :: u16) = v) \<and> (n = 2 \<longrightarrow> uint (word_of_int v :: u8) = v) \<and>
    (\<exists>w. convert_char_to_hex_reg (replicate n 57) n = Ret (0, w) \<and> 5 * w = 3 * (16 ^ n - 1))"
proof -
  have v: "v = number code_digit 0 (take n inp)" "n \<le> length inp"
    using assms by (auto simp: convert_eq split: if_splits)
  have rng: "0 \<le> v" "5 * v \<le> 3 * (16 ^ n - 1)" "v < 16 ^ n"
    using number_nonneg [of 0 "take n inp"] number_bound [of "take n inp"] number_less [of "take n inp"] v by simp_all
  have "(16 :: int) ^ n \<le> 16 ^ 7" using assms(2) by (intro power_increasing) simp_all
  then have "to_s32 v = v" using rng(1,3) by (simp add: c_simps)
  moreover have "uint (word_of_int v :: u16) = v" if "n = 4"
    using rng(1,3) that by (simp add: uint_word_of_int)
  moreover have "uint (word_of_int v :: u8) = v" if "n = 2"
    using rng(1,3) that by (simp add: uint_word_of_int)
  moreover have "is_hex 57" by (simp add: is_hex_def)
  then have "convert_char_to_hex_reg (replicate n 57) n = Ret (0, number code_digit 0 (replicate n 57))"
    using assms(2) by (simp add: convert_eq list_all_iff)
  ultimately show ?thesis
    using rng number_nines [of 0 n] by (simp add: right_diff_distrib)
qed

lemma at24c256_parser_bounds_witness:
  "uint (word_of_int 0x7999 :: u16) = 0x7999 \<and> to_s32 0x7999 = 0x7999"
proof -
  have "convert_char_to_hex_reg [55, 57, 57, 57] 4 = Ret (0, 0x7999)"
    by (simp add: convert_eq is_hex_def code_digit_def tmp_char_def)
  from at24c256_parser_bounds [OF this] show ?thesis by simp
qed

text \<open>
  No sequence of accesses to the sysfs attributes makes the driver read outside the text
  it is given, whatever the texts, the declared lengths and the bus, and the address register
  stays inside the 32 KiB of the chip once it is there.
\<close>

theorem at24c256_session_safe:
  assumes "list_all text_op ops" "reg_ok s"
  shows "\<exists>rs s'. at24_run bus s ops = Ret (rs, s') \<and> length rs = length ops \<and> reg_ok s'"
  using at24_run_ok [OF assms(1), of bus s] assms(2) by auto

lemma at24c256_session_safe_witness:
  "\<exists>rs s'. at24_run (\<lambda>h m. (-5, [])) \<lparr>prv = \<lparr>client = 0x50, reg_addr = 0\<rparr>, xfers = []\<rparr>
     [Store_reg_addr [48, 120, 0] 2, Show_read_byte 9, Store_write_byte [48, 0] 1] = Ret (rs, s') \<and>
     length rs = 3 \<and> reg_ok s'"
  using at24c256_session_safe [of "[Store_reg_addr [48, 120, 0] 2, Show_read_byte 9, Store_write_byte [48, 0] 1]"
      "\<lparr>prv = \<lparr>client = 0x50, reg_addr = 0\<rparr>, xfers = []\<rparr>" "\<lambda>h m. (-5, [])"]
  by (simp add: nul_terminated_def reg_ok_def numeral_3_eq_3 del: session.simps)

text \<open>
  Writing back to \<open>reg_addr_attr\<close> the text read from it is accepted for every address of
  the chip, but restores the address only when it has no hexadecimal letter.
\<close>

theorem at24c256_reg_addr_roundtrip:
  assumes "reg_ok s"
  shows "\<exists>t s2. show_reg_addr s = (7, t) \<and> store_reg_addr s1 (t @ [0]) 7 = Ret (7, s2) \<and>
    xfers s2 = xfers s1 \<and> reg_ok s2 \<and>
    (reg_addr (prv s2) = reg_addr (prv s) \<longleftrightarrow> (\<forall>d\<in>set (nibbles (reg_addr (prv s))). d < 10))"
proof -
  let ?w = "reg_addr (prv s)"
  let ?v = "number code_digit 0 (hex4 ?w)"
  have t: "take 4 (hex4 ?w @ [10, 0]) = hex4 ?w" using hex4_hex [of ?w] by simp
  have conv: "convert_char_to_hex_reg (hex4 ?w @ [10, 0]) 4 = Ret (0, ?v)"
    using hex4_hex [of ?w] by (simp add: convert_eq)
  have small: "int (unat ?w) < 32768" using assms unfolding reg_ok_def by linarith
  have v: "0 \<le> ?v" "?v \<le> int (unat ?w)" "?v = int (unat ?w) \<longleftrightarrow> \<not> list_ex is_letter (hex4 ?w)"
    using number_nonneg [of 0] number_code_le [of 0 0 "hex4 ?w"] number_code_eq [of "hex4 ?w" 0]
    by (auto simp: number_hex4)
  have u: "unat (word_of_int ?v :: u16) = nat ?v"
    using v small by (intro unat_of_small) simp_all
  have "word_of_int ?v = ?w \<longleftrightarrow> nat ?v = unat ?w"
    using u by (metis word_unat_eq_iff)
  also have "\<dots> \<longleftrightarrow> ?v = int (unat ?w)" using v(1) by linarith
  also have "\<dots> \<longleftrightarrow> (\<forall>d\<in>set (nibbles ?w). d < 10)"
    unfolding v(3) hex4_letters by (meson not_le)
  finally have eq: "word_of_int ?v = ?w \<longleftrightarrow> (\<forall>d\<in>set (nibbles ?w). d < 10)" .
  have lt: "?v < TOTAL_MEM_SIZE" "nat ?v < 32768" using v small by (simp_all add: TOTAL_MEM_SIZE_def)
  have "store_reg_addr s1 ([48, 120] @ hex4 ?w @ [10, 0]) 7 =
      Ret (7, s1\<lparr>prv := (prv s1)\<lparr>reg_addr := word_of_int ?v\<rparr>\<rparr>)"
    using conv lt(1) by (simp add: store_reg_addr_def)
  then show ?thesis
    using eq u lt(2) hex4_hex [of ?w]
    by (intro exI [of _ "[48, 120] @ hex4 ?w @ [10]"] exI [of _ "s1\<lparr>prv := (prv s1)\<lparr>reg_addr := word_of_int ?v\<rparr>\<rparr>"])
       (simp add: show_reg_addr_def reg_ok_def)
qed

lemma at24c256_reg_addr_roundtrip_witness:
  "\<exists>s2. store_reg_addr \<lparr>prv = \<lparr>client = 0x50, reg_addr = 5\<rparr>, xfers = []\<rparr>
      (snd (show_reg_addr \<lparr>prv = \<lparr>client = 0x50, reg_addr = 0x00A0\<rparr>, xfers = []\<rparr>) @ [0]) 7 = Ret (7, s2) \<and>
    reg_addr (prv s2) \<noteq> 0x00A0"
  using at24c256_reg_addr_roundtrip [of "\<lparr>prv = \<lparr>client = 0x50, reg_addr = 0x00A0\<rparr>, xfers = []\<rparr>"
      "\<lparr>prv = \<lparr>client = 0x50, reg_addr = 5\<rparr>, xfers = []\<rparr>"]
  by (auto simp: reg_ok_def nibbles_def)

lemma coded_plain:
  assumes "unat d div 16 < 10" "unat d mod 16 < 10"
  shows "coded d = d"
proof -
  have digits: "\<not> list_ex is_letter (hex2 d)"
    using assms by (simp add: hex2_def hex_char_props)
  have "unat d < 256" using unsigned_less [of d, where ?'a = nat] by simp
  then have "number hex_digit 0 (hex2 d) = 16 * int (unat d div 16) + int (unat d mod 16)"
    by (simp add: hex2_def hex_char_props less_mult_imp_div_less)
  also have "\<dots> = int (16 * (unat d div 16) + unat d mod 16)"
    by (simp only: of_nat_add of_nat_mult of_nat_numeral)
  also have "\<dots> = uint d" by simp
  finally show ?thesis
    using number_code_eq [OF digits, of 0] by (simp add: coded_def)
qed

text \<open>
  C15: With the documented chip, and a user who waits for its write cycles, writing a burst of bytes through \<open>write_byte_attr\<close> and reading
  the same number of bytes back from the same address delivers the bytes in order, wrapping at
  the end of the memory, with every hexadecimal letter of the written text decoded as the
  parser decodes it (\<open>coded\<close>; a byte without letters comes back unchanged); and no other cell
  of the memory changes.
\<close>

theorem at24c256_burst_roundtrip:
  assumes "at24_chip rdy bus (client (prv s)) mem0" "rested rdy (xfers s)" "reg_ok s" "length ds \<le> 32768"
  shows "\<exists>s'. at24_run bus s (write_burst ds) = Ret (replicate (length ds) (5, []), s') \<and>
    read_burst bus g (length ds) (s'\<lparr>prv := prv s\<rparr>) = map (\<lambda>d. [48, 120] @ hex2 (coded d) @ [10]) ds \<and>
    (\<forall>x. (\<forall>i<length ds. x \<noteq> adr (reg_addr (prv s)) i) \<longrightarrow>
       contents rdy mem0 (xfers s') x = contents rdy mem0 (xfers s) x)"
proof -
  from write_burst_contents [OF assms(1,3,2,4)] obtain s' where s':
    "at24_run bus s (write_burst ds) = Ret (replicate (length ds) (5, []), s')"
    "\<forall>i<length ds. contents rdy mem0 (xfers s') (adr (reg_addr (prv s)) i) = coded (ds ! i)"
    "\<forall>x. (\<forall>i<length ds. x \<noteq> adr (reg_addr (prv s)) i) \<longrightarrow>
       contents rdy mem0 (xfers s') x = contents rdy mem0 (xfers s) x" "rested rdy (xfers s')" by blast
  have "at24_chip rdy bus (client (prv (s'\<lparr>prv := prv s\<rparr>))) mem0" "reg_ok (s'\<lparr>prv := prv s\<rparr>)"
      "rested rdy (xfers (s'\<lparr>prv := prv s\<rparr>))"
    using assms(1,3) s'(4) by (simp_all add: reg_ok_def)
  note read_burst_contents [OF this, of g "length ds"]
  also have "map (\<lambda>i. [48, 120] @ hex2 (contents rdy mem0 (xfers (s'\<lparr>prv := prv s\<rparr>))
        (adr (reg_addr (prv (s'\<lparr>prv := prv s\<rparr>))) i)) @ [10]) [0..<length ds] =
      map ((\<lambda>d. [48, 120] @ hex2 (coded d) @ [10]) \<circ> (!) ds) [0..<length ds]"
    using s'(2) by (intro map_cong) simp_all
  also have "\<dots> = map (\<lambda>d. [48, 120] @ hex2 (coded d) @ [10]) ds"
    by (simp only: map_map [symmetric] map_nth)
  finally have "read_burst bus g (length ds) (s'\<lparr>prv := prv s\<rparr>) = map (\<lambda>d. [48, 120] @ hex2 (coded d) @ [10]) ds" .
  with s'(1,3) show ?thesis by blast
qed

text \<open>An executable chip, for concrete runs.\<close>

definition chip :: "readiness \<Rightarrow> (u16 \<Rightarrow> u8) \<Rightarrow> i2c_bus" where
  "chip rdy mem0 h msgs =
     (if \<not> rdy h then (neg (EOTHER 120), [])
      else case msgs of
        [m] \<Rightarrow> (1, [])
      | m # _ \<Rightarrow> (case m_buf m of hi # lo # _ \<Rightarrow> (2, [contents rdy mem0 h (cell hi lo)]) | _ \<Rightarrow> (2, []))
      | [] \<Rightarrow> (0, []))"

lemma at24_chip_chip: "\<forall>h. (\<forall>x\<in>set h. written x = None) \<longrightarrow> rdy h \<Longrightarrow> at24_chip rdy (chip rdy mem0) cl mem0"
  by (simp add: at24_chip_def chip_def read_msgs_def write_msgs_def)

text \<open>A chip whose write cycles are always over in time.\<close>

abbreviation slow_chip :: "(u16 \<Rightarrow> u8) \<Rightarrow> i2c_bus" where
  "slow_chip \<equiv> chip (\<lambda>h. True)"

lemma slow_chip: "at24_chip (\<lambda>h. True) (slow_chip mem0) cl mem0" "rested (\<lambda>h. True) h"
  by (simp_all add: at24_chip_chip rested_def)

lemma at24c256_burst_roundtrip_witness:
  "\<exists>s'. at24_run (slow_chip (\<lambda>_. 0)) \<lparr>prv = \<lparr>client = 0x50, reg_addr = 0x7FFF\<rparr>, xfers = []\<rparr>
       (write_burst [0x12, 0x3A]) = Ret ([(5, []), (5, [])], s') \<and>
     read_burst (slow_chip (\<lambda>_. 0)) 9 2 (s'\<lparr>prv := \<lparr>client = 0x50, reg_addr = 0x7FFF\<rparr>\<rparr>) =
       [[48, 120, 49, 50, 10], [48, 120, 51, 48, 10]]"
proof -
  let ?s = "\<lparr>prv = \<lparr>client = 0x50, reg_addr = 0x7FFF\<rparr>, xfers = []\<rparr>"
  have "reg_ok ?s" "length [0x12, 0x3A :: u8] \<le> 32768" by (simp_all add: reg_ok_def)
  from at24c256_burst_roundtrip [OF slow_chip this, of "\<lambda>_. 0" 9] obtain s' where run:
    "at24_run (slow_chip (\<lambda>_. 0)) ?s (write_burst [0x12, 0x3A]) = Ret (replicate (length [0x12, 0x3A :: u8]) (5, []), s')"
    "read_burst (slow_chip (\<lambda>_. 0)) 9 (length [0x12, 0x3A :: u8]) (s'\<lparr>prv := prv ?s\<rparr>) =
      map (\<lambda>d. [48, 120] @ hex2 (coded d) @ [10]) [0x12, 0x3A]" by blast
  have two: "length [0x12, 0x3A :: u8] = 2" by simp
  have "coded 0x12 = 0x12" "coded 0x3A = 0x30"
    by (simp_all add: coded_def hex2_def hex_char_def code_digit_def tmp_char_def)
  then have "map (\<lambda>d. [48, 120] @ hex2 (coded d) @ [10]) [0x12, 0x3A] =
      [[48, 120, 49, 50, 10], [48, 120, 51, 48, 10]]"
    by (simp add: hex2_def hex_char_def)
  moreover have "replicate 2 (5 :: int, [] :: u8 list) = [(5, []), (5, [])]" by (simp add: numeral_2_eq_2)
  ultimately show ?thesis using run unfolding two by auto
qed

text \<open>
  C16: On a working chip the four attributes refine a memory of 32 KiB with a pointer: as long as its
  user waits for the write cycles, a session of any length in which the user writes numbers with the prefix \<open>0x\<close> and without letters
  gets the answers of that memory, and the state of driver and chip abstracts to it.
\<close>

theorem at24c256_refines_memory:
  assumes "at24_chip rdy bus (client (prv s)) mem0" "rested rdy (xfers s)" "reg_ok s" "list_all text_op ops"
    and "spec_session eeprom_spec (eeprom_view rdy mem0 s) ops = Some (rs, e)"
  shows "\<exists>s'. at24_run bus s ops = Ret (rs, s') \<and> eeprom_view rdy mem0 s' = e \<and> reg_ok s'"
  using at24_memory.session_simulates [of rdy bus mem0 s ops rs e] assms by (auto simp: on_chip_def)

lemma at24c256_refines_memory_witness:
  "\<exists>s'. at24_run (slow_chip (\<lambda>_. 0)) \<lparr>prv = \<lparr>client = 0x50, reg_addr = 0\<rparr>, xfers = []\<rparr>
      [Store_reg_addr [48, 120, 49, 48, 48, 48, 0] 6, Store_write_byte [48, 120, 52, 50, 0] 4, Show_reg_addr,
       Store_reg_addr [48, 120, 49, 48, 48, 48, 0] 6, Show_read_byte 9] =
    Ret ([(6, []), (4, []), (7, [48, 120, 49, 48, 48, 49, 10]), (6, []), (5, [48, 120, 52, 50, 10])], s')"
proof -
  let ?s = "\<lparr>prv = \<lparr>client = 0x50, reg_addr = 0\<rparr>, xfers = []\<rparr>"
    and ?ops = "[Store_reg_addr [48, 120, 49, 48, 48, 48, 0] 6, Store_write_byte [48, 120, 52, 50, 0] 4, Show_reg_addr,
       Store_reg_addr [48, 120, 49, 48, 48, 48, 0] 6, Show_read_byte 9]"
  have addr: "typed 4 [48, 120, 49, 48, 48, 48, 0] = Number 0x1000" and byte: "typed 2 [48, 120, 52, 50, 0] = Number 0x42"
    by (simp_all add: typed_def is_hex_def is_letter_def hex_digit_def)
  have "\<exists>e. spec_session eeprom_spec (eeprom_view (\<lambda>h. True) (\<lambda>_. 0) ?s) ?ops = Some
      ([(6, []), (4, []), (7, [48, 120, 49, 48, 48, 49, 10]), (6, []), (5, [48, 120, 52, 50, 10])], e)"
    by (simp add: eeprom_view_def addr byte onwards_def hex4_def hex2_def hex_char_def)
  moreover have "list_all text_op ?ops" "reg_ok ?s"
    by (simp_all add: nul_terminated_def reg_ok_def)
  ultimately show ?thesis
    using at24c256_refines_memory [OF slow_chip] by blast
qed

text \<open>
  The self test of the probe on any bus, with the transfers that find the chip ready: if its first
  write is taken, the last transfer decides. When that is taken too, cell \<open>0x0011\<close> holds the byte
  the first read delivered (the uninitialised local when it delivered nothing); when it falls into
  the write cycle of the first, the cell holds \<open>0xF9\<close>. No other cell changes.
\<close>

theorem at24c256_self_test_restores:
  assumes m1: "m1 = read_msgs cl [0x00, 0x11, 0xF9] data0" and h': "h' = dummy_read_write bus h cl data0"
    and "rdy (h @ [m1])"
  shows "contents rdy mem0 h' = (contents rdy mem0 h)(0x0011 :=
      (if rdy (butlast h') then (case snd (bus h m1) of b # _ \<Rightarrow> b | [] \<Rightarrow> data0) else 0xF9))"
proof -
  have c: "cell 0x00 0x11 = 0x0011" by (simp add: cell_def)
  let ?m2 = "write_msgs cl [0x00, 0x11, 0xF9]" and ?m3 = "read_msgs cl [0x00, 0x11, 0xF9] (received (bus h m1) data0)"
  let ?m4 = "write_msgs cl [0x00, 0x11, received (bus h m1) data0]"
  have run: "h' = (((h @ [m1]) @ [?m2]) @ [?m3]) @ [?m4]"
    by (simp add: h' m1 dummy_read_write_def Let_def)
  then have last: "butlast h' = ((h @ [m1]) @ [?m2]) @ [?m3]"
    by (simp only: butlast_snoc)
  have "contents rdy mem0 (butlast h') = (contents rdy mem0 h)(0x0011 := 0xF9)"
    unfolding last using assms(3) c by (simp add: m1 del: append_assoc)
  moreover have "h' = butlast h' @ [?m4]" unfolding last by (rule run)
  then have "contents rdy mem0 h' = (if rdy (butlast h')
      then (contents rdy mem0 (butlast h'))(0x0011 := received (bus h m1) data0) else contents rdy mem0 (butlast h'))"
    using contents_snoc(2) [of rdy mem0 "butlast h'"] c by metis
  ultimately show ?thesis by (simp add: received_def)
qed

definition at_once :: readiness where
  \<comment> \<open>not ready for the two transfers behind the first write of the self test\<close>
  "at_once h \<longleftrightarrow> list_all (\<lambda>x. written x = None) h \<or> length h \<noteq> 2 \<and> length h \<noteq> 3"

lemma at_once_chip: "at24_chip at_once (chip at_once mem0) cl mem0"
  by (rule at24_chip_chip) (simp add: at_once_def list_all_iff)

lemma at24c256_self_test_restores_witness:
  "contents (\<lambda>h. True) (\<lambda>_. 7) (dummy_read_write (slow_chip (\<lambda>_. 7)) [] 0x50 3) 0x0011 = 7 \<and>
   contents at_once (\<lambda>_. 7) (dummy_read_write (chip at_once (\<lambda>_. 7)) [] 0x50 3) 0x0011 = 0xF9 \<and>
   contents (\<lambda>h. True) (\<lambda>_. 7) (dummy_read_write (\<lambda>h m. (-5, [])) [] 0x50 3) 0x0011 = 3"
  using at24c256_self_test_restores [OF refl refl, of "\<lambda>h. True" "[]" "0x50" 3 "\<lambda>_. 7" "slow_chip (\<lambda>_. 7)"]
    at24c256_self_test_restores [OF refl refl, of at_once "[]" "0x50" 3 "\<lambda>_. 7" "chip at_once (\<lambda>_. 7)"]
    at24c256_self_test_restores [OF refl refl, of "\<lambda>h. True" "[]" "0x50" 3 "\<lambda>_. 7" "\<lambda>h m. (-5, [])"]
  by (simp add: contents_Nil chip_def read_msgs_def at_once_def dummy_read_write_def Let_def)

text \<open>
  C18: From probe to use, on a chip with write cycles. The self test of the probe writes \<open>0xF9\<close> to
  cell \<open>0x0011\<close> and writes the old byte back without a pause and without looking at the answer. So
  after a successful probe the memory is the one before it only if the chip was ready for that last
  transfer; when the write cycle was still running, the byte of cell \<open>0x0011\<close> is lost and the cell
  holds \<open>0xF9\<close>. Whatever uninitialised value the address register starts with, a user who first
  stores an address and then goes on with any session, and waits for the write cycles, is served
  that memory from that address on.
\<close>

theorem at24c256_end_to_end:
  assumes chip: "at24_chip rdy bus cl mem0" and probe: "at24c256_i2c_driver_probe env bus [] cl = (0, calls, Some s, h)"
    and rest: "rested rdy h" and mem: "mem = (if rdy (butlast h) then mem0 else mem0(0x0011 := 0xF9))"
    and addr: "nul_terminated buf" "typed 4 buf = Number v" "v < 32768"
    and ops: "list_all text_op ops" "spec_session eeprom_spec \<lparr>ecells = mem, pointer = word_of_int v\<rparr> ops = Some (rs, e)"
  shows "\<exists>s'. at24_run bus s (Store_reg_addr buf n # ops) = Ret ((n, []) # rs, s') \<and> eeprom_view rdy mem0 s' = e"
proof -
  let ?m1 = "read_msgs cl [0x00, 0x11, 0xF9] (garbage_data env)"
  have s: "client (prv s) = cl" "xfers s = h" "h = dummy_read_write bus [] cl (garbage_data env)"
    using probe by (auto simp: at24c256_i2c_driver_probe_def Let_def split: if_splits prod.splits)
  have c: "cell 0x00 0x11 = 0x0011" by (simp add: cell_def)
  have early: "rdy []" "rdy ([] @ [?m1])" using chip by (auto simp: at24_chip_def)
  then have "bus [] ?m1 = (2, [mem0 0x0011])" using chip by (simp add: at24_chip_def contents_Nil c)
  with at24c256_self_test_restores [OF refl s(3), of rdy mem0] early(2)
  have now: "contents rdy mem0 h = mem" by (simp add: contents_Nil mem fun_upd_idem)
  let ?s = "s\<lparr>prv := (prv s)\<lparr>reg_addr := word_of_int v\<rparr>\<rparr>"
  note parse = typed_parse [OF addr(1,2), simplified]
  have first: "at24_apply bus s (Store_reg_addr buf n) = Ret ((n, []), ?s)"
    using parse(1,2) addr(3) by (simp add: store_reg_addr_def TOTAL_MEM_SIZE_def)
  have "on_chip rdy bus mem0 ?s"
    using parse(3) addr(3) chip s(1,2) rest by (simp add: on_chip_def reg_ok_def unat_of_small nat_less_iff)
  moreover have "eeprom_view rdy mem0 ?s = \<lparr>ecells = mem, pointer = word_of_int v\<rparr>"
    by (simp add: eeprom_view_def s(2) now)
  ultimately obtain s' where "at24_run bus ?s ops = Ret (rs, s')" "eeprom_view rdy mem0 s' = e"
    using at24_memory.session_simulates [of rdy bus mem0 ?s ops rs e] ops by auto
  then show ?thesis using first by auto
qed

lemma at24c256_end_to_end_witness:
  "\<exists>calls s h s'. at24c256_i2c_driver_probe \<lparr>functionality = True, kmalloc_ans = Ptr 1, file_rets = (0, 0, 0, 0),
        garbage_data = 7, garbage_reg = 0xFFFF\<rparr> (chip at_once (\<lambda>a. ucast a)) [] 0x50 = (0, calls, Some s, h) \<and>
     at24_run (chip at_once (\<lambda>a. ucast a)) s [Store_reg_addr [48, 120, 48, 48, 49, 49, 0] 6, Show_read_byte 9] =
       Ret ([(6, []), (5, [48, 120, 102, 57, 10])], s')"
proof -
  let ?env = "\<lparr>functionality = True, kmalloc_ans = Ptr 1, file_rets = (0, 0, 0, 0), garbage_data = 7, garbage_reg = 0xFFFF\<rparr>"
    and ?buf = "[48, 120, 48, 48, 49, 49, 0] :: u8 list" and ?mem = "\<lambda>a :: u16. ucast a :: u8"
  have "\<exists>calls s h. at24c256_i2c_driver_probe ?env (chip at_once ?mem) [] 0x50 = (0, calls, Some s, h) \<and> length h = 4 \<and> \<not> at_once (butlast h)"
    by (simp add: at24c256_i2c_driver_probe_def at24c256_sysfs_register_def dummy_read_write_def at_once_def Let_def)
  then obtain calls s h where probe: "at24c256_i2c_driver_probe ?env (chip at_once ?mem) [] 0x50 = (0, calls, Some s, h)"
    and h: "length h = 4" and busy: "\<not> at_once (butlast h)" by blast
  have chip: "at24_chip at_once (chip at_once ?mem) 0x50 ?mem"
    by (rule at_once_chip)
  have rest: "rested at_once h" using h by (simp add: rested_def at_once_def)
  have input: "nul_terminated ?buf" "typed 4 ?buf = Number 0x11" "list_all text_op [Show_read_byte 9]"
    by (simp_all add: nul_terminated_def typed_def is_hex_def is_letter_def hex_digit_def)
  obtain e where "spec_session eeprom_spec \<lparr>ecells = ?mem(0x0011 := 0xF9), pointer = word_of_int 0x11\<rparr> [Show_read_byte 9] =
      Some ([(5, [48, 120, 102, 57, 10])], e)"
    by (simp add: hex2_def hex_char_def)
  from at24c256_end_to_end [OF chip probe rest _ input(1,2) _ input(3) this, of 6]
  show ?thesis using probe busy by auto
qed

definition created :: "(int \<times> int \<times> int \<times> int) \<Rightarrow> resource list" where
  "created rs = (case rs of (r1, r2, r3, r4) \<Rightarrow>
     map snd (filter (\<lambda>(r, a). r = 0)
       [(r4, Attr_file ''write_byte_attr''), (r3, Attr_file ''read_byte_attr''),
        (r2, Attr_file ''reg_addr_attr''), (r1, Attr_file ''usage_attr'')]))"

text \<open>
  A probe of the EEPROM driver reports the answer of its last \<open>device_create_file\<close> only.
  So it can succeed with attributes missing, and then the remove takes away files that do not
  exist; and a probe that fails leaves behind every one of the first three files it created.
\<close>

theorem at24c256_probe_remove:
  assumes "functionality e" "kmalloc_ans e = Ptr p" "file_rets e = (r1, r2, r3, r4)"
  shows "\<exists>calls st h' held. at24c256_i2c_driver_probe e bus h cl = (r4, calls, st, h') \<and>
    ledger [] calls = Some held \<and> unmanaged held = created (file_rets e) \<and>
    (st = None \<longleftrightarrow> r4 \<noteq> 0) \<and>
    (r4 = 0 \<longrightarrow> (r1 = 0 \<and> r2 = 0 \<and> r3 = 0 \<longleftrightarrow>
       (ledger held (snd at24c256_i2c_driver_remove)) = Some [Managed ''prv_data'']))"
  using assms
  by (auto simp: at24c256_i2c_driver_probe_def at24c256_sysfs_register_def at24c256_i2c_driver_remove_def
      at24c256_sysfs_unregister_def created_def ledger_simps Let_def)

lemma at24c256_probe_remove_witness:
  "\<exists>calls h' held. at24c256_i2c_driver_probe
      \<lparr>functionality = True, kmalloc_ans = Ptr 1, file_rets = (0, 0, 0, -12), garbage_data = 1, garbage_reg = 2\<rparr>
      (slow_chip (\<lambda>_. 0)) [] 0x50 = (-12, calls, None, h') \<and> ledger [] calls = Some held \<and> length (unmanaged held) = 3"
  using at24c256_probe_remove [of
      "\<lparr>functionality = True, kmalloc_ans = Ptr 1, file_rets = (0, 0, 0, -12), garbage_data = 1, garbage_reg = 2\<rparr>"
      1 0 0 0 "-12" "slow_chip (\<lambda>_. 0)" "[]" "0x50"]
  by (auto simp: created_def)

end
