(* ===== verification/At24c256_Users.thy ===== *)
theory At24c256_Users
  imports At24c256
begin

text \<open>
  The attributes of \<open>device_drivers/at24c256_drv/at24c256_drv1.c\<close> used by any number of processes
  at once. sysfs serialises the calls on one open file and nothing else, and the driver has no
  lock, so two processes can be in its functions together. \<open>At24c256\<close> runs every call without
  interruption; here the accesses to \<open>reg_addr\<close> and the transfer on the bus (one transfer is
  atomic: the adapter has a lock) are steps of their own, and the other processes move between
  them. Parameters as there: the bus, the texts of the users, the order of the steps.
\<close>

unbundle bit_operations_syntax

section \<open>The attribute files\<close>

datatype at24_attr = Usage_attr | Reg_addr_attr | Read_byte_attr | Write_byte_attr

definition S_IRUGO :: u16 where "S_IRUGO = 0x124"
definition S_IWUSR :: u16 where "S_IWUSR = 0x080"

text \<open>The mode of an attribute file, and whether it has a show and a store function.\<close>

definition dev_attr_usage_attr :: "u16 \<times> bool \<times> bool" where
  "dev_attr_usage_attr = (S_IRUGO, True, False)"

definition dev_attr_reg_addr_attr :: "u16 \<times> bool \<times> bool" where
  "dev_attr_reg_addr_attr = (S_IRUGO OR S_IWUSR, True, True)"

definition dev_attr_read_byte_attr :: "u16 \<times> bool \<times> bool" where
  "dev_attr_read_byte_attr = (S_IRUGO, True, False)"

definition dev_attr_write_byte_attr :: "u16 \<times> bool \<times> bool" where
  "dev_attr_write_byte_attr = (S_IWUSR, False, True)"

fun dev_attr :: "at24_attr \<Rightarrow> u16 \<times> bool \<times> bool" where
  "dev_attr Usage_attr = dev_attr_usage_attr"
| "dev_attr Reg_addr_attr = dev_attr_reg_addr_attr"
| "dev_attr Read_byte_attr = dev_attr_read_byte_attr"
| "dev_attr Write_byte_attr = dev_attr_write_byte_attr"

lemmas dev_attr_defs = dev_attr_usage_attr_def dev_attr_reg_addr_attr_def dev_attr_read_byte_attr_def
  dev_attr_write_byte_attr_def

fun attr_of :: "at24_op \<Rightarrow> at24_attr \<times> bool" where
  \<comment> \<open>the file behind an access, and whether it is a store\<close>
  "attr_of Show_reg_addr = (Reg_addr_attr, False)"
| "attr_of (Store_reg_addr buf n) = (Reg_addr_attr, True)"
| "attr_of (Show_read_byte g) = (Read_byte_attr, False)"
| "attr_of (Store_write_byte buf n) = (Write_byte_attr, True)"

text \<open>A file can be read exactly if it has a show function, and written exactly if it has a store function.\<close>

lemma modes_match_handlers:
  "dev_attr a = (mode, has_show, has_store) \<Longrightarrow>
    (has_show \<longleftrightarrow> mode AND S_IRUGO = S_IRUGO) \<and> (has_store \<longleftrightarrow> mode AND S_IWUSR = S_IWUSR)"
  by (cases a) (auto simp: dev_attr_defs S_IRUGO_def S_IWUSR_def)

section \<open>A call in steps\<close>

text \<open>
  Where a process is in a call: before the first access (\<open>Entered\<close>), with the address of the
  transfer loaded, with the transfer done and the address not yet incremented, with the increment
  computed and not yet stored, and before the return.
\<close>

datatype at24_phase =
  Away
| Entered at24_op
| Addressed at24_op u16 u8  \<comment> \<open>the address, and the local \<open>data\<close>\<close>
| Transferred at24_op at24_answer
| Incremented at24_op u16 at24_answer
| Answering at24_op at24_answer

definition with_reg :: "u16 \<Rightarrow> at24_state \<Rightarrow> at24_state" where
  "with_reg a s = s\<lparr>prv := (prv s)\<lparr>reg_addr := a\<rparr>\<rparr>"

fun at24_advance :: "i2c_bus \<Rightarrow> at24_state \<Rightarrow> at24_phase \<Rightarrow> (at24_phase \<times> at24_state) outcome" where
  "at24_advance bus s Away = Blocked"
| "at24_advance bus s (Entered x) =
     (case x of
        Show_reg_addr \<Rightarrow> Ret (Answering x (show_reg_addr s), s)
      | Store_reg_addr buf n \<Rightarrow> obind (store_reg_addr s buf n) (\<lambda>(r, s'). Ret (Answering x (r, []), s'))
      | Show_read_byte g \<Rightarrow> Ret (Addressed x (reg_addr (prv s)) g, s)
      | Store_write_byte buf n \<Rightarrow> obind (has_0x buf) (\<lambda>prefix.
          if prefix then obind (convert_char_to_hex_reg (drop 2 buf) 2) (\<lambda>(cret, data).
            if cret > -1 then Ret (Addressed x (reg_addr (prv s)) (word_of_int data), s)
            else Ret (Answering x (neg EINVAL, []), s))
          else Ret (Transferred x (n, []), s)))"
| "at24_advance bus s (Addressed x a d) =
     (case x of
        Show_read_byte g \<Rightarrow>
          (let (ret, data, h) = at24c256_i2c_byte_read bus (xfers s) (client (prv s)) a d in
           if ret = -1 then Ret (Answering x (ret, []), s\<lparr>xfers := h\<rparr>)
           else let t = [48, 120] @ hex2 data @ [10] in
             Ret (Transferred x (int (length t), t), s\<lparr>xfers := h\<rparr>))
      | Store_write_byte buf n \<Rightarrow>
          (let (ret, h) = at24c256_i2c_byte_write bus (xfers s) (client (prv s)) a d in
           if ret = -1 then Ret (Answering x (ret, []), s\<lparr>xfers := h\<rparr>)
           else Ret (Transferred x (n, []), s\<lparr>xfers := h\<rparr>))
      | _ \<Rightarrow> Blocked)"
| "at24_advance bus s (Transferred x ans) = Ret (Incremented x (next_reg (reg_addr (prv s))) ans, s)"
| "at24_advance bus s (Incremented x a ans) = Ret (Answering x ans, with_reg a s)"
| "at24_advance bus s (Answering x ans) = Blocked"

section \<open>The system\<close>

record at24_system =
  device :: at24_state
  users :: "nat \<Rightarrow> at24_phase"
  served :: "(at24_op \<times> at24_answer) list"  \<comment> \<open>the calls in the order of their last access\<close>
  at24_crash :: "fault option"

definition at24_quiet :: "at24_state \<Rightarrow> at24_system" where
  "at24_quiet s = \<lparr>device = s, users = (\<lambda>i. Away), served = [], at24_crash = None\<rparr>"

datatype at24_action = Enter nat at24_op | Proceed nat | Leave nat

fun finished :: "at24_phase \<Rightarrow> (at24_op \<times> at24_answer) list" where
  "finished (Answering x ans) = [(x, ans)]"
| "finished _ = []"

fun at24_fire :: "i2c_bus \<Rightarrow> at24_action \<Rightarrow> at24_system \<Rightarrow> at24_system option" where
  "at24_fire bus (Enter i x) s = (if users s i = Away then Some (s\<lparr>users := (users s)(i := Entered x)\<rparr>) else None)"
| "at24_fire bus (Proceed i) s =
     (case at24_advance bus (device s) (users s i) of
        Ret (ph, d) \<Rightarrow> Some (s\<lparr>device := d, users := (users s)(i := ph), served := served s @ finished ph\<rparr>)
      | Fault e \<Rightarrow> Some (s\<lparr>at24_crash := Some e\<rparr>)
      | Blocked \<Rightarrow> None)"
| "at24_fire bus (Leave i) s =
     (case users s i of Answering x ans \<Rightarrow> Some (s\<lparr>users := (users s)(i := Away)\<rparr>) | _ \<Rightarrow> None)"

text \<open>
  Users who take turns start a call that uses or sets the address only when no other process is
  in such a call; anybody may look at the address at any time.
\<close>

fun moving :: "at24_phase \<Rightarrow> bool" where
  "moving Away = False"
| "moving (Answering x ans) = False"
| "moving (Entered x) = (x \<noteq> Show_reg_addr)"
| "moving _ = True"

fun in_turn :: "at24_action \<Rightarrow> at24_system \<Rightarrow> bool" where
  "in_turn (Enter i x) s = (x = Show_reg_addr \<or> (\<forall>j. \<not> moving (users s j)))"
| "in_turn _ s = True"

fun action_text :: "at24_action \<Rightarrow> bool" where
  "action_text (Enter i x) = text_op x"
| "action_text _ = True"

inductive at24_step :: "i2c_bus \<Rightarrow> bool \<Rightarrow> at24_system \<Rightarrow> at24_system \<Rightarrow> bool" for bus turns where
  fires: "at24_fire bus a s = Some s' \<Longrightarrow> action_text a \<Longrightarrow> (turns \<longrightarrow> in_turn a s) \<Longrightarrow> at24_step bus turns s s'"

inductive_cases at24_stepE: "at24_step bus turns s s'"

abbreviation at24_reach :: "i2c_bus \<Rightarrow> bool \<Rightarrow> at24_state \<Rightarrow> at24_system \<Rightarrow> bool" where
  "at24_reach bus turns d \<equiv> (at24_step bus turns)\<^sup>*\<^sup>* (at24_quiet d)"

section \<open>Any users: safe and never waiting\<close>

fun rank :: "at24_phase \<Rightarrow> nat" where
  "rank (Entered x) = 4"
| "rank (Addressed x a d) = 3"
| "rank (Transferred x ans) = 2"
| "rank (Incremented x a ans) = 1"
| "rank _ = 0"

fun phase_ok :: "at24_phase \<Rightarrow> bool" where
  "phase_ok (Entered x) = text_op x"
| "phase_ok (Addressed x a d) = (unat a < 32768 \<and> attr_of x \<in> {(Read_byte_attr, False), (Write_byte_attr, True)})"
| "phase_ok (Incremented x a ans) = (unat a < 32768)"
| "phase_ok _ = True"

lemma transfer_op:
  "attr_of x \<in> {(Read_byte_attr, False), (Write_byte_attr, True)} \<Longrightarrow>
   (\<exists>g. x = Show_read_byte g) \<or> (\<exists>buf n. x = Store_write_byte buf n)"
  by (cases x) auto

lemma advance_ok:
  assumes "reg_ok s" "phase_ok ph" "0 < rank ph"
  shows "\<exists>ph' s'. at24_advance bus s ph = Ret (ph', s') \<and> reg_ok s' \<and> phase_ok ph' \<and> rank ph' < rank ph"
proof (cases ph)
  case (Entered x)
  show ?thesis
  proof (cases x)
    case (Store_reg_addr buf n)
    with assms(1,2) store_ok(1) [of buf s n] show ?thesis by (auto simp: Entered)
  next
    case (Store_write_byte buf n)
    then have buf: "nul_terminated buf" using assms(2) by (simp add: Entered)
    obtain b where b: "has_0x buf = Ret b" "b \<longrightarrow> 2 < length buf" using has_0x_text [OF buf] by blast
    show ?thesis
      using assms(1) b convert_text [OF buf, of 2]
      by (cases b) (auto simp: Entered Store_write_byte reg_ok_def)
  qed (use assms(1) in \<open>simp_all add: Entered reg_ok_def\<close>)
next
  case (Addressed x a d)
  with assms(2) have "(\<exists>g. x = Show_read_byte g) \<or> (\<exists>buf n. x = Store_write_byte buf n)"
    using transfer_op by simp
  then show ?thesis
    using assms(1) by (auto simp: Addressed reg_ok_def Let_def split: prod.splits)
qed (use assms in \<open>auto simp: reg_ok_def with_reg_def next_reg_small\<close>)

definition users_ok :: "at24_system \<Rightarrow> bool" where
  "users_ok s \<longleftrightarrow> at24_crash s = None \<and> reg_ok (device s) \<and> (\<forall>i. phase_ok (users s i))"

lemma advance_rank: "at24_advance bus s ph = Ret x \<Longrightarrow> 0 < rank ph" "at24_advance bus s ph = Fault e \<Longrightarrow> 0 < rank ph"
  by (cases ph; simp)+

lemma users_ok_step:
  assumes "users_ok s" "at24_step bus turns s s'"
  shows "users_ok s'"
proof -
  obtain a where a: "at24_fire bus a s = Some s'" "action_text a" using assms(2) by (auto elim: at24_stepE)
  show ?thesis
  proof (cases a)
    case (Enter i x)
    then show ?thesis using a assms(1) by (auto simp: users_ok_def split: if_splits)
  next
    case (Proceed i)
    then have "0 < rank (users s i)"
      using a(1) advance_rank by (auto split: outcome.splits)
    from advance_ok [OF _ _ this] assms(1) obtain ph d where
      "at24_advance bus (device s) (users s i) = Ret (ph, d)" "reg_ok d" "phase_ok ph"
      unfolding users_ok_def by blast
    then show ?thesis using Proceed a(1) assms(1) by (auto simp: users_ok_def)
  next
    case (Leave i)
    then show ?thesis using a(1) assms(1) by (auto simp: users_ok_def split: at24_phase.splits)
  qed
qed

lemma users_ok_reach: "at24_reach bus turns d s \<Longrightarrow> reg_ok d \<Longrightarrow> users_ok s"
proof (induction rule: rtranclp_induct)
  case base
  then show ?case by (simp add: users_ok_def at24_quiet_def)
qed (rule users_ok_step)

fun actor :: "at24_action \<Rightarrow> nat" where
  "actor (Enter i x) = i"
| "actor (Proceed i) = i"
| "actor (Leave i) = i"

lemma others_stay: "at24_fire bus a s = Some s' \<Longrightarrow> actor a \<noteq> i \<Longrightarrow> users s' i = users s i"
  by (cases a) (auto split: if_splits outcome.splits at24_phase.splits)

section \<open>Users who take turns\<close>

text \<open>
  \<open>explained bus t s ph\<close>: the process in phase \<open>ph\<close> has brought the device from \<open>t\<close> to \<open>s\<close>, and
  what is left of its call will do what the uninterrupted call does on \<open>t\<close>.
\<close>

fun explained :: "i2c_bus \<Rightarrow> at24_state \<Rightarrow> at24_state \<Rightarrow> at24_phase \<Rightarrow> bool" where
  "explained bus t s (Addressed x a d) = (s = t \<and> a = reg_addr (prv t) \<and>
     (x = Show_read_byte d \<or> (\<exists>buf n cret data. x = Store_write_byte buf n \<and> has_0x buf = Ret True \<and>
        convert_char_to_hex_reg (drop 2 buf) 2 = Ret (cret, data) \<and> cret > -1 \<and> d = word_of_int data)))"
| "explained bus t s (Transferred x ans) =
     (reg_addr (prv s) = reg_addr (prv t) \<and> at24_apply bus t x = Ret (ans, with_reg (next_reg (reg_addr (prv s))) s))"
| "explained bus t s (Incremented x a ans) =
     (reg_addr (prv s) = reg_addr (prv t) \<and> at24_apply bus t x = Ret (ans, with_reg a s))"
| "explained bus t s _ = (s = t)"

text \<open>A step of a process that moves the address: it goes on as explained, or it has finished.\<close>

lemma explained_advance:
  assumes "explained bus t s ph" "moving ph" "at24_advance bus s ph = Ret (ph', s')"
  shows "(\<exists>x ans. ph' = Answering x ans \<and> at24_apply bus t x = Ret (ans, s')) \<or>
    moving ph' \<and> explained bus t s' ph' \<and> reg_addr (prv s') = reg_addr (prv t)"
proof (cases ph)
  case (Entered x)
  then have st: "s = t" using assms(1) by simp
  show ?thesis
  proof (cases x)
    case (Store_write_byte buf n)
    then show ?thesis
      using assms(3) by (auto simp: Entered st obind_Ret_iff store_write_byte_def with_reg_def Let_def split: if_splits)
  qed (use assms in \<open>auto simp: Entered obind_Ret_iff\<close>)
next
  case (Addressed x a d)
  then have st: "s = t" "a = reg_addr (prv t)" using assms(1) by simp_all
  from assms(1) consider "x = Show_read_byte d"
    | buf n cret data where "x = Store_write_byte buf n" "has_0x buf = Ret True"
        "convert_char_to_hex_reg (drop 2 buf) 2 = Ret (cret, data)" "cret > -1" "d = word_of_int data"
    by (auto simp: Addressed)
  then show ?thesis
  proof cases
    case 1
    then show ?thesis
      using assms(3) by (auto simp: Addressed st show_read_byte_def with_reg_def Let_def split: prod.splits if_splits)
  next
    case 2
    then show ?thesis
      using assms(3) by (auto simp: Addressed st store_write_byte_def with_reg_def Let_def split: prod.splits if_splits)
  qed
qed (use assms in \<open>auto simp: with_reg_def\<close>)

definition turns_inv :: "i2c_bus \<Rightarrow> at24_state \<Rightarrow> at24_system \<Rightarrow> at24_state \<Rightarrow> bool" where
  "turns_inv bus d s t \<longleftrightarrow>
     at24_run bus d (map fst (served s)) = Ret (map snd (served s), t) \<and>
     reg_addr (prv (device s)) = reg_addr (prv t) \<and>
     (\<forall>i j. moving (users s i) \<and> moving (users s j) \<longrightarrow> i = j) \<and>
     (\<forall>i. moving (users s i) \<longrightarrow> explained bus t (device s) (users s i)) \<and>
     ((\<forall>i. \<not> moving (users s i)) \<longrightarrow> device s = t)"

lemma still_advance:
  "at24_advance bus s ph = Ret (ph', s') \<Longrightarrow> \<not> moving ph \<Longrightarrow>
   ph' = Answering Show_reg_addr (show_reg_addr s) \<and> s' = s"
  by (cases ph) auto

lemma turns_inv_step:
  assumes "turns_inv bus d s t" "at24_step bus True s s'" "users_ok s"
  shows "\<exists>t'. turns_inv bus d s' t'"
proof -
  obtain a where a: "at24_fire bus a s = Some s'" "in_turn a s" using assms(2) by (auto elim: at24_stepE)
  note inv = assms(1) [unfolded turns_inv_def]
  show ?thesis
  proof (cases a)
    case (Enter i x)
    then have s': "users s i = Away" "s' = s\<lparr>users := (users s)(i := Entered x)\<rparr>"
      using a(1) by (simp_all split: if_splits)
    show ?thesis
    proof (cases "x = Show_reg_addr")
      case True
      then have "moving (users s' j) = moving (users s j)" for j by (simp add: s')
      then show ?thesis
        using inv by (intro exI [of _ t]) (auto simp: s' True turns_inv_def)
    next
      case False
      then have "\<forall>j. \<not> moving (users s j)" using a(2) Enter by simp
      then show ?thesis
        using inv by (intro exI [of _ t]) (auto simp: s' turns_inv_def)
    qed
  next
    case (Proceed i)
    have "0 < rank (users s i)" using a(1) advance_rank by (auto simp: Proceed split: outcome.splits)
    from advance_ok [OF _ _ this] assms(3) obtain ph e where
      adv: "at24_advance bus (device s) (users s i) = Ret (ph, e)" unfolding users_ok_def by blast
    then have s': "s' = s\<lparr>device := e, users := (users s)(i := ph), served := served s @ finished ph\<rparr>"
      using a(1) by (simp add: Proceed)
    show ?thesis
    proof (cases "moving (users s i)")
      case False
      from still_advance [OF adv False] have ph: "ph = Answering Show_reg_addr (show_reg_addr (device s))" "e = device s"
        by simp_all
      have "at24_apply bus t Show_reg_addr = Ret (show_reg_addr (device s), t)"
        using inv by (simp add: show_reg_addr_def)
      with inv session_snoc [of "at24_apply bus" d "map fst (served s)" "map snd (served s)" t Show_reg_addr]
      have "at24_run bus d (map fst (served s) @ [Show_reg_addr]) =
          Ret (map snd (served s) @ [show_reg_addr (device s)], t)" by blast
      then show ?thesis
        using inv False by (intro exI [of _ t]) (auto simp: s' ph turns_inv_def)
    next
      case True
      then have alone: "\<not> moving (users s j)" if "j \<noteq> i" for j using inv that by blast
      from True inv have "explained bus t (device s) (users s i)" by blast
      from explained_advance [OF this True adv] show ?thesis
      proof (elim disjE exE conjE)
        fix x ans
        assume ph: "ph = Answering x ans" and "at24_apply bus t x = Ret (ans, e)"
        with inv session_snoc [of "at24_apply bus" d "map fst (served s)" "map snd (served s)" t x ans e]
        have "at24_run bus d (map fst (served s) @ [x]) = Ret (map snd (served s) @ [ans], e)" by blast
        then show ?thesis
          using alone by (intro exI [of _ e]) (auto simp: s' ph turns_inv_def)
      next
        assume "moving ph" and e: "explained bus t e ph" "reg_addr (prv e) = reg_addr (prv t)"
        moreover from this have "finished ph = []" by (cases ph) simp_all
        ultimately show ?thesis
          using alone inv by (intro exI [of _ t]) (auto simp: s' turns_inv_def)
      qed
    qed
  next
    case (Leave i)
    then obtain x ans where s': "users s i = Answering x ans" "s' = s\<lparr>users := (users s)(i := Away)\<rparr>"
      using a(1) by (auto split: at24_phase.splits)
    then have "moving (users s' j) = moving (users s j)" for j by simp
    then show ?thesis
      using inv by (intro exI [of _ t]) (auto simp: s' turns_inv_def split: if_splits)
  qed
qed

lemma turns_inv_reach:
  assumes "at24_reach bus True d s" "reg_ok d"
  shows "\<exists>t. turns_inv bus d s t"
  using assms
proof (induction rule: rtranclp_induct)
  case base
  then show ?case by (intro exI [of _ d]) (simp add: turns_inv_def at24_quiet_def)
next
  case (step s s')
  then obtain t where "turns_inv bus d s t" by blast
  from turns_inv_step [OF this step.hyps(2)] users_ok_reach [OF step.hyps(1) step.prems] show ?case by blast
qed

section \<open>Runs\<close>

fun at24_fires :: "i2c_bus \<Rightarrow> at24_action list \<Rightarrow> at24_system \<Rightarrow> at24_system option" where
  "at24_fires bus [] s = Some s"
| "at24_fires bus (a # as) s = (case at24_fire bus a s of None \<Rightarrow> None | Some s' \<Rightarrow> at24_fires bus as s')"

fun legal_run :: "i2c_bus \<Rightarrow> bool \<Rightarrow> at24_action list \<Rightarrow> at24_system \<Rightarrow> bool" where
  "legal_run bus turns [] s = True"
| "legal_run bus turns (a # as) s = (action_text a \<and> (turns \<longrightarrow> in_turn a s) \<and>
     (case at24_fire bus a s of None \<Rightarrow> False | Some s' \<Rightarrow> legal_run bus turns as s'))"

lemma at24_fires_reach:
  "at24_fires bus as s = Some s' \<Longrightarrow> legal_run bus turns as s \<Longrightarrow> (at24_step bus turns)\<^sup>*\<^sup>* s s'"
proof (induction as arbitrary: s)
  case (Cons a as)
  then obtain t where t: "at24_fire bus a s = Some t" "at24_fires bus as t = Some s'"
    by (auto split: option.splits)
  with Cons.prems(2) have "at24_step bus turns s t" "legal_run bus turns as t"
    by (auto intro: at24_step.fires)
  with Cons.IH [OF t(2)] show ?case by (blast intro: converse_rtranclp_into_rtranclp)
qed simp

lemma answers_served:
  "at24_reach bus turns d s \<Longrightarrow> users s i = Answering x ans \<Longrightarrow> (x, ans) \<in> set (served s)"
proof (induction arbitrary: i x ans rule: rtranclp_induct)
  case base
  then show ?case by (simp add: at24_quiet_def)
next
  case (step s s')
  from step.hyps(2) obtain a where a: "at24_fire bus a s = Some s'" by (auto elim: at24_stepE)
  have old: "(x, ans) \<in> set (served s')" if "users s i = Answering x ans"
    using step.IH [OF that] a by (cases a) (auto split: if_splits outcome.splits at24_phase.splits)
  then show ?case
    using a step.prems
    by (cases a) (auto split: if_splits outcome.splits at24_phase.splits)
qed

abbreviation demo_device :: at24_state where
  "demo_device \<equiv> \<lparr>prv = \<lparr>client = 0x50, reg_addr = 0x10\<rparr>, xfers = []\<rparr>"

abbreviation demo_text :: "u8 \<Rightarrow> u8 list" where
  "demo_text c \<equiv> [48, 120, 48, c, 0]"

lemma demo_text_facts:
  "nul_terminated (demo_text c)" "has_0x (demo_text c) = Ret True"
  "convert_char_to_hex_reg (drop 2 (demo_text 49)) 2 = Ret (0, 1)"
  "convert_char_to_hex_reg (drop 2 (demo_text 50)) 2 = Ret (0, 2)"
  "reg_ok demo_device"
proof -
  show "convert_char_to_hex_reg (drop 2 (demo_text 49)) 2 = Ret (0, 1)"
    "convert_char_to_hex_reg (drop 2 (demo_text 50)) 2 = Ret (0, 2)"
    by (simp_all add: convert_char_to_hex_reg_def convert_loop.simps char_at_def tmp_char_def shl_int_def)
qed (simp_all add: nul_terminated_def has_0x_def char_at_def reg_ok_def)

section \<open>Properties\<close>

text \<open>
  C17: Any number of processes in the attribute functions at once, their accesses interleaved in
  any order: no call faults, the address stays in the memory, and nobody ever waits for anybody:
  every call of a process comes closer to its end with each of at most four steps of that
  process, which are possible whatever the others do, and no step of another process sets it back.
\<close>

theorem at24c256_users_safe:
  assumes "reg_ok d" "at24_reach bus turns d s"
  shows "at24_crash s = None \<and> reg_ok (device s) \<and>
    rank (users s i) \<le> 4 \<and> (rank (users s i) = 0 \<longleftrightarrow> users s i = Away \<or> finished (users s i) \<noteq> []) \<and>
    (0 < rank (users s i) \<longrightarrow> (\<exists>s'. at24_fire bus (Proceed i) s = Some s' \<and>
       at24_crash s' = None \<and> rank (users s' i) < rank (users s i))) \<and>
    (\<forall>a s'. at24_fire bus a s = Some s' \<and> actor a \<noteq> i \<longrightarrow> users s' i = users s i)"
proof -
  from users_ok_reach [OF assms(2,1)] have ok: "at24_crash s = None" "reg_ok (device s)" "phase_ok (users s i)"
    by (simp_all add: users_ok_def)
  have "\<exists>s'. at24_fire bus (Proceed i) s = Some s' \<and> at24_crash s' = None \<and> rank (users s' i) < rank (users s i)"
    if r: "0 < rank (users s i)"
  proof -
    from advance_ok [OF ok(2,3) r] obtain ph e where
      "at24_advance bus (device s) (users s i) = Ret (ph, e)" "rank ph < rank (users s i)" by blast
    then show ?thesis using ok(1) by simp
  qed
  moreover have "rank (users s i) \<le> 4" "rank (users s i) = 0 \<longleftrightarrow> users s i = Away \<or> finished (users s i) \<noteq> []"
    by (cases "users s i"; simp)+
  ultimately show ?thesis using ok(1,2) others_stay by blast
qed

lemma at24c256_users_safe_witness:
  "\<exists>s. at24_fires (slow_chip (\<lambda>_. 7)) [Enter 0 (Show_read_byte 0), Enter 1 (Show_read_byte 0), Proceed 0, Proceed 1, Proceed 0]
     (at24_quiet demo_device) = Some s \<and> rank (users s 1) = 3 \<and> at24_crash s = None \<and>
     (\<exists>s'. at24_fire (slow_chip (\<lambda>_. 7)) (Proceed 1) s = Some s' \<and> rank (users s' 1) < 3)"
proof -
  let ?bus = "slow_chip (\<lambda>_. 7)"
  let ?as = "[Enter 0 (Show_read_byte 0), Enter 1 (Show_read_byte 0), Proceed 0, Proceed 1, Proceed 0]"
  have legal: "legal_run ?bus False ?as (at24_quiet demo_device)"
    by (simp add: at24_quiet_def at24c256_i2c_byte_read_def chip_def read_msgs_def Let_def)
  obtain s where s: "at24_fires ?bus ?as (at24_quiet demo_device) = Some s" "rank (users s 1) = 3"
    by (auto simp: at24_quiet_def at24c256_i2c_byte_read_def chip_def read_msgs_def Let_def)
  from at24c256_users_safe [OF demo_text_facts(5) at24_fires_reach [OF s(1) legal], of 1] s show ?thesis
    by auto
qed

text \<open>
  Users who take turns notice nothing of one another: as long as no call that uses or sets the
  address starts while another process is in such a call, every execution, with any number of
  processes that look at the address in between, gives exactly the answers and the state of the
  same calls made one after the other without interruption, in the order of their last access.
\<close>

theorem at24c256_turns_are_atomic:
  assumes "reg_ok d" "at24_reach bus True d s"
  shows "\<exists>t. at24_run bus d (map fst (served s)) = Ret (map snd (served s), t) \<and>
    reg_addr (prv (device s)) = reg_addr (prv t) \<and>
    ((\<forall>i. \<not> moving (users s i)) \<longrightarrow> device s = t) \<and>
    (\<forall>i x ans. users s i = Answering x ans \<longrightarrow> (x, ans) \<in> set (served s))"
  using turns_inv_reach [OF assms(2,1)] answers_served [OF assms(2)] unfolding turns_inv_def by blast

lemma at24c256_turns_are_atomic_witness:
  "\<exists>s. at24_fires (slow_chip (\<lambda>_. 7)) [Enter 0 (Show_read_byte 0), Proceed 0, Enter 1 Show_reg_addr, Proceed 0, Proceed 1]
     (at24_quiet demo_device) = Some s \<and> moving (users s 0) \<and> map fst (served s) = [Show_reg_addr] \<and>
     (\<exists>t. at24_run (slow_chip (\<lambda>_. 7)) demo_device [Show_reg_addr] = Ret (map snd (served s), t))"
proof -
  let ?bus = "slow_chip (\<lambda>_. 7)"
  let ?as = "[Enter 0 (Show_read_byte 0), Proceed 0, Enter 1 Show_reg_addr, Proceed 0, Proceed 1]"
  have legal: "legal_run ?bus True ?as (at24_quiet demo_device)"
    by (simp add: at24_quiet_def at24c256_i2c_byte_read_def chip_def read_msgs_def Let_def)
  obtain s where s: "at24_fires ?bus ?as (at24_quiet demo_device) = Some s" "moving (users s 0)"
      "map fst (served s) = [Show_reg_addr]"
    by (auto simp: at24_quiet_def at24c256_i2c_byte_read_def chip_def read_msgs_def Let_def)
  from at24c256_turns_are_atomic [OF demo_text_facts(5) at24_fires_reach [OF s(1) legal]] s show ?thesis
    by auto
qed

text \<open>
  Without turns a byte is lost: whatever two processes write, there is an execution in
  which both are told that their byte is written, but the second byte has replaced the first
  and the address has moved by one cell. No order of the two calls gives that result.
\<close>

theorem at24c256_writes_collide:
  assumes "at24_chip rdy bus (client (prv d)) mem0" "reg_ok d" "rested rdy (xfers d)" "nul_terminated buf1" "nul_terminated buf2"
    and "has_0x buf1 = Ret True" "convert_char_to_hex_reg (drop 2 buf1) 2 = Ret (0, v1)"
    and "has_0x buf2 = Ret True" "convert_char_to_hex_reg (drop 2 buf2) 2 = Ret (0, v2)"
  shows "\<exists>s. at24_reach bus False d s \<and> (\<forall>i. users s i = Away) \<and>
    served s = [(Store_write_byte buf1 n1, (n1, [])), (Store_write_byte buf2 n2, (n2, []))] \<and>
    contents rdy mem0 (xfers (device s)) = (contents rdy mem0 (xfers d))(reg_addr (prv d) := word_of_int v2) \<and>
    reg_addr (prv (device s)) = next_reg (reg_addr (prv d)) \<and>
    (\<forall>cs \<in> {[Store_write_byte buf1 n1, Store_write_byte buf2 n2], [Store_write_byte buf2 n2, Store_write_byte buf1 n1]}.
       \<forall>rs t. at24_run bus d cs = Ret (rs, t) \<longrightarrow> reg_addr (prv t) \<noteq> reg_addr (prv (device s)))"
proof -
  let ?w1 = "Store_write_byte buf1 n1" and ?w2 = "Store_write_byte buf2 n2"
  let ?as = "[Enter 0 ?w1, Enter 1 ?w2, Proceed 0, Proceed 1, Proceed 0, Proceed 1, Proceed 0, Proceed 1,
    Proceed 0, Proceed 1, Leave 0, Leave 1]"
  let ?a = "reg_addr (prv d)" and ?cl = "client (prv d)"
  let ?m = "\<lambda>v. write_msgs ?cl [addr_msb ?a, addr_lsb ?a, word_of_int v]"
  have ready: "rdy (xfers d @ t)" "rdy (xfers d)" for t
    using assms(3) rested_ready by (auto simp: rested_def)
  have sent: "fst (bus (xfers d @ t) (write_msgs ?cl [hi, lo, b])) = 1" "fst (bus (xfers d) (write_msgs ?cl [hi, lo, b])) = 1"
    for t hi lo b
    using assms(1) ready unfolding at24_chip_def by blast+
  define s where "s = \<lparr>device = with_reg (next_reg ?a) (d\<lparr>xfers := xfers d @ [?m v1, ?m v2]\<rparr>), users = (\<lambda>i. Away),
    served = [(?w1, (n1, [])), (?w2, (n2, []))], at24_crash = None\<rparr>"
  have run: "at24_fires bus ?as (at24_quiet d) = Some s"
    using sent assms(6-9)
    by (simp add: at24_quiet_def s_def at24c256_i2c_byte_write_def with_reg_def Let_def fun_eq_iff)
  have "legal_run bus False ?as (at24_quiet d)"
    using sent assms(4-9)
    by (simp add: at24_quiet_def at24c256_i2c_byte_write_def with_reg_def Let_def)
  then have reach: "at24_reach bus False d s" using at24_fires_reach [OF run] by blast
  have cell: "cell (addr_msb ?a) (addr_lsb ?a) = ?a" using assms(2) cell_of_addr by (simp add: reg_ok_def)
  have "contents rdy mem0 (xfers d @ [?m v1, ?m v2]) = (contents rdy mem0 (xfers d))(?a := word_of_int v2)"
    using contents_snoc(2) [of rdy mem0 "xfers d @ [?m v1]"] contents_snoc(2) [of rdy mem0 "xfers d"] ready by (simp add: cell)
  moreover have "next_reg ?a \<noteq> next_reg (next_reg ?a)"
    using assms(2) next_reg_small [of ?a] unfolding reg_ok_def by (auto simp: next_reg_wraps split: if_splits)
  ultimately show ?thesis
    using reach sent assms(6-9)
    by (intro exI [of _ s]) (auto simp: s_def with_reg_def store_write_byte_def at24c256_i2c_byte_write_def Let_def)
qed

lemma at24c256_writes_collide_witness:
  "\<exists>s. at24_reach (slow_chip (\<lambda>_. 7)) False demo_device s \<and> contents (\<lambda>h. True) (\<lambda>_. 7) (xfers (device s)) = (\<lambda>_. 7)(0x10 := 2) \<and>
     map snd (served s) = [(5, []), (5, [])]"
proof -
  from at24c256_writes_collide [where d = demo_device, OF slow_chip(1) [of "\<lambda>_. 7"] demo_text_facts(5) slow_chip(2) demo_text_facts(1,1,2,3,2,4), of 5 5]
  show ?thesis by (auto simp: contents_Nil)
qed

end
