(* ===== verification/Ds1302.thy ===== *)
theory Ds1302
  imports Kernel "HOL-Library.Signed_Division"
begin

text \<open>
  \<open>device_drivers/ds1302_drv/ds1302_drv.c\<close>: a real-time clock on a 3-wire SPI bus, behind a
  register map. The driver keeps no state of its own but the history of its requests; it sets and
  reads the time. Parameters: the register map with whatever answers it, \<open>bin2bcd\<close>, \<open>bcd2bin\<close> and
  \<open>rtc_valid_tm\<close> of the kernel, and the answers of the registration calls.
\<close>

section \<open>Registers and the register map\<close>

definition DS1302_SEC_REG :: u8 where "DS1302_SEC_REG = 0x80"
definition DS1302_MIN_REG :: u8 where "DS1302_MIN_REG = 0x82"
definition DS1302_HR_REG :: u8 where "DS1302_HR_REG = 0x84"
definition DS1302_DATE_REG :: u8 where "DS1302_DATE_REG = 0x86"
definition DS1302_MON_REG :: u8 where "DS1302_MON_REG = 0x88"
definition DS1302_DAY_REG :: u8 where "DS1302_DAY_REG = 0x8A"
definition DS1302_YR_REG :: u8 where "DS1302_YR_REG = 0x8C"
definition DS1302_WP_REG :: u8 where "DS1302_WP_REG = 0x8E"
definition DS1302_REG_COUNT :: nat where "DS1302_REG_COUNT = 7"
definition WP_ENABLE :: u8 where "WP_ENABLE = 0x80"
definition WP_DISABLE :: u8 where "WP_DISABLE = 0x00"

lemmas reg_defs = DS1302_SEC_REG_def DS1302_MIN_REG_def DS1302_HR_REG_def DS1302_DATE_REG_def
  DS1302_MON_REG_def DS1302_DAY_REG_def DS1302_YR_REG_def DS1302_WP_REG_def WP_ENABLE_def WP_DISABLE_def

datatype reg_op = Reg_write u8 u8 | Reg_read u8 | Bulk_read u8 nat

type_synonym reg_history = "reg_op list"

text \<open>The answer of the register map: a return code, and the bytes a read delivers.\<close>

type_synonym reg_map = "reg_history \<Rightarrow> reg_op \<Rightarrow> int \<times> u8 list"

record rtc_time =
  tm_sec :: int
  tm_min :: int
  tm_hour :: int
  tm_mday :: int
  tm_mon :: int
  tm_year :: int
  tm_wday :: int

section \<open>Setting and reading the time\<close>

definition ds1302_ioctl :: "int \<Rightarrow> int \<Rightarrow> int" where
  "ds1302_ioctl cmd arg = 0"

text \<open>The writes of \<open>ds1302_set_time\<close>, in order; \<open>smod\<close> is the remainder of C.\<close>

definition time_writes :: "(int \<Rightarrow> u8) \<Rightarrow> rtc_time \<Rightarrow> (u8 \<times> u8) list" where
  "time_writes bin2bcd dt =
     [(DS1302_WP_REG, WP_ENABLE),
      (DS1302_SEC_REG, bin2bcd (to_u32 (tm_sec dt))),
      (DS1302_MIN_REG, bin2bcd (to_u32 (tm_min dt))),
      (DS1302_HR_REG, bin2bcd (to_u32 (tm_hour dt))),
      (DS1302_DATE_REG, bin2bcd (to_u32 (tm_mday dt))),
      (DS1302_MON_REG, bin2bcd (to_u32 (tm_mon dt + 1))),
      (DS1302_DAY_REG, bin2bcd (to_u32 (tm_wday dt + 1))),
      (DS1302_YR_REG, bin2bcd (to_u32 (tm_year dt smod 100))),
      (DS1302_WP_REG, WP_DISABLE)]"

fun write_regs :: "reg_map \<Rightarrow> reg_history \<Rightarrow> (u8 \<times> u8) list \<Rightarrow> int \<times> reg_history" where
  "write_regs rm h [] = (0, h)"
| "write_regs rm h ((r, v) # rest) =
     (let ret = fst (rm h (Reg_write r v)); h1 = h @ [Reg_write r v] in
      if ret \<noteq> 0 then (ret, h1) else write_regs rm h1 rest)"

definition ds1302_set_time ::
    "(int \<Rightarrow> u8) \<Rightarrow> reg_map \<Rightarrow> unit option \<Rightarrow> reg_history \<Rightarrow> rtc_time \<Rightarrow> (int \<times> reg_history) outcome" where
  \<comment> \<open>the third argument is the driver data, from which the code takes the map\<close>
  "ds1302_set_time bin2bcd rm prv h dt =
     deref prv (\<lambda>_. Ret (write_regs rm h (time_writes bin2bcd dt)))"

definition parse_time :: "(u8 \<Rightarrow> int) \<Rightarrow> u8 list \<Rightarrow> rtc_time" where
  "parse_time bcd2bin buf =
     \<lparr>tm_sec = bcd2bin (buf ! 0), tm_min = bcd2bin (buf ! 1), tm_hour = bcd2bin (and (buf ! 2) 0x3F),
      tm_mday = bcd2bin (buf ! 4), tm_mon = bcd2bin (and (buf ! 5) 0x1F) - 1,
      tm_year = bcd2bin (buf ! 6) + 100, tm_wday = bcd2bin (buf ! 3) - 1\<rparr>"

definition ds1302_read_time ::
    "(u8 \<Rightarrow> int) \<Rightarrow> (rtc_time \<Rightarrow> int) \<Rightarrow> reg_map \<Rightarrow> unit option \<Rightarrow> reg_history \<Rightarrow> rtc_time
     \<Rightarrow> (int \<times> rtc_time \<times> reg_history) outcome" where
  \<comment> \<open>the last argument is \<open>*dt\<close> before the call\<close>
  "ds1302_read_time bcd2bin rtc_valid_tm rm prv h dt =
     deref prv (\<lambda>_.
       let req = Bulk_read DS1302_SEC_REG DS1302_REG_COUNT; ans = rm h req; h1 = h @ [req] in
       if fst ans \<noteq> 0 then Ret (fst ans, dt, h1)
       else let dt1 = parse_time bcd2bin (snd ans) in Ret (rtc_valid_tm dt1, dt1, h1))"

section \<open>Probe and remove\<close>

record ds1302_env =
  kzalloc_ans :: kptr
  spi1 :: int
  spi2 :: int
  map_ans :: kptr
  now :: rtc_time
  rtc_ans :: kptr

definition ds1302_probe ::
    "(int \<Rightarrow> u8) \<Rightarrow> ds1302_env \<Rightarrow> reg_map \<Rightarrow> unit option \<Rightarrow> reg_history
     \<Rightarrow> (int \<times> kcall list \<times> reg_history) outcome" where
  \<comment> \<open>the driver data of the device when the probe starts is the fourth argument\<close>
  "ds1302_probe bin2bcd e rm drvdata h =
     (let t0 = [devm_alloc ''prv'' (kzalloc_ans e)] in
      if kzalloc_ans e = Null then Ret (neg ENOMEM, t0, h)
      else let t1 = t0 @ [spi_setup (spi1 e), spi_setup (spi2 e)] in
      if spi2 e \<noteq> 0 then Ret (spi2 e, t1 @ [devm_free ''prv''], h)
      else let t2 = t1 @ [devm_alloc ''map'' (map_ans e)] in
      if IS_ERR (map_ans e) then Ret (PTR_ERR (map_ans e), t2 @ [devm_free ''prv''], h)
      else let req = Reg_read DS1302_SEC_REG; ret = fst (rm h req); h1 = h @ [req] in
      if ret \<noteq> 0 then Ret (ret, t2, h1)
      else obind (ds1302_set_time bin2bcd rm drvdata h1 (now e)) (\<lambda>(_, h2).
        let t3 = t2 @ [rtc_device_register (rtc_ans e)] in
        if IS_ERR (rtc_ans e)
        then Ret (PTR_ERR (rtc_ans e), t3 @ [regmap_exit, devm_free ''prv''], h2)
        else Ret (0, t3 @ [set_drvdata], h2)))"

definition ds1302_remove :: int where
  "ds1302_remove = 0"

section \<open>Documented behaviour of the kernel\<close>

text \<open>The clock registers in the order of their addresses.\<close>

definition clock_regs :: "u8 list" where
  "clock_regs = [DS1302_SEC_REG, DS1302_MIN_REG, DS1302_HR_REG, DS1302_DATE_REG, DS1302_MON_REG,
     DS1302_DAY_REG, DS1302_YR_REG]"

text \<open>A bulk read that reports success has filled the caller's buffer.\<close>

definition bulk_documented :: "reg_map \<Rightarrow> bool" where
  "bulk_documented rm \<longleftrightarrow> (\<forall>h r n. fst (rm h (Bulk_read r n)) = 0 \<longrightarrow> length (snd (rm h (Bulk_read r n))) = n)"

text \<open>The kernel's binary coded decimal routines, on the values they are documented for.\<close>

definition bcd_documented :: "(int \<Rightarrow> u8) \<Rightarrow> (u8 \<Rightarrow> int) \<Rightarrow> bool" where
  "bcd_documented bin2bcd bcd2bin \<longleftrightarrow>
     (\<forall>n. 0 \<le> n \<and> n < 100 \<longrightarrow> uint (bin2bcd n) = n div 10 * 16 + n mod 10) \<and>
     (\<forall>b. bcd2bin b = uint b div 16 * 10 + uint b mod 16)"

text \<open>A time the register map can hold, in the twenty-first century.\<close>

definition rtc_time_ok :: "rtc_time \<Rightarrow> bool" where
  "rtc_time_ok dt \<longleftrightarrow> 0 \<le> tm_sec dt \<and> tm_sec dt < 60 \<and> 0 \<le> tm_min dt \<and> tm_min dt < 60 \<and>
     0 \<le> tm_hour dt \<and> tm_hour dt < 24 \<and> 1 \<le> tm_mday dt \<and> tm_mday dt \<le> 31 \<and>
     0 \<le> tm_mon dt \<and> tm_mon dt < 12 \<and> 100 \<le> tm_year dt \<and> tm_year dt < 200 \<and>
     0 \<le> tm_wday dt \<and> tm_wday dt < 7"

lemma bcd_roundtrip:
  assumes "bcd_documented bin2bcd bcd2bin" "0 \<le> n" "n < 100"
  shows "bcd2bin (bin2bcd n) = n"
  using assms by (simp add: bcd_documented_def)

lemma bcd_mask:
  assumes "bcd_documented bin2bcd bcd2bin" "0 \<le> n" "n < 100" "n div 10 * 16 + n mod 10 < 2 ^ k"
  shows "and (bin2bcd n) (mask k) = bin2bcd n"
proof -
  have "uint (take_bit k (bin2bcd n)) = uint (bin2bcd n)"
    using assms by (simp add: bcd_documented_def unsigned_take_bit_eq take_bit_int_eq_self)
  then show ?thesis by (simp add: take_bit_eq_mask [symmetric] word_uint_eq_iff)
qed

lemma bcd_below:
  "n < 40 \<Longrightarrow> n div 10 * 16 + n mod 10 < (64 :: int)"
  "n < 10 \<Longrightarrow> n div 10 * 16 + n mod 10 < (32 :: int)"
  using mult_div_mod_eq [of 10 n] by linarith+

lemma write_regs_ok:
  assumes "\<And>h r v. fst (rm h (Reg_write r v)) = 0"
  shows "write_regs rm h ws = (0, h @ map (\<lambda>(r, v). Reg_write r v) ws)"
  using assms by (induction ws arbitrary: h) (auto simp: Let_def)

text \<open>A run of register writes stops at the first failing one.\<close>

definition reg_writes :: "(u8 \<times> u8) list \<Rightarrow> reg_history" where
  "reg_writes ws = map (\<lambda>(r, v). Reg_write r v) ws"

definition reply :: "reg_map \<Rightarrow> reg_history \<Rightarrow> (u8 \<times> u8) list \<Rightarrow> nat \<Rightarrow> int" where
  \<comment> \<open>the answer to write number \<open>i\<close> when all before it were made\<close>
  "reply rm h ws i = fst (rm (h @ reg_writes (take i ws)) (Reg_write (fst (ws ! i)) (snd (ws ! i))))"

lemma reply_Cons: "reply rm h (w # ws) 0 = fst (rm h (Reg_write (fst w) (snd w)))"
  "reply rm h (w # ws) (Suc i) = reply rm (h @ [Reg_write (fst w) (snd w)]) ws i"
  by (simp_all add: reply_def reg_writes_def split_beta)

lemma write_regs_stops:
  "\<exists>k\<le>length ws. (\<forall>i<k. reply rm h ws i = 0) \<and>
    (if k < length ws
     then reply rm h ws k \<noteq> 0 \<and> write_regs rm h ws = (reply rm h ws k, h @ reg_writes (take (Suc k) ws))
     else write_regs rm h ws = (0, h @ reg_writes ws))"
proof (induction ws arbitrary: h)
  case (Cons w ws)
  show ?case
  proof (cases "reply rm h (w # ws) 0 = 0")
    case True
    from Cons.IH [of "h @ [Reg_write (fst w) (snd w)]"] obtain k where k: "k \<le> length ws"
      "\<forall>i<k. reply rm h (w # ws) (Suc i) = 0"
      "if k < length ws then reply rm h (w # ws) (Suc k) \<noteq> 0 \<and>
           write_regs rm (h @ [Reg_write (fst w) (snd w)]) ws =
             (reply rm h (w # ws) (Suc k), h @ [Reg_write (fst w) (snd w)] @ reg_writes (take (Suc k) ws))
       else write_regs rm (h @ [Reg_write (fst w) (snd w)]) ws =
             (0, h @ [Reg_write (fst w) (snd w)] @ reg_writes ws)"
      by (auto simp: reply_Cons)
    then show ?thesis
      using True by (intro exI [of _ "Suc k"])
        (cases w; auto simp: Let_def All_less_Suc2 reply_Cons reg_writes_def)
  next
    case False
    then show ?thesis
      by (intro exI [of _ 0]) (cases w; auto simp: Let_def reply_Cons reg_writes_def)
  qed
qed (simp add: reg_writes_def)

section \<open>Properties\<close>

text \<open>
  \<open>ds1302_set_time\<close> makes its nine register writes in order and stops at the first one
  that fails, with the code of that failure; it reports success exactly when all nine were
  made. A failure after the first write leaves the write protection as it is at that point.
\<close>

theorem ds1302_set_time_stops_at_first_failure:
  assumes ws: "ws = time_writes bin2bcd dt"
  shows "\<exists>k\<le>9. (\<forall>i<k. reply rm h ws i = 0) \<and>
    ds1302_set_time bin2bcd rm (Some ()) h dt =
      (if k < 9 then Ret (reply rm h ws k, h @ reg_writes (take (Suc k) ws)) else Ret (0, h @ reg_writes ws)) \<and>
    (k < 9 \<longrightarrow> reply rm h ws k \<noteq> 0)"
proof -
  have len: "length ws = 9" by (simp add: ws time_writes_def)
  show ?thesis
    using write_regs_stops [of ws rm h] unfolding len
    by (auto simp: ds1302_set_time_def ws [symmetric] split: if_splits)
qed

lemma ds1302_set_time_stops_at_first_failure_witness:
  "\<exists>k\<le>9. ds1302_set_time (\<lambda>n. word_of_int n) (\<lambda>h x. (if length h = 2 then -5 else 0, [])) (Some ()) []
     \<lparr>tm_sec = 1, tm_min = 2, tm_hour = 3, tm_mday = 4, tm_mon = 5, tm_year = 106, tm_wday = 6\<rparr> =
     Ret (-5, reg_writes (take (Suc k) (time_writes (\<lambda>n. word_of_int n)
       \<lparr>tm_sec = 1, tm_min = 2, tm_hour = 3, tm_mday = 4, tm_mon = 5, tm_year = 106, tm_wday = 6\<rparr>)))"
proof -
  let ?dt = "\<lparr>tm_sec = 1, tm_min = 2, tm_hour = 3, tm_mday = 4, tm_mon = 5, tm_year = 106, tm_wday = 6\<rparr>"
  let ?rm = "\<lambda>h x. (if length h = 2 then -5 else 0, [])" and ?ws = "time_writes (\<lambda>n. word_of_int n) ?dt"
  from ds1302_set_time_stops_at_first_failure [OF refl, of ?rm "[]" "\<lambda>n. word_of_int n" ?dt]
  obtain k where k: "k \<le> 9" "\<forall>i<k. reply ?rm [] ?ws i = 0"
    "ds1302_set_time (\<lambda>n. word_of_int n) ?rm (Some ()) [] ?dt =
      (if k < 9 then Ret (reply ?rm [] ?ws k, [] @ reg_writes (take (Suc k) ?ws)) else Ret (0, [] @ reg_writes ?ws))"
    "k < 9 \<longrightarrow> reply ?rm [] ?ws k \<noteq> 0" by blast
  have two: "reply ?rm [] ?ws 2 = -5"
    by (simp add: reply_def time_writes_def reg_writes_def)
  then have "\<not> 2 < k" using k(2) by auto
  then have "k < 9" by simp
  moreover from k(4) this have "reply ?rm [] ?ws k = -5"
    by (simp add: reply_def split: if_splits)
  ultimately show ?thesis using k(1,3) by (intro exI [of _ k]) simp
qed

definition rotated :: "rtc_time \<Rightarrow> rtc_time" where
  \<comment> \<open>what the parser of a read makes of a time that was set\<close>
  "rotated dt = \<lparr>tm_sec = tm_sec dt, tm_min = tm_min dt, tm_hour = tm_hour dt,
     tm_mday = tm_mon dt + 1, tm_mon = tm_wday dt, tm_year = tm_year dt, tm_wday = tm_mday dt - 1\<rparr>"

text \<open>The registers as \<open>ds1302_set_time\<close> means to write them.\<close>

definition set_regs :: "(int \<Rightarrow> u8) \<Rightarrow> rtc_time \<Rightarrow> u8 list" where
  "set_regs bin2bcd dt = map (\<lambda>r. the (map_of (time_writes bin2bcd dt) r)) clock_regs"

text \<open>
  C21: The two halves of the clock driver do not agree on the layout of the registers. Of the
  registers as \<open>ds1302_set_time\<close> writes them, in the order of their addresses in which
  \<open>ds1302_read_time\<close> takes its seven bytes, the read makes the right second, minute, hour and year
  (2000 to 2099), but it takes the day of the month for the weekday, the month for the day of the
  month and the weekday for the month. So the time it reports is the one that was set only if all
  three happen to agree.
\<close>

theorem ds1302_layout_rotates:
  assumes "bcd_documented bin2bcd bcd2bin" "rtc_time_ok dt"
    and "rm h (Bulk_read DS1302_SEC_REG DS1302_REG_COUNT) = (0, set_regs bin2bcd dt)"
    and "ds1302_read_time bcd2bin valid rm prv h dt0 = Ret (r, dt', h')"
  shows "dt' = \<lparr>tm_sec = tm_sec dt, tm_min = tm_min dt, tm_hour = tm_hour dt,
      tm_mday = tm_mon dt + 1, tm_mon = tm_wday dt, tm_year = tm_year dt, tm_wday = tm_mday dt - 1\<rparr> \<and>
    r = valid dt' \<and>
    (dt' = dt \<longleftrightarrow> tm_mday dt = tm_mon dt + 1 \<and> tm_wday dt = tm_mon dt)"
proof -
  note b = bcd_roundtrip [OF assms(1)]
  have rng: "0 \<le> tm_sec dt" "tm_sec dt < 60" "0 \<le> tm_min dt" "tm_min dt < 60" "0 \<le> tm_hour dt"
    "tm_hour dt < 24" "1 \<le> tm_mday dt" "tm_mday dt \<le> 31" "0 \<le> tm_mon dt" "tm_mon dt < 12"
    "100 \<le> tm_year dt" "tm_year dt < 200" "0 \<le> tm_wday dt" "tm_wday dt < 7"
    using assms(2) by (simp_all add: rtc_time_ok_def)
  have year: "tm_year dt smod 100 = tm_year dt - 100"
    using rng(11,12) mod_pos_pos_trivial [of "tm_year dt - 100" 100] minus_mod_self2 [of "tm_year dt" 100]
    by (simp add: signed_modulo_int_def)
  have m: "(0x3F :: u8) = mask 6" "(0x1F :: u8) = mask 5" by (simp_all add: mask_eq_exp_minus_1)
  have hour: "and (bin2bcd (tm_hour dt)) 0x3F = bin2bcd (tm_hour dt)"
    unfolding m using rng bcd_below(1) by (intro bcd_mask [OF assms(1)]) simp_all
  have day: "and (bin2bcd (tm_wday dt + 1)) 0x1F = bin2bcd (tm_wday dt + 1)"
    unfolding m using rng bcd_below(2) by (intro bcd_mask [OF assms(1)]) simp_all
  have regs: "set_regs bin2bcd dt =
      [bin2bcd (tm_sec dt), bin2bcd (tm_min dt), bin2bcd (tm_hour dt), bin2bcd (tm_mday dt),
       bin2bcd (tm_mon dt + 1), bin2bcd (tm_wday dt + 1), bin2bcd (tm_year dt - 100)]"
    using rng year by (simp add: set_regs_def clock_regs_def time_writes_def reg_defs to_u32_id)
  have "parse_time bcd2bin (set_regs bin2bcd dt) = rotated dt"
    using rng hour day unfolding regs by (simp add: parse_time_def rotated_def b)
  then have "dt' = rotated dt" "r = valid dt'"
    using assms(3,4) by (cases prv; auto simp: ds1302_read_time_def Let_def)+
  then show ?thesis by (cases dt) (auto simp: rotated_def)
qed

definition model_bin2bcd :: "int \<Rightarrow> u8" where
  "model_bin2bcd n = word_of_int (n div 10 * 16 + n mod 10)"

definition model_bcd2bin :: "u8 \<Rightarrow> int" where
  "model_bcd2bin b = uint b div 16 * 10 + uint b mod 16"

lemma bcd_documented_model: "bcd_documented model_bin2bcd model_bcd2bin"
proof -
  have "uint (model_bin2bcd n) = n div 10 * 16 + n mod 10" if "0 \<le> n" "n < 100" for n
  proof -
    have "n div 10 < 10" "0 \<le> n div 10" "0 \<le> n mod 10" "n mod 10 < 10" using that by simp_all
    then have "0 \<le> n div 10 * 16 + n mod 10" "n div 10 * 16 + n mod 10 < 256" by linarith+
    then show ?thesis by (simp add: model_bin2bcd_def uint_word_of_int del: of_int_add of_int_mult)
  qed
  then show ?thesis by (simp add: bcd_documented_def model_bcd2bin_def)
qed

lemma ds1302_layout_rotates_witness:
  "\<exists>h' r dt'. ds1302_read_time model_bcd2bin (\<lambda>_. 0) (\<lambda>h q. (0, set_regs model_bin2bcd
      \<lparr>tm_sec = 1, tm_min = 2, tm_hour = 3, tm_mday = 24, tm_mon = 5, tm_year = 121, tm_wday = 4\<rparr>)) (Some ()) []
      \<lparr>tm_sec = 0, tm_min = 0, tm_hour = 0, tm_mday = 0, tm_mon = 0, tm_year = 0, tm_wday = 0\<rparr> = Ret (r, dt', h') \<and>
    dt' = \<lparr>tm_sec = 1, tm_min = 2, tm_hour = 3, tm_mday = 6, tm_mon = 4, tm_year = 121, tm_wday = 23\<rparr>"
proof -
  let ?dt = "\<lparr>tm_sec = 1, tm_min = 2, tm_hour = 3, tm_mday = 24, tm_mon = 5, tm_year = 121, tm_wday = 4\<rparr>"
    and ?old = "\<lparr>tm_sec = 0, tm_min = 0, tm_hour = 0, tm_mday = 0, tm_mon = 0, tm_year = 0, tm_wday = 0\<rparr>"
  let ?rm = "\<lambda>h q. (0, set_regs model_bin2bcd ?dt)"
  obtain r dt' h' where read: "ds1302_read_time model_bcd2bin (\<lambda>_. 0) ?rm (Some ()) [] ?old = Ret (r, dt', h')"
    by (auto simp: ds1302_read_time_def Let_def)
  have "rtc_time_ok ?dt" by (simp add: rtc_time_ok_def)
  moreover have "?rm [] (Bulk_read DS1302_SEC_REG DS1302_REG_COUNT) = (0, set_regs model_bin2bcd ?dt)" by (rule refl)
  ultimately have "dt' = \<lparr>tm_sec = 1, tm_min = 2, tm_hour = 3, tm_mday = 6, tm_mon = 4, tm_year = 121, tm_wday = 23\<rparr>"
    using ds1302_layout_rotates [OF bcd_documented_model _ _ read, of ?dt] by simp
  with read show ?thesis by blast
qed

text \<open>
  \<open>rtc_valid_tm\<close> as the kernel documents it: it rejects fields out of range, with \<open>-EINVAL\<close>; it
  does not look at the weekday.
\<close>

definition valid_documented :: "(rtc_time \<Rightarrow> int) \<Rightarrow> bool" where
  "valid_documented valid \<longleftrightarrow> (\<forall>dt. valid dt = 0 \<or> valid dt = neg EINVAL) \<and>
     (\<forall>dt. valid dt = 0 \<longrightarrow> 0 \<le> tm_sec dt \<and> tm_sec dt < 60 \<and> 0 \<le> tm_min dt \<and> tm_min dt < 60 \<and>
        0 \<le> tm_hour dt \<and> tm_hour dt < 24 \<and> 1 \<le> tm_mday dt \<and> tm_mday dt \<le> 31 \<and> 0 \<le> tm_mon dt \<and> tm_mon dt < 12)"

lemma bcd_bounds:
  assumes "bcd_documented bin2bcd bcd2bin"
  shows "0 \<le> bcd2bin b" "bcd2bin b \<le> 165" "bit b 7 \<Longrightarrow> 80 \<le> bcd2bin b"
    "0 \<le> bcd2bin (and b 0x3F)" "bcd2bin (and b 0x3F) \<le> 45" "0 \<le> bcd2bin (and b 0x1F)" "bcd2bin (and b 0x1F) \<le> 25"
proof -
  have val: "bcd2bin c = uint c div 16 * 10 + uint c mod 16" for c using assms by (simp add: bcd_documented_def)
  have low: "0 \<le> bcd2bin c" "uint c < 16 * n \<Longrightarrow> bcd2bin c \<le> (n - 1) * 10 + 15" for c n
  proof -
    have "0 \<le> uint c div 16" "0 \<le> uint c mod 16" "uint c mod 16 \<le> 15"
      by (simp_all add: pos_imp_zdiv_nonneg_iff)
    then show "0 \<le> bcd2bin c" by (simp add: val)
    assume "uint c < 16 * n"
    then have "uint c div 16 \<le> n - 1" by linarith
    then show "bcd2bin c \<le> (n - 1) * 10 + 15" using \<open>uint c mod 16 \<le> 15\<close> by (simp add: val)
  qed
  show "0 \<le> bcd2bin b" "0 \<le> bcd2bin (and b 0x3F)" "0 \<le> bcd2bin (and b 0x1F)" by (rule low(1))+
  have "uint b < 256" using uint_bounded [of b] by simp
  then show "bcd2bin b \<le> 165" using low(2) [of b 16] by simp
  have m: "(0x3F :: u8) = mask 6" "(0x1F :: u8) = mask 5" by (simp_all add: mask_eq_exp_minus_1)
  have "uint (and b 0x3F) < 64" "uint (and b 0x1F) < 32"
    unfolding m using take_bit_int_less_exp [of 6 "uint b"] take_bit_int_less_exp [of 5 "uint b"]
    by (simp_all add: take_bit_eq_mask [symmetric] unsigned_take_bit_eq)
  then show "bcd2bin (and b 0x3F) \<le> 45" "bcd2bin (and b 0x1F) \<le> 25"
    using low(2) [of "and b 0x3F" 4] low(2) [of "and b 0x1F" 2] by simp_all
  assume "bit b 7"
  then have "bit (uint b) 7" by (simp add: bit_uint_iff)
  then have "odd (uint b div 128)" by (simp add: bit_iff_odd)
  then have "128 \<le> uint b" by (metis div_pos_pos_trivial even_zero linorder_not_less uint_ge_0)
  then have "8 \<le> uint b div 16" by linarith
  moreover have "0 \<le> uint b mod 16" by simp
  ultimately show "80 \<le> bcd2bin b" by (simp add: val)
qed

text \<open>
  C34: What a read can report, whatever bytes the register map delivers. An error of the map is
  passed on and the caller's time stays as it was. Otherwise the fields stay within the bounds of
  their masks and digits, and the weekday is never checked. A success comes from a byte of seconds
  without the clock-halt bit: with that bit set, which the driver neither masks nor clears, the
  seconds are 80 or more and the read is refused. But an hour in 12-hour format is read as if it
  were in 24-hour format: one o'clock in the afternoon is reported as 21 hours.
\<close>

theorem ds1302_read_bounds:
  assumes bcd: "bcd_documented bin2bcd bcd2bin" and v: "valid_documented valid" and rm: "bulk_documented rm"
    and ans: "rm h (Bulk_read DS1302_SEC_REG DS1302_REG_COUNT) = (ret, buf)"
    and read: "ds1302_read_time bcd2bin valid rm prv h dt0 = Ret (r, dt, h')"
  shows "(ret \<noteq> 0 \<longrightarrow> r = ret \<and> dt = dt0) \<and>
    (ret = 0 \<longrightarrow>
      0 \<le> tm_sec dt \<and> tm_sec dt \<le> 165 \<and> 0 \<le> tm_min dt \<and> tm_min dt \<le> 165 \<and> 0 \<le> tm_hour dt \<and> tm_hour dt \<le> 45 \<and>
      - 1 \<le> tm_mon dt \<and> tm_mon dt \<le> 24 \<and> 100 \<le> tm_year dt \<and> tm_year dt \<le> 265 \<and> - 1 \<le> tm_wday dt \<and> tm_wday dt \<le> 164 \<and>
      (r = 0 \<longrightarrow> tm_sec dt < 60 \<and> tm_min dt < 60 \<and> tm_hour dt < 24 \<and> 1 \<le> tm_mday dt \<and> tm_mday dt \<le> 31 \<and>
         0 \<le> tm_mon dt \<and> tm_mon dt < 12 \<and> \<not> bit (buf ! 0) 7) \<and>
      (bit (buf ! 0) 7 \<longrightarrow> r = neg EINVAL) \<and>
      (buf ! 2 = 0xA1 \<longrightarrow> tm_hour dt = 21))"
proof (cases "ret = 0")
  case False
  then show ?thesis using read ans by (cases prv) (auto simp: ds1302_read_time_def Let_def)
next
  case True
  have dt: "dt = parse_time bcd2bin buf" and r: "r = valid dt"
    using read ans True by (cases prv; auto simp: ds1302_read_time_def Let_def)+
  have vals: "tm_sec dt = bcd2bin (buf ! 0)" "tm_min dt = bcd2bin (buf ! 1)"
    "tm_hour dt = bcd2bin (and (buf ! 2) 0x3F)" "tm_mon dt = bcd2bin (and (buf ! 5) 0x1F) - 1"
    "tm_year dt = bcd2bin (buf ! 6) + 100" "tm_wday dt = bcd2bin (buf ! 3) - 1"
    unfolding dt parse_time_def by simp_all
  note b = bcd_bounds [OF bcd]
  have halt: "r \<noteq> 0" if "bit (buf ! 0) 7"
    using b(3) [OF that] v vals(1) r unfolding valid_documented_def by force
  have "tm_hour dt = 21" if "buf ! 2 = 0xA1"
    using bcd vals(3) that by (simp add: bcd_documented_def)
  moreover have "0 \<le> tm_sec dt" "tm_sec dt \<le> 165" "0 \<le> tm_min dt" "tm_min dt \<le> 165" "0 \<le> tm_hour dt" "tm_hour dt \<le> 45"
    "- 1 \<le> tm_mon dt" "tm_mon dt \<le> 24" "100 \<le> tm_year dt" "tm_year dt \<le> 265" "- 1 \<le> tm_wday dt" "tm_wday dt \<le> 164"
    unfolding vals using b(1,2) [of "buf ! 0"] b(1,2) [of "buf ! 1"] b(4,5) [of "buf ! 2"]
      b(6,7) [of "buf ! 5"] b(1,2) [of "buf ! 6"] b(1,2) [of "buf ! 3"] by linarith+
  moreover have "0 \<le> tm_sec dt \<and> tm_sec dt < 60 \<and> 0 \<le> tm_min dt \<and> tm_min dt < 60 \<and>
      0 \<le> tm_hour dt \<and> tm_hour dt < 24 \<and> 1 \<le> tm_mday dt \<and> tm_mday dt \<le> 31 \<and> 0 \<le> tm_mon dt \<and> tm_mon dt < 12"
    if "r = 0" using v that unfolding valid_documented_def r by blast
  moreover have "r = neg EINVAL" if "bit (buf ! 0) 7"
    using halt [OF that] v unfolding valid_documented_def r by blast
  moreover have "\<not> bit (buf ! 0) 7" if "r = 0" using halt that by blast
  ultimately show ?thesis using True by simp
qed

definition model_valid :: "rtc_time \<Rightarrow> int" where
  "model_valid dt = (if tm_mon dt < 0 \<or> 12 \<le> tm_mon dt \<or> tm_mday dt < 1 \<or> 31 < tm_mday dt \<or> tm_hour dt < 0 \<or>
     24 \<le> tm_hour dt \<or> tm_min dt < 0 \<or> 60 \<le> tm_min dt \<or> tm_sec dt < 0 \<or> 60 \<le> tm_sec dt then neg EINVAL else 0)"

definition noon_map :: reg_map where
  \<comment> \<open>a halted clock in 12-hour format\<close>
  "noon_map h q = (0, case q of Bulk_read r n \<Rightarrow> map (\<lambda>i. if i = 0 then 0x83 else 0xA1) [0..<n] | _ \<Rightarrow> [])"

lemma ds1302_read_bounds_witness:
  "\<exists>dt h'. ds1302_read_time model_bcd2bin model_valid noon_map (Some ()) []
      \<lparr>tm_sec = 0, tm_min = 0, tm_hour = 0, tm_mday = 0, tm_mon = 0, tm_year = 0, tm_wday = 0\<rparr> =
    Ret (neg EINVAL, dt, h') \<and> tm_hour dt = 21"
proof -
  let ?dt0 = "\<lparr>tm_sec = 0, tm_min = 0, tm_hour = 0, tm_mday = 0, tm_mon = 0, tm_year = 0, tm_wday = 0\<rparr>"
  have ans: "noon_map [] (Bulk_read DS1302_SEC_REG DS1302_REG_COUNT) = (0, 0x83 # replicate 6 0xA1)"
    by (simp add: noon_map_def DS1302_REG_COUNT_def upt_rec eval_nat_numeral)
  then obtain r dt h' where read: "ds1302_read_time model_bcd2bin model_valid noon_map (Some ()) [] ?dt0 = Ret (r, dt, h')"
    by (auto simp: ds1302_read_time_def Let_def)
  have "valid_documented model_valid" "bulk_documented noon_map"
    by (auto simp: valid_documented_def model_valid_def bulk_documented_def noon_map_def)
  from ds1302_read_bounds [OF bcd_documented_model this ans read] read show ?thesis
    by (auto simp: bit_numeral_rec)
qed

fun ds1302_documented :: "ds1302_env \<Rightarrow> bool" where
  "ds1302_documented e = (\<not> IS_ERR (kzalloc_ans e) \<and> map_ans e \<noteq> Null)"

text \<open>
  C39: The probe of the clock driver never binds a device: it sets the time before it stores
  the private structure, so on a device whose driver data is still cleared it ends in a NULL
  dereference as soon as allocation, set-up, register map and test read all succeed, and with
  an error code otherwise; an error leaves nothing but managed resources behind.
\<close>

theorem ds1302_probe_never_binds:
  assumes "ds1302_documented e"
  shows "(case ds1302_probe bin2bcd e rm None h of
       Ret (r, calls, h') \<Rightarrow> r \<noteq> 0 \<and> (\<exists>held. ledger [] calls = Some held \<and> unmanaged held = []) \<and>
         \<not> (valid_ptr (kzalloc_ans e) \<and> spi2 e = 0 \<and> valid_ptr (map_ans e) \<and> fst (rm h (Reg_read DS1302_SEC_REG)) = 0)
     | Fault f \<Rightarrow> f = Null_deref \<and> valid_ptr (kzalloc_ans e) \<and> spi2 e = 0 \<and> valid_ptr (map_ans e) \<and>
         fst (rm h (Reg_read DS1302_SEC_REG)) = 0
     | Blocked \<Rightarrow> False)"
  using assms
  by (cases "kzalloc_ans e"; cases "map_ans e")
     (auto simp: ds1302_probe_def ds1302_set_time_def Let_def ledger_simps)

lemma ds1302_probe_never_binds_witness:
  "ds1302_probe model_bin2bcd \<lparr>kzalloc_ans = Ptr 1, spi1 = 0, spi2 = 0, map_ans = Ptr 2, now =
     \<lparr>tm_sec = 1, tm_min = 2, tm_hour = 3, tm_mday = 24, tm_mon = 5, tm_year = 121, tm_wday = 4\<rparr>, rtc_ans = Ptr 3\<rparr>
     (\<lambda>h q. (0, [])) None [] = Fault Null_deref"
  using ds1302_probe_never_binds [of "\<lparr>kzalloc_ans = Ptr 1, spi1 = 0, spi2 = 0, map_ans = Ptr 2, now =
     \<lparr>tm_sec = 1, tm_min = 2, tm_hour = 3, tm_mday = 24, tm_mon = 5, tm_year = 121, tm_wday = 4\<rparr>, rtc_ans = Ptr 3\<rparr>"
     "\<lambda>h q. (0, [])" "[]" model_bin2bcd]
  by (simp split: outcome.splits prod.splits)

end
