(* ===== verification/Ds1302_Clock.thy ===== *)
theory Ds1302_Clock
  imports Ds1302
begin

text \<open>
  \<open>device_drivers/ds1302_drv/ds1302_drv.c\<close> through its table \<open>ds1302_rtc_ops\<close>, with the clock of the
  data sheet on the wire. A register of the map is a command byte of the clock, and the least
  significant bit of a command says whether the clock is read (\<open>CMD_READ_EN\<close>) or written
  (\<open>CMD_WRITE_EN\<close>). The driver gives the map no flag mask for reads, so the map sets the one of its
  bus, bit 7, which all registers of the driver have already: a read goes out as the command to
  write. Data travel on one line (\<open>SPI_3WIRE\<close>); while the controller listens to it and the clock
  does not talk, it carries something the program does not determine. Parameters: that line, the
  BCD routines and \<open>rtc_valid_tm\<close>. Time stands still.
\<close>

section \<open>The operation table\<close>

datatype rtc_call =
  Rtc_ioctl int int
| Rtc_read rtc_time  \<comment> \<open>what \<open>*dt\<close> holds before the call\<close>
| Rtc_set rtc_time

type_synonym rtc_answer = "int \<times> rtc_time option"

text \<open>The third argument of the table is the driver data of the device.\<close>

fun ds1302_rtc_ops ::
    "(int \<Rightarrow> u8) \<Rightarrow> (u8 \<Rightarrow> int) \<Rightarrow> (rtc_time \<Rightarrow> int) \<Rightarrow> unit option \<Rightarrow> reg_map \<Rightarrow> reg_history \<Rightarrow> rtc_call \<Rightarrow>
     (rtc_answer \<times> reg_history) outcome" where
  "ds1302_rtc_ops bin2bcd bcd2bin valid prv rm h (Rtc_ioctl cmd arg) = Ret ((ds1302_ioctl cmd arg, None), h)"
| "ds1302_rtc_ops bin2bcd bcd2bin valid prv rm h (Rtc_read dt) =
     obind (ds1302_read_time bcd2bin valid rm prv h dt) (\<lambda>(r, dt', h'). Ret ((r, Some dt'), h'))"
| "ds1302_rtc_ops bin2bcd bcd2bin valid prv rm h (Rtc_set dt) =
     obind (ds1302_set_time bin2bcd rm prv h dt) (\<lambda>(r, h'). Ret ((r, None), h'))"

section \<open>The clock on the wire\<close>

definition CMD_READ_EN :: u8 where "CMD_READ_EN = 0x01"

text \<open>The command bytes the map sends: the bus's mask for reads is \<open>0x80\<close>, that for writes is 0.\<close>

definition read_command :: "u8 \<Rightarrow> u8" where
  "read_command r = or r 0x80"

type_synonym clock_cells = "u8 \<Rightarrow> u8"

text \<open>
  A command with its first data byte (of a single write the clock ignores the rest). Bit 7 of a
  command must be set. A write is ignored while bit 7 of the write-protect register is set, unless
  it goes to that register. Commands for bursts are left out; the driver sends none.
\<close>

definition clock_exec :: "u8 \<Rightarrow> u8 \<Rightarrow> clock_cells \<Rightarrow> clock_cells" where
  "clock_exec cmd d regs =
     (if \<not> bit cmd 7 \<or> and cmd CMD_READ_EN = CMD_READ_EN then regs
      else if bit (regs DS1302_WP_REG) 7 \<and> cmd \<noteq> DS1302_WP_REG then regs
      else regs(cmd := d))"

text \<open>
  \<open>line h i\<close>: what the line carries as byte \<open>i\<close> of a read behind the history \<open>h\<close> when nobody talks.
\<close>

type_synonym line = "reg_history \<Rightarrow> nat \<Rightarrow> u8"

fun clock_step :: "line \<Rightarrow> reg_history \<Rightarrow> reg_op \<Rightarrow> clock_cells \<Rightarrow> clock_cells" where
  "clock_step line h (Reg_write r v) regs = clock_exec r v regs"
| "clock_step line h (Reg_read r) regs = clock_exec (read_command r) (line h 0) regs"
| "clock_step line h (Bulk_read r n) regs =
     (if n = 0 then regs else clock_exec (read_command r) (line h 0) regs)"

fun clock_from :: "line \<Rightarrow> reg_history \<Rightarrow> reg_history \<Rightarrow> clock_cells \<Rightarrow> clock_cells" where
  "clock_from line past [] regs = regs"
| "clock_from line past (q # qs) regs = clock_from line (past @ [q]) qs (clock_step line past q regs)"

definition clock :: "line \<Rightarrow> clock_cells \<Rightarrow> reg_history \<Rightarrow> clock_cells" where
  "clock line regs0 h = clock_from line [] h regs0"

lemma clock_Nil [simp]: "clock line regs0 [] = regs0"
  by (simp add: clock_def)

lemma clock_from_append: "clock_from line past (h @ g) regs = clock_from line (past @ h) g (clock_from line past h regs)"
  by (induction h arbitrary: past regs) simp_all

lemma clock_snoc [simp]: "clock line regs0 (h @ [q]) = clock_step line h q (clock line regs0 h)"
  by (simp add: clock_def clock_from_append)

text \<open>What the controller hears: the register when the command is a read, and the line otherwise.\<close>

definition hears :: "line \<Rightarrow> clock_cells \<Rightarrow> reg_history \<Rightarrow> u8 \<Rightarrow> nat \<Rightarrow> u8 list" where
  "hears line regs0 h r n = map (\<lambda>i. if and (read_command r) CMD_READ_EN = CMD_READ_EN
     then clock line regs0 h (and (read_command r) (not CMD_READ_EN)) else line h i) [0..<n]"

text \<open>The register map on a working bus with this clock: no transfer fails.\<close>

definition clock_map :: "reg_map \<Rightarrow> line \<Rightarrow> clock_cells \<Rightarrow> bool" where
  "clock_map rm line regs0 \<longleftrightarrow>
     (\<forall>h r v. fst (rm h (Reg_write r v)) = 0) \<and>
     (\<forall>h r. rm h (Reg_read r) = (0, hears line regs0 h r 1)) \<and>
     (\<forall>h r n. rm h (Bulk_read r n) = (0, hears line regs0 h r n))"

text \<open>Every register of the driver makes a command to write.\<close>

lemma seconds_command:
  "read_command DS1302_SEC_REG = DS1302_SEC_REG" "and DS1302_SEC_REG CMD_READ_EN \<noteq> CMD_READ_EN" "bit DS1302_SEC_REG 7"
  by (simp_all add: read_command_def DS1302_SEC_REG_def CMD_READ_EN_def bit_numeral_rec)

lemma hears_line: "hears line regs0 h DS1302_SEC_REG n = map (line h) [0..<n]"
  by (simp add: hears_def seconds_command)

section \<open>The driver on this clock\<close>

locale clock_device =
  fixes rm :: reg_map and line :: line and regs0 :: clock_cells
  assumes on_wire: "clock_map rm line regs0"
begin

lemma writes_all: "write_regs rm h ws = (0, h @ map (\<lambda>(r, v). Reg_write r v) ws)"
  by (rule write_regs_ok) (use on_wire in \<open>simp add: clock_map_def\<close>)

lemma sets: "ds1302_set_time bin2bcd rm (Some ()) h dt =
    Ret (0, h @ map (\<lambda>(r, v). Reg_write r v) (time_writes bin2bcd dt))"
  by (simp add: ds1302_set_time_def writes_all)

lemma reads: "ds1302_read_time bcd2bin valid rm (Some ()) h dt =
    (let t = parse_time bcd2bin (map (line h) [0..<DS1302_REG_COUNT]) in
     Ret (valid t, t, h @ [Bulk_read DS1302_SEC_REG DS1302_REG_COUNT]))"
proof -
  have "rm h (Bulk_read DS1302_SEC_REG DS1302_REG_COUNT) = (0, map (line h) [0..<DS1302_REG_COUNT])"
    using on_wire hears_line unfolding clock_map_def by metis
  then show ?thesis by (simp add: ds1302_read_time_def Let_def)
qed

text \<open>A set protects the clock first, so that it writes nothing but the write-protect register.\<close>

lemma set_effect:
  "clock line regs0 (h @ map (\<lambda>(r, v). Reg_write r v) (time_writes bin2bcd dt)) =
    (clock line regs0 h)(DS1302_WP_REG := 0)"
proof -
  have "bit (0x80 :: u8) 7" by (simp add: bit_numeral_rec)
  then show ?thesis
    by (simp add: clock_def clock_from_append time_writes_def clock_exec_def reg_defs CMD_READ_EN_def bit_numeral_rec)
qed

lemma read_effect:
  "clock line regs0 (h @ [Bulk_read DS1302_SEC_REG DS1302_REG_COUNT]) =
    (if bit (clock line regs0 h DS1302_WP_REG) 7 then clock line regs0 h
     else (clock line regs0 h)(DS1302_SEC_REG := line h 0))"
proof -
  have "DS1302_REG_COUNT \<noteq> 0" "DS1302_SEC_REG \<noteq> DS1302_WP_REG" by (simp_all add: DS1302_REG_COUNT_def reg_defs)
  then show ?thesis using seconds_command by (simp add: clock_exec_def)
qed

definition drift :: "reg_history \<Rightarrow> reg_history \<Rightarrow> bool" where
  \<comment> \<open>what the driver's requests did to the clock between two histories\<close>
  "drift h h' \<longleftrightarrow>
     (\<forall>r. r \<noteq> DS1302_SEC_REG \<and> r \<noteq> DS1302_WP_REG \<longrightarrow> clock line regs0 h' r = clock line regs0 h r) \<and>
     (clock line regs0 h' DS1302_SEC_REG = clock line regs0 h DS1302_SEC_REG \<or>
      (\<exists>g. clock line regs0 h' DS1302_SEC_REG = line g 0))"

lemma drift_trans: "drift h h' \<Longrightarrow> drift h' h'' \<Longrightarrow> drift h h''"
  unfolding drift_def by metis

lemma one_call:
  "\<exists>a h'. ds1302_rtc_ops bin2bcd bcd2bin valid (Some ()) rm h c = Ret (a, h') \<and> drift h h'"
proof (cases c)
  case (Rtc_read dt)
  have "DS1302_SEC_REG \<noteq> DS1302_WP_REG" by (simp add: reg_defs)
  then show ?thesis by (auto simp: Rtc_read reads Let_def drift_def read_effect simp del: clock_snoc)
next
  case (Rtc_set dt)
  have "DS1302_SEC_REG \<noteq> DS1302_WP_REG" by (simp add: reg_defs)
  then show ?thesis by (auto simp: Rtc_set sets drift_def set_effect)
qed (simp add: drift_def)

lemma all_calls:
  "\<exists>rs h'. session (ds1302_rtc_ops bin2bcd bcd2bin valid (Some ()) rm) h cs = Ret (rs, h') \<and> drift h h'"
proof (induction cs arbitrary: h)
  case (Cons c cs)
  from one_call obtain a h1 where h1: "ds1302_rtc_ops bin2bcd bcd2bin valid (Some ()) rm h c = Ret (a, h1)" "drift h h1"
    by blast
  from Cons obtain rs h' where "session (ds1302_rtc_ops bin2bcd bcd2bin valid (Some ()) rm) h1 cs = Ret (rs, h')" "drift h1 h'"
    by blast
  with h1 drift_trans show ?case by auto
qed (simp add: drift_def)

end

definition model_map :: "line \<Rightarrow> clock_cells \<Rightarrow> reg_map" where
  "model_map line regs0 h q = (0, case q of Reg_write r v \<Rightarrow> [] | Reg_read r \<Rightarrow> hears line regs0 h r 1
     | Bulk_read r n \<Rightarrow> hears line regs0 h r n)"

lemma model_map: "clock_map (model_map line regs0) line regs0"
  by (simp add: clock_map_def model_map_def)

interpretation model_clock: clock_device "model_map line regs0" line regs0 for line regs0
  by unfold_locales (rule model_map)

text \<open>Two clocks on the same line look the same to the driver.\<close>

lemma same_calls:
  assumes "clock_device rm line regs0" "clock_device rm' line regs1"
  shows "ds1302_rtc_ops bin2bcd bcd2bin valid prv rm h c = ds1302_rtc_ops bin2bcd bcd2bin valid prv rm' h c"
proof (cases prv)
  case None
  then show ?thesis by (cases c) (simp_all add: ds1302_read_time_def ds1302_set_time_def)
next
  case (Some u)
  then show ?thesis
    by (cases c) (simp_all add: clock_device.reads [OF assms(1)] clock_device.reads [OF assms(2)]
        clock_device.sets [OF assms(1)] clock_device.sets [OF assms(2)])
qed

section \<open>Properties\<close>

text \<open>
  On the documented clock \<open>ds1302_set_time\<close> reports success and leaves every register but
  the write-protect register as it was: it sets the write-protect bit before it writes the time and
  clears it afterwards.
\<close>

theorem ds1302_set_time_is_ignored:
  assumes "clock_map rm line regs0"
  shows "\<exists>h'. ds1302_set_time bin2bcd rm (Some ()) h dt = Ret (0, h') \<and>
    clock line regs0 h' = (clock line regs0 h)(DS1302_WP_REG := 0)"
proof -
  from assms have dev: "clock_device rm line regs0" by (rule clock_device.intro)
  show ?thesis using clock_device.sets [OF dev] clock_device.set_effect [OF dev] by blast
qed

lemma ds1302_set_time_is_ignored_witness:
  "\<exists>h'. ds1302_set_time (\<lambda>n. word_of_int n) (model_map (\<lambda>h i. 0xFF) (\<lambda>_. 7)) (Some ()) []
     \<lparr>tm_sec = 1, tm_min = 2, tm_hour = 3, tm_mday = 4, tm_mon = 5, tm_year = 106, tm_wday = 6\<rparr> = Ret (0, h') \<and>
   clock (\<lambda>h i. 0xFF) (\<lambda>_. 7) h' DS1302_SEC_REG = 7"
  using ds1302_set_time_is_ignored [OF model_map, of "\<lambda>n. word_of_int n" "\<lambda>h i. 0xFF" "\<lambda>_. 7" "[]"
     "\<lparr>tm_sec = 1, tm_min = 2, tm_hour = 3, tm_mday = 4, tm_mon = 5, tm_year = 106, tm_wday = 6\<rparr>"]
  by (auto simp: reg_defs)

text \<open>
  C20: The clock driver neither reads nor sets the clock. It sends its register numbers without the
  read bit, so the clock takes every request for a write and never answers. On a working bus, in
  any session of calls of the operation table on a device whose driver data is set: the answers are
  the same whatever the clock holds (a read reports what the silent line happened to carry), no
  call fails, and the clock keeps all its registers but two. The write-protect register is set and
  cleared; and the seconds, which a read on an unprotected clock overwrites with the first byte of
  the silent line.
\<close>

theorem ds1302_never_hears_clock:
  assumes "clock_map rm line regs0" "clock_map rm' line regs1"
  shows "session (ds1302_rtc_ops bin2bcd bcd2bin valid prv rm) h cs =
      session (ds1302_rtc_ops bin2bcd bcd2bin valid prv rm') h cs \<and>
    (\<exists>rs h'. session (ds1302_rtc_ops bin2bcd bcd2bin valid (Some ()) rm) h cs = Ret (rs, h') \<and>
      (\<forall>r. r \<noteq> DS1302_SEC_REG \<and> r \<noteq> DS1302_WP_REG \<longrightarrow> clock line regs0 h' r = clock line regs0 h r) \<and>
      (clock line regs0 h' DS1302_SEC_REG = clock line regs0 h DS1302_SEC_REG \<or>
       (\<exists>g. clock line regs0 h' DS1302_SEC_REG = line g 0))) \<and>
    (\<exists>h'. ds1302_read_time bcd2bin valid rm (Some ()) h dt = Ret (valid (parse_time bcd2bin (map (line h) [0..<7])),
        parse_time bcd2bin (map (line h) [0..<7]), h') \<and>
      (\<not> bit (clock line regs0 h DS1302_WP_REG) 7 \<longrightarrow> clock line regs0 h' DS1302_SEC_REG = line h 0))"
proof -
  from assms have dev: "clock_device rm line regs0" "clock_device rm' line regs1" by (auto intro: clock_device.intro)
  have "ds1302_rtc_ops bin2bcd bcd2bin valid prv rm = ds1302_rtc_ops bin2bcd bcd2bin valid prv rm'"
    using same_calls [OF dev] by (simp add: fun_eq_iff)
  then show ?thesis
    using clock_device.all_calls [OF dev(1), of bin2bcd bcd2bin valid h cs]
      clock_device.reads [OF dev(1), of bcd2bin valid h dt] clock_device.read_effect [OF dev(1), of h]
    by (auto simp: clock_device.drift_def [OF dev(1)] DS1302_REG_COUNT_def Let_def simp del: upt_Suc clock_snoc)
qed

lemma ds1302_never_hears_clock_witness:
  "\<exists>t h'. ds1302_read_time model_bcd2bin (\<lambda>_. 0) (model_map (\<lambda>h i. 0x42) (\<lambda>_. 0x11)) (Some ()) []
      \<lparr>tm_sec = 0, tm_min = 0, tm_hour = 0, tm_mday = 0, tm_mon = 0, tm_year = 0, tm_wday = 0\<rparr> = Ret (0, t, h') \<and>
    tm_sec t = 42 \<and> clock (\<lambda>h i. 0x42) (\<lambda>_. 0x11) h' DS1302_SEC_REG = 0x42"
proof -
  have "\<not> bit (0x11 :: u8) 7" by (simp add: bit_numeral_rec)
  with ds1302_never_hears_clock [OF model_map model_map, of _ _ "\<lambda>_. 0" _ "\<lambda>h i. 0x42" "\<lambda>_. 0x11" "[]" "[]" "\<lambda>_. 0x11"]
  obtain h' where h': "ds1302_read_time model_bcd2bin (\<lambda>_. 0) (model_map (\<lambda>h i. 0x42) (\<lambda>_. 0x11)) (Some ()) []
      \<lparr>tm_sec = 0, tm_min = 0, tm_hour = 0, tm_mday = 0, tm_mon = 0, tm_year = 0, tm_wday = 0\<rparr> =
      Ret (0, parse_time model_bcd2bin (map (\<lambda>i. 0x42) [0..<7]), h')"
    "clock (\<lambda>h i. 0x42) (\<lambda>_. 0x11) h' DS1302_SEC_REG = 0x42" by auto
  have "tm_sec (parse_time model_bcd2bin (map (\<lambda>i. 0x42) [0..<7])) = 42"
    by (simp add: parse_time_def model_bcd2bin_def)
  with h' show ?thesis by blast
qed

end
