(* ===== verification/Generic_I2c.thy ===== *)
theory Generic_I2c
  imports Kernel Refinement
begin

text \<open>
  \<open>15_generic_i2c_driver/generic_i2c_driver.c\<close>: a character device that passes reads and writes
  straight to an I2C slave. State: the private structure a file points to, and the global
  \<open>minor_count\<close>. Parameters: the bus, the copies from and to user space, the room left on the
  kernel stack (the transfer buffers are variable length arrays), and the answers of the
  registration calls. Sessions through the file operations refine the slave behind the bus.
\<close>

section \<open>Transfers\<close>

datatype i2c_req = Master_send "u8 list" | Master_recv int

type_synonym master_history = "i2c_req list"

text \<open>\<open>i2c_master_send\<close> and \<open>i2c_master_recv\<close>: the return value and the bytes received.\<close>

type_synonym master_bus = "master_history \<Rightarrow> i2c_req \<Rightarrow> int \<times> u8 list"

text \<open>
  A reading of \<open>char buf[count]\<close>: the bytes that arrived, and behind them what the stack held.
\<close>

definition stack_buffer :: "(nat \<Rightarrow> u8) \<Rightarrow> nat \<Rightarrow> u8 list \<Rightarrow> u8 list" where
  "stack_buffer junk n bytes = map (\<lambda>i. if i < length bytes then bytes ! i else junk i) [0..<n]"

record i2c_file =
  private_data :: "unit option"

record transfer =
  ret :: int
  delivered :: "u8 list"  \<comment> \<open>what \<open>copy_to_user\<close> was asked to copy\<close>
  requests :: master_history

definition i2c_generic_driver_read ::
    "int \<Rightarrow> (nat \<Rightarrow> u8) \<Rightarrow> (int \<Rightarrow> int) \<Rightarrow> master_bus \<Rightarrow> master_history \<Rightarrow> i2c_file \<Rightarrow> int \<Rightarrow> transfer outcome" where
  "i2c_generic_driver_read room junk left bus h filp count =
     (if room < count then Fault Stack_overflow
      else deref (private_data filp) (\<lambda>_.
        let req = Master_recv (to_s32 count); ans = bus h req; r = fst ans; h1 = h @ [req];
            buf = stack_buffer junk (nat count) (snd ans) in
        if to_u32 r \<noteq> count then Ret \<lparr>ret = r, delivered = [], requests = h1\<rparr>
        else if left count \<noteq> 0 then Ret \<lparr>ret = neg EFAULT, delivered = buf, requests = h1\<rparr>
        else Ret \<lparr>ret = to_s32 count, delivered = buf, requests = h1\<rparr>))"

definition i2c_generic_driver_write ::
    "int \<Rightarrow> (int \<Rightarrow> int) \<Rightarrow> u8 list \<Rightarrow> master_bus \<Rightarrow> master_history \<Rightarrow> i2c_file \<Rightarrow> int \<Rightarrow> transfer outcome" where
  "i2c_generic_driver_write room left user bus h filp count =
     (if room < count then Fault Stack_overflow
      else if left count \<noteq> 0 then Ret \<lparr>ret = neg EFAULT, delivered = [], requests = h\<rparr>
      else deref (private_data filp) (\<lambda>_.
        let req = Master_send (from_user user (nat count) 0); r = fst (bus h req); h1 = h @ [req] in
        if to_u32 r \<noteq> count then Ret \<lparr>ret = r, delivered = [], requests = h1\<rparr>
        else Ret \<lparr>ret = to_s32 count, delivered = [], requests = h1\<rparr>))"

definition i2c_generic_driver_open :: "i2c_file \<Rightarrow> int \<times> i2c_file" where
  "i2c_generic_driver_open filp = (0, filp\<lparr>private_data := Some ()\<rparr>)"

definition i2c_generic_driver_release :: int where
  "i2c_generic_driver_release = 0"

section \<open>Probe and remove\<close>

definition initiate_dummy_transfer :: "master_bus \<Rightarrow> master_history \<Rightarrow> int \<times> master_history" where
  "initiate_dummy_transfer bus h =
     (let s = Master_send [0x00, 0x00]; r1 = fst (bus h s); h1 = h @ [s] in
      if r1 \<noteq> 2 then (r1, h1)
      else let r2 = fst (bus h1 (Master_recv 2)); h2 = h1 @ [Master_recv 2] in
        if r2 \<noteq> 2 then (r2, h2) else (2, h2))"

record i2c_env =
  byte_data :: bool  \<comment> \<open>the answer of \<open>i2c_check_functionality\<close>\<close>
  kmalloc_ret :: kptr
  registration :: chrdev_env

record i2c_probed =
  iret :: int
  icalls :: "kcall list"
  iminor :: int
  idone :: master_history

definition generic_i2c_driver_probe ::
    "master_bus \<Rightarrow> int \<Rightarrow> master_history \<Rightarrow> i2c_env \<Rightarrow> i2c_probed" where
  "generic_i2c_driver_probe bus minor_count h e =
     (let c = registration e;
          result = (\<lambda>r calls m h. \<lparr>iret = r, icalls = calls, iminor = m, idone = h\<rparr>) in
      if \<not> byte_data e then result (neg EIO) [] minor_count h
      else let h1 = snd (initiate_dummy_transfer bus h); t0 = [devm_alloc ''prv_data'' (kmalloc_ret e)] in
      if kmalloc_ret e = Null then result (neg ENOMEM) t0 minor_count h1
      else let t1 = t0 @ [alloc_chrdev_region (alloc_ret c)] in
      if alloc_ret c < 0 then result (alloc_ret c) (t1 @ [devm_free ''prv_data'']) minor_count h1
      else let t2 = t1 @ [class_create (class_ret c)] in
      if IS_ERR (class_ret c)
      then result (PTR_ERR (class_ret c)) (t2 @ [unregister_chrdev_region, devm_free ''prv_data'']) minor_count h1
      else let t3 = t2 @ [cdev_init, cdev_add (cdev_add_ret c)] in
      if cdev_add_ret c < 0
      then result (cdev_add_ret c)
             (t3 @ [class_destroy, unregister_chrdev_region, devm_free ''prv_data'']) minor_count h1
      else let t4 = t3 @ [device_create (class_ret c) (device_ret c)] in
      if IS_ERR (device_ret c)
      then result (PTR_ERR (device_ret c))
             (t4 @ [cdev_del, class_destroy, unregister_chrdev_region, devm_free ''prv_data'']) minor_count h1
      else result 0 t4 (to_u32 (minor_count + 1)) h1)"

definition generic_i2c_driver_remove :: "unit option \<Rightarrow> int \<Rightarrow> (int \<times> kcall list \<times> int) outcome" where
  "generic_i2c_driver_remove clientdata minor_count =
     deref clientdata (\<lambda>_. Ret (0,
       [device_destroy, class_destroy, cdev_del, unregister_chrdev_region], to_u32 (minor_count - 1)))"

section \<open>What the bus promises\<close>

text \<open>
  Documented: both calls answer a negative code or the number of bytes transferred, and a
  receive delivers as many bytes as it reports.
\<close>

definition master_documented :: "master_bus \<Rightarrow> bool" where
  "master_documented bus \<longleftrightarrow>
     (\<forall>h bs. - 4096 < fst (bus h (Master_send bs)) \<and> fst (bus h (Master_send bs)) \<le> int (length bs)) \<and>
     (\<forall>h n. - 4096 < fst (bus h (Master_recv n)) \<and> fst (bus h (Master_recv n)) \<le> max 0 n \<and>
       (0 \<le> fst (bus h (Master_recv n)) \<longrightarrow> int (length (snd (bus h (Master_recv n)))) = fst (bus h (Master_recv n))))"

lemma recv_documented:
  assumes "master_documented bus" "ans = bus h (Master_recv n)"
  shows "- 4096 < fst ans" "fst ans \<le> max 0 n" "0 \<le> fst ans \<Longrightarrow> int (length (snd ans)) = fst ans"
  using assms by (simp_all add: master_documented_def)

lemma send_documented:
  assumes "master_documented bus" "r = fst (bus h (Master_send bs))"
  shows "- 4096 < r" "r \<le> int (length bs)"
  using assms by (simp_all add: master_documented_def)

lemma stack_buffer_full: "length bytes = n \<Longrightarrow> stack_buffer junk n bytes = bytes"
  by (simp add: stack_buffer_def list_eq_iff_nth_eq)

text \<open>The comparison of an \<open>int\<close> with a \<open>size_t\<close> is exact for documented answers.\<close>

lemma to_u32_answer:
  assumes "- 4096 < r" "r \<le> count" "0 \<le> count" "count < 2147483648"
  shows "to_u32 r = count \<longleftrightarrow> r = count"
  using assms by (cases "0 \<le> r") (auto simp: to_u32_id to_u32_minus)

section \<open>The file operations as a session with the slave\<close>

text \<open>
  \<open>i2c_generic_driver_fops\<close> dispatches read and write on an opened file; the answer is the return
  value and the bytes the caller's buffer gets. \<open>slave_spec\<close> is the promise: the driver is a wire
  to the slave, one transfer per call, with its bytes and its answers.
\<close>

datatype i2c_call = I_read "int \<Rightarrow> int" int | I_write "int \<Rightarrow> int" "u8 list" int

fun i2c_generic_driver_fops ::
    "int \<Rightarrow> (nat \<Rightarrow> u8) \<Rightarrow> master_bus \<Rightarrow> master_history \<times> i2c_file \<Rightarrow> i2c_call
     \<Rightarrow> ((int \<times> u8 list) \<times> master_history \<times> i2c_file) outcome" where
  "i2c_generic_driver_fops room junk bus (h, f) (I_read left count) =
     obind (i2c_generic_driver_read room junk left bus h f count) (\<lambda>t.
       Ret ((ret t, take (nat (count - left count)) (delivered t)), requests t, f))"
| "i2c_generic_driver_fops room junk bus (h, f) (I_write left user count) =
     obind (i2c_generic_driver_write room left user bus h f count) (\<lambda>t. Ret ((ret t, []), requests t, f))"

fun slave_spec :: "master_bus \<Rightarrow> master_history \<Rightarrow> i2c_call \<Rightarrow> ((int \<times> u8 list) \<times> master_history) option" where
  "slave_spec bus h (I_read left count) =
     (let (r, bytes) = bus h (Master_recv count); h1 = h @ [Master_recv count] in
      if r \<noteq> count then Some ((r, []), h1)
      else if left count \<noteq> 0 then Some ((neg EFAULT, take (nat (count - left count)) bytes), h1)
      else Some ((count, bytes), h1))"
| "slave_spec bus h (I_write left user count) =
     (if left count \<noteq> 0 then Some ((neg EFAULT, []), h)
      else let req = Master_send (take (nat count) user) in Some ((fst (bus h req), []), h @ [req]))"

fun fits_stack :: "int \<Rightarrow> i2c_call \<Rightarrow> bool" where
  "fits_stack room (I_read left count) \<longleftrightarrow> 0 \<le> count \<and> count \<le> room"
| "fits_stack room (I_write left user count) \<longleftrightarrow> 0 \<le> count \<and> count \<le> room \<and> count \<le> int (length user)"

lemma fops_read:
  assumes "master_documented bus" "room < 2147483648" "private_data f = Some ()" "0 \<le> count" "count \<le> room"
  shows "i2c_generic_driver_fops room junk bus (h, f) (I_read left count) =
    (case slave_spec bus h (I_read left count) of Some (a, h1) \<Rightarrow> Ret (a, h1, f) | None \<Rightarrow> Blocked)"
proof -
  have small: "count < 2147483648" using assms(2,5) by simp
  note ans = recv_documented [OF assms(1) refl, of h count]
  have same: "to_u32 (fst (bus h (Master_recv count))) = count \<longleftrightarrow> fst (bus h (Master_recv count)) = count"
    using ans(1,2) assms(4) small by (intro to_u32_answer) simp_all
  have "stack_buffer junk (nat count) (snd (bus h (Master_recv count))) = snd (bus h (Master_recv count)) \<and>
      length (snd (bus h (Master_recv count))) = nat count"
    if "fst (bus h (Master_recv count)) = count"
    using ans(3) that assms(4) by (auto intro: stack_buffer_full)
  then show ?thesis
    using assms(3-5) small same
    by (auto simp: i2c_generic_driver_read_def to_s32_id Let_def case_prod_beta)
qed

lemma fops_write:
  assumes "master_documented bus" "room < 2147483648" "private_data f = Some ()" "fits_stack room (I_write left user count)"
  shows "i2c_generic_driver_fops room junk bus (h, f) (I_write left user count) =
    (case slave_spec bus h (I_write left user count) of Some (a, h1) \<Rightarrow> Ret (a, h1, f) | None \<Rightarrow> Blocked)"
proof -
  let ?s = "Master_send (take (nat count) user)"
  have len: "int (length (take (nat count) user)) = count" "nat count \<le> length user" "0 \<le> count" "count \<le> room"
    using assms(4) by (simp_all add: nat_le_iff)
  note ans = send_documented [OF assms(1) refl, of h "take (nat count) user"]
  have "to_u32 (fst (bus h ?s)) = count \<longleftrightarrow> fst (bus h ?s) = count"
    using ans assms(2) len(3,4) unfolding len(1) by (intro to_u32_answer) simp_all
  then show ?thesis
    using assms(2,3) len by (auto simp: i2c_generic_driver_write_def to_s32_id Let_def)
qed

definition opened_on :: "master_bus \<Rightarrow> int \<Rightarrow> master_history \<times> i2c_file \<Rightarrow> bool" where
  "opened_on bus room y \<longleftrightarrow> master_documented bus \<and> room < 2147483648 \<and> private_data (snd y) = Some ()"

interpretation i2c_wire: implements "i2c_generic_driver_fops room junk bus" "slave_spec bus" fst "opened_on bus room" "fits_stack room"
  for room junk bus
proof
  fix y c a h1
  assume inv: "opened_on bus room y" and legal: "fits_stack room c" and spec: "slave_spec bus (fst y) c = Some (a, h1)"
  obtain h f where y: "y = (h, f)" by force
  have "i2c_generic_driver_fops room junk bus (h, f) c = Ret (a, h1, f)"
    using fops_read [of bus room f _ junk h] fops_write [of bus room f _ _ _ junk h] inv legal spec
    by (cases c) (simp_all add: opened_on_def y del: slave_spec.simps i2c_generic_driver_fops.simps)
  then show "\<exists>y'. i2c_generic_driver_fops room junk bus y c = Ret (a, y') \<and> fst y' = h1 \<and> opened_on bus room y'"
    using inv y by (simp add: opened_on_def)
qed

section \<open>Properties\<close>

text \<open>
  The transfer buffers live on the kernel stack: whatever the bus does, a read or write
  of more bytes than the stack has room for overflows it. One that fits never faults, and on a
  documented bus hands the user only bytes that came from the slave, returning either their
  number (all of them were copied), the bus's answer (none was) or \<open>-EFAULT\<close>.
\<close>

theorem generic_i2c_read_contract:
  assumes "master_documented bus" "filp = snd (i2c_generic_driver_open g)" "0 \<le> count" "room < 2147483648"
  shows "(case i2c_generic_driver_read room junk left bus h filp count of
      Fault e \<Rightarrow> e = Stack_overflow \<and> room < count
    | Blocked \<Rightarrow> False
    | Ret t \<Rightarrow> count \<le> room \<and>
        (let ans = bus h (Master_recv count) in
         requests t = h @ [Master_recv count] \<and>
         (if fst ans \<noteq> count then ret t = fst ans \<and> delivered t = []
          else delivered t = snd ans \<and> length (snd ans) = nat count \<and>
            ret t = (if left count = 0 then count else neg EFAULT))))"
proof (cases "room < count")
  case False
  then have small: "count < 2147483648" using assms(4) by simp
  note ans = recv_documented [OF assms(1) refl, of h count]
  have "to_u32 (fst (bus h (Master_recv count))) = count \<longleftrightarrow> fst (bus h (Master_recv count)) = count"
    using ans(1,2) assms(3) small by (intro to_u32_answer) simp_all
  moreover have "stack_buffer junk (nat count) (snd (bus h (Master_recv count))) = snd (bus h (Master_recv count))"
    if "fst (bus h (Master_recv count)) = count"
    using ans(3) that assms(3) by (intro stack_buffer_full) simp
  ultimately show ?thesis
    using False assms(2,3) small ans(3)
    by (auto simp: i2c_generic_driver_read_def i2c_generic_driver_open_def to_s32_id Let_def)
qed (simp add: i2c_generic_driver_read_def)

text \<open>A slave that answers every byte with 7, for concrete runs.\<close>

definition echo_bus :: master_bus where
  "echo_bus h req = (case req of
       Master_send bs \<Rightarrow> (int (length bs), [])
     | Master_recv n \<Rightarrow> (max 0 n, replicate (nat n) 7))"

lemma echo_bus_documented: "master_documented echo_bus"
  by (simp add: master_documented_def echo_bus_def)

lemma generic_i2c_read_contract_witness:
  "i2c_generic_driver_read 8192 (\<lambda>_. 1) (\<lambda>_. 0) echo_bus [] (snd (i2c_generic_driver_open \<lparr>private_data = None\<rparr>)) 10000 =
     Fault Stack_overflow"
  using generic_i2c_read_contract [OF echo_bus_documented refl, where count = 10000 and room = 8192 and junk = "\<lambda>_. 1"
      and left = "\<lambda>_. 0" and h = "[]" and g = "\<lparr>private_data = None\<rparr>"]
  by (simp split: outcome.splits)

text \<open>
  A write that fits on the stack sends exactly the user's bytes to the slave in one
  transfer, returns \<open>count\<close> when all were taken and the bus's answer otherwise; when the copy
  from user space fails it returns \<open>-EFAULT\<close> and the bus is not touched.
\<close>

theorem generic_i2c_write_contract:
  assumes "master_documented bus" "filp = snd (i2c_generic_driver_open g)"
    and "0 \<le> count" "count \<le> room" "room < 2147483648" "count \<le> int (length user)"
  shows "\<exists>t. i2c_generic_driver_write room left user bus h filp count = Ret t \<and>
    (if left count \<noteq> 0 then ret t = neg EFAULT \<and> requests t = h
     else requests t = h @ [Master_send (take (nat count) user)] \<and>
       ret t = fst (bus h (Master_send (take (nat count) user))) \<and> ret t \<le> count)"
proof -
  let ?s = "Master_send (take (nat count) user)"
  have len: "int (length (take (nat count) user)) = count" "nat count \<le> length user"
    using assms(3,6) by (simp_all add: nat_le_iff)
  note ans = send_documented [OF assms(1) refl, of h "take (nat count) user"]
  have "to_u32 (fst (bus h ?s)) = count \<longleftrightarrow> fst (bus h ?s) = count"
    using ans assms(3-5) unfolding len(1) by (intro to_u32_answer) simp_all
  then show ?thesis
    using assms(2-5) len(2) ans(2) unfolding len(1)
    by (auto simp: i2c_generic_driver_write_def i2c_generic_driver_open_def to_s32_id Let_def)
qed

lemma generic_i2c_write_contract_witness:
  "\<exists>t. i2c_generic_driver_write 8192 (\<lambda>_. 0) [1, 2, 3] echo_bus []
     (snd (i2c_generic_driver_open \<lparr>private_data = None\<rparr>)) 2 = Ret t \<and>
   requests t = [Master_send [1, 2]] \<and> ret t = 2"
  using generic_i2c_write_contract [OF echo_bus_documented refl, where count = 2 and room = 8192 and user = "[1, 2, 3]"
      and left = "\<lambda>_. 0" and h = "[]" and g = "\<lparr>private_data = None\<rparr>"]
  by (auto simp: echo_bus_def)

text \<open>The probe unwinds; its transfer test has no influence on it.\<close>

fun i2c_documented :: "i2c_env \<Rightarrow> bool" where
  "i2c_documented e = (\<not> IS_ERR (kmalloc_ret e) \<and> documented_answers (registration e))"

definition generic_i2c_owned :: "resource list" where
  "generic_i2c_owned = chrdev_owned @ [Managed ''prv_data'']"

lemma generic_i2c_probe_stack:
  assumes "i2c_documented e"
  shows "stack_ledger [] (icalls (generic_i2c_driver_probe bus m h e)) =
      Some (if iret (generic_i2c_driver_probe bus m h e) = 0 then generic_i2c_owned else [])"
  using assms
  by (auto simp: generic_i2c_driver_probe_def generic_i2c_owned_def chrdev_owned_def Let_def ledger_simps kptr_answer)

definition generic_i2c_load :: "master_bus \<Rightarrow> int \<Rightarrow> master_history \<Rightarrow> i2c_env \<Rightarrow> int \<times> kcall list" where
  "generic_i2c_load bus m h e =
     (iret (generic_i2c_driver_probe bus m h e), icalls (generic_i2c_driver_probe bus m h e))"

interpretation i2c_probe: unwinding i2c_documented "generic_i2c_load bus m h" generic_i2c_owned for bus m h
  by unfold_locales (auto simp: generic_i2c_load_def generic_i2c_probe_stack intro!: stack_ledger_imp_ledger)

text \<open>
  Any number of probe attempts of the I2C driver holds the character device's resources
  once if one of them succeeds and nothing otherwise. A failed transfer test does not make a
  probe fail: code and calls do not depend on the slave. But the driver never stores its
  private structure in the client, so the remove dereferences NULL.
\<close>

theorem generic_i2c_probe_remove:
  assumes "list_all i2c_documented es"
  shows "ledger [] (i2c_probe.attempts bus m h es) =
      Some (if list_ex (\<lambda>e. iret (generic_i2c_driver_probe bus m h e) = 0) es then generic_i2c_owned else []) \<and>
    iret (generic_i2c_driver_probe bus m h e) = iret (generic_i2c_driver_probe bus' m h' e) \<and>
    icalls (generic_i2c_driver_probe bus m h e) = icalls (generic_i2c_driver_probe bus' m h' e) \<and>
    generic_i2c_driver_remove (drvdata_after (icalls (generic_i2c_driver_probe bus m h e))) m' = Fault Null_deref"
proof -
  have "set_drvdata \<notin> set (icalls (generic_i2c_driver_probe bus m h e))"
    by (simp add: generic_i2c_driver_probe_def Let_def)
  moreover have "iret (generic_i2c_driver_probe bus m h e) = iret (generic_i2c_driver_probe bus' m h' e)"
    "icalls (generic_i2c_driver_probe bus m h e) = icalls (generic_i2c_driver_probe bus' m h' e)"
    by (simp_all add: generic_i2c_driver_probe_def Let_def)
  ultimately show ?thesis
    using i2c_probe.attempts_hold [OF assms, of bus m h]
    by (simp add: generic_i2c_load_def generic_i2c_driver_remove_def drvdata_after_def)
qed

lemma generic_i2c_probe_remove_witness:
  "ledger [] (i2c_probe.attempts echo_bus 0 []
     [\<lparr>byte_data = True, kmalloc_ret = Ptr 1, registration =
         \<lparr>alloc_ret = 0, class_ret = Ptr 1, cdev_add_ret = 0, device_ret = Err_ptr ENOMEM\<rparr>\<rparr>]) = Some []"
  using generic_i2c_probe_remove [of "[\<lparr>byte_data = True, kmalloc_ret = Ptr 1, registration =
         \<lparr>alloc_ret = 0, class_ret = Ptr 1, cdev_add_ret = 0, device_ret = Err_ptr ENOMEM\<rparr>\<rparr>]",
      where bus = echo_bus and m = 0 and h = "[]"]
  by (simp add: generic_i2c_driver_probe_def Let_def)

text \<open>
  C31: The driver is transparent. Any session of reads and writes that fit on the kernel stack, on
  any documented bus and with any failing copies, is one transfer per call with exactly the
  caller's bytes, in the order of the calls, and every caller gets the slave's answer and bytes.
\<close>

theorem generic_i2c_refines_wire:
  assumes "master_documented bus" "room < 2147483648" "f = snd (i2c_generic_driver_open g)"
    and "list_all (fits_stack room) cs" "spec_session (slave_spec bus) h cs = Some (rs, h')"
  shows "\<exists>y. session (i2c_generic_driver_fops room junk bus) (h, f) cs = Ret (rs, y) \<and> fst y = h'"
  using i2c_wire.session_simulates [of bus room "(h, f)" cs rs h' junk] assms
  by (auto simp: opened_on_def i2c_generic_driver_open_def)

lemma generic_i2c_refines_wire_witness:
  "\<exists>y. session (i2c_generic_driver_fops 8192 (\<lambda>_. 1) echo_bus) ([], snd (i2c_generic_driver_open \<lparr>private_data = None\<rparr>))
      [I_write (\<lambda>_. 0) [1, 2, 3] 2, I_read (\<lambda>_. 0) 3, I_write (\<lambda>_. 1) [4] 1] =
    Ret ([(2, []), (3, [7, 7, 7]), (neg EFAULT, [])], y) \<and> fst y = [Master_send [1, 2], Master_recv 3]"
  using generic_i2c_refines_wire [OF echo_bus_documented _ refl, where room = 8192 and junk = "\<lambda>_. 1" and h = "[]"
      and g = "\<lparr>private_data = None\<rparr>" and cs = "[I_write (\<lambda>_. 0) [1, 2, 3] 2, I_read (\<lambda>_. 0) 3, I_write (\<lambda>_. 1) [4] 1]"]
  by (simp add: echo_bus_def eval_nat_numeral)

end
