(* ===== verification/Poll_Dev.thy ===== *)
theory Poll_Dev
  imports Kernel
begin

text \<open>
  \<open>17_poll_example_prog\<close>: a character device whose readiness is granted through a sysfs file,
  and the two programs that wait for it. State of the driver: the two readiness flags and the
  20-byte value. Operations: the sysfs show and store functions, read, write, poll, init and
  exit. State of a program: the buffer it reads into. Parameters: the texts users write, the
  copies between user and kernel memory, and the answers of the registration calls.
\<close>

unbundle bit_operations_syntax

section \<open>State and strings\<close>

record poll_state =
  can_write :: bool
  can_read :: bool
  etx_value :: "u8 list"

definition poll_initial :: poll_state where
  "poll_initial = \<lparr>can_write = False, can_read = False, etx_value = replicate 20 0\<rparr>"

text \<open>A C string in an array: the bytes in front of the first NUL; without one the read runs on.\<close>

definition c_string :: "u8 list \<Rightarrow> u8 list outcome" where
  "c_string a = (if 0 \<in> set a then Ret (takeWhile (\<lambda>c. c \<noteq> 0) a) else Fault Out_of_bounds)"

definition strcpy :: "u8 list \<Rightarrow> u8 list \<Rightarrow> u8 list outcome" where
  "strcpy dest src = obind (c_string src) (\<lambda>t.
     if length t < length dest then Ret (blit 0 (t @ [0]) dest) else Fault Out_of_bounds)"

section \<open>The driver's operations\<close>

definition sysfs_show :: "poll_state \<Rightarrow> (int \<times> u8 list \<times> poll_state) outcome" where
  "sysfs_show s = (let s1 = s\<lparr>can_write := True\<rparr> in
     obind (c_string (etx_value s1)) (\<lambda>t.
       let text = [68, 97, 116, 97, 58, 32] @ t @ [10] in Ret (int (length text), text, s1)))"

definition sysfs_store :: "u8 list \<Rightarrow> int \<Rightarrow> poll_state \<Rightarrow> (int \<times> poll_state) outcome" where
  "sysfs_store buf count s =
     obind (strcpy (etx_value s) buf) (\<lambda>v. Ret (count, s\<lparr>etx_value := v, can_read := True\<rparr>))"

definition etx_open :: int where "etx_open = 0"
definition etx_release :: int where "etx_release = 0"

text \<open>
  \<open>left n\<close> is the answer of \<open>copy_to_user\<close>: how many of \<open>n\<close> bytes did not arrive. An incomplete
  copy is logged, and the function goes on. The result: the return value, and the bytes that
  arrive in the user's buffer; \<open>len\<close> is overwritten.
\<close>

definition etx_read :: "(int \<Rightarrow> int) \<Rightarrow> int \<Rightarrow> poll_state \<Rightarrow> (int \<times> u8 list) outcome" where
  "etx_read left len s = obind (c_string (etx_value s)) (\<lambda>t.
     let len = int (length t); user = take (nat (len - left len)) t in Ret (len, user))"

text \<open>The answer of a copy to a buffer of which only the first \<open>room\<close> bytes can be written.\<close>

definition copy_into :: "nat \<Rightarrow> int \<Rightarrow> int" where
  "copy_into room n = n - min (int room) n"

lemma copy_into_documented: "is_copy_answer (copy_into room)"
  by (auto simp: is_copy_answer_def copy_into_def)

lemma etx_read_into:
  "etx_read (copy_into room) len s = obind (c_string (etx_value s)) (\<lambda>t. Ret (int (length t), take room t))"
proof -
  have "take (nat (min (int room) (int (length t)))) t = take room t" for t :: "u8 list"
    by (simp add: min_def)
  then show ?thesis by (simp add: etx_read_def copy_into_def Let_def)
qed

definition etx_write :: "u8 list \<Rightarrow> (int \<Rightarrow> int) \<Rightarrow> int \<Rightarrow> poll_state \<Rightarrow> (int \<times> poll_state) outcome" where
  "etx_write user left len s =
     (if len > int (length (etx_value s)) then Fault Out_of_bounds
      else let s1 = s\<lparr>etx_value := blit 0 (from_user user (nat len) (nat (left len))) (etx_value s)\<rparr> in
        obind (c_string (etx_value s1)) (\<lambda>_. Ret (len, s1)))"

definition POLLIN :: u32 where "POLLIN = 0x001"
definition POLLOUT :: u32 where "POLLOUT = 0x004"
definition POLLRDNORM :: u32 where "POLLRDNORM = 0x040"
definition POLLWRNORM :: u32 where "POLLWRNORM = 0x100"

lemmas poll_masks = POLLIN_def POLLOUT_def POLLRDNORM_def POLLWRNORM_def

definition etx_poll :: "poll_state \<Rightarrow> u32 \<times> poll_state" where
  "etx_poll s =
     (let (mask, s) = (if can_read s then (0 OR (POLLIN OR POLLRDNORM), s\<lparr>can_read := False\<rparr>) else (0, s)) in
      if can_write s then (mask OR (POLLOUT OR POLLWRNORM), s\<lparr>can_write := False\<rparr>) else (mask, s))"

section \<open>Init and exit\<close>




section \<open>The programs\<close>

record demo =
  kernel_val :: "u8 list"  \<comment> \<open>\<open>char kernel_val[20]\<close>, on the stack\<close>
  printed :: "u8 list list"

definition user_space :: "u8 list" where
  \<comment> \<open>the string \<open>User Space\<close>\<close>
  "user_space = [85, 115, 101, 114, 32, 83, 112, 97, 99, 101]"

text \<open>
  What both programs do with a descriptor that is ready: they differ only in the names of the
  flags, which have the same values.
\<close>

definition demo_in :: "poll_state \<Rightarrow> demo \<Rightarrow> demo outcome" where
  "demo_in s d = obind (etx_read (\<lambda>_. 0) (int (length (kernel_val d))) s) (\<lambda>(r, bytes).
     if length bytes > length (kernel_val d) then Fault Out_of_bounds
     else let kv = blit 0 bytes (kernel_val d) in
       obind (c_string kv) (\<lambda>t. Ret \<lparr>kernel_val = kv, printed = printed d @ [t]\<rparr>))"

definition demo_out :: "poll_state \<Rightarrow> demo \<Rightarrow> (poll_state \<times> demo) outcome" where
  "demo_out s d = obind (strcpy (kernel_val d) (user_space @ [0])) (\<lambda>kv.
     obind (c_string kv) (\<lambda>t. obind (etx_write kv (\<lambda>_. 0) (int (length t)) s) (\<lambda>(r, s1).
       Ret (s1, \<lparr>kernel_val = kv, printed = printed d @ [t]\<rparr>))))"

definition demo_ready :: "u32 \<Rightarrow> poll_state \<Rightarrow> demo \<Rightarrow> (poll_state \<times> demo) outcome" where
  "demo_ready revents s d =
     obind (if revents AND POLLIN = POLLIN then demo_in s d else Ret d) (\<lambda>d1.
       if revents AND POLLOUT = POLLOUT then demo_out s d1 else Ret (s, d1))"

text \<open>One turn of the program with \<open>poll\<close>; \<open>ret\<close> is the answer of \<open>poll\<close>, negative: it aborts.\<close>

definition poll_turn :: "int \<Rightarrow> poll_state \<Rightarrow> demo \<Rightarrow> (poll_state \<times> demo) option outcome" where
  "poll_turn ret s d =
     (if ret < 0 then Ret None
      else let (mask, s1) = etx_poll s in obind (demo_ready mask s1 d) (\<lambda>x. Ret (Some x)))"

text \<open>One turn of the program with \<open>epoll\<close>: a loop over the \<open>ret\<close> events of its one descriptor.\<close>

fun epoll_events :: "u32 list \<Rightarrow> poll_state \<Rightarrow> demo \<Rightarrow> (poll_state \<times> demo) outcome" where
  "epoll_events [] s d = Ret (s, d)"
| "epoll_events (ev # evs) s d = obind (demo_ready ev s d) (\<lambda>(s1, d1). epoll_events evs s1 d1)"

definition epoll_turn :: "int \<Rightarrow> poll_state \<Rightarrow> demo \<Rightarrow> (poll_state \<times> demo) option outcome" where
  "epoll_turn ret s d =
     (if ret < 0 then Ret None
      else let (mask, s1) = etx_poll s; evs = (if mask AND (POLLIN OR POLLOUT) = 0 then [] else [mask]) in
        obind (epoll_events evs s1 d) (\<lambda>x. Ret (Some x)))"

section \<open>The invariant\<close>

text \<open>Both arrays keep a NUL in their last place, as long as nobody hands in too long a text.\<close>

definition closed :: "u8 list \<Rightarrow> bool" where
  "closed a \<longleftrightarrow> length a = 20 \<and> a ! 19 = 0"

definition string_of :: "u8 list \<Rightarrow> u8 list" where
  "string_of a = takeWhile (\<lambda>c. c \<noteq> 0) a"

lemma closed_string:
  assumes "closed a"
  shows "c_string a = Ret (string_of a)" "length (string_of a) \<le> 19"
proof -
  have "0 \<in> set a"
    using assms nth_mem [of 19 a] by (simp add: closed_def)
  then show "c_string a = Ret (string_of a)" by (simp add: c_string_def string_of_def)
  show "length (string_of a) \<le> 19"
  proof (rule ccontr)
    assume "\<not> length (string_of a) \<le> 19"
    then have 19: "19 < length (string_of a)" by simp
    then have "string_of a ! 19 \<in> set (string_of a)" by (rule nth_mem)
    moreover have "string_of a ! 19 = a ! 19"
      using 19 by (simp add: string_of_def takeWhile_nth)
    ultimately have "a ! 19 \<in> set (string_of a)" by simp
    then have "a ! 19 \<noteq> 0" unfolding string_of_def by (blast dest: set_takeWhileD)
    then show False using assms by (simp add: closed_def)
  qed
qed

lemma closed_blit: "closed a \<Longrightarrow> length ys \<le> 19 \<Longrightarrow> closed (blit 0 ys a)"
  by (auto simp: closed_def nth_blit)

lemma closed_strcpy:
  assumes "closed a" "length t < 20" "0 \<notin> set t"
  shows "strcpy a (t @ 0 # u) = Ret (blit 0 (t @ [0]) a)" "closed (blit 0 (t @ [0]) a)"
    "string_of (blit 0 (t @ [0]) a) = t"
proof -
  have "c_string (t @ 0 # u) = Ret t"
    using assms(3) by (auto simp: c_string_def takeWhile_append)
  then show "strcpy a (t @ 0 # u) = Ret (blit 0 (t @ [0]) a)"
    using assms(1,2) by (simp add: strcpy_def closed_def)
  show "closed (blit 0 (t @ [0]) a)"
    using assms(1,2) by (auto simp: closed_def nth_blit nth_append)
  show "string_of (blit 0 (t @ [0]) a) = t"
    using assms(3) by (auto simp: string_of_def blit_def takeWhile_append)
qed

lemma string_of_blit:
  "0 \<notin> set ys \<Longrightarrow> string_of (blit 0 ys a) = ys @ string_of (drop (length ys) a)"
  by (auto simp: string_of_def blit_def takeWhile_append)

lemma string_nonzero: "0 \<notin> set (string_of a)"
  by (auto simp: string_of_def dest: set_takeWhileD)

section \<open>The system of driver, sysfs user and program\<close>

datatype poll_event =
  Ev_show
| Ev_store "u8 list"  \<comment> \<open>the text, without its NUL\<close>
| Ev_write "u8 list"
| Ev_poll_turn
| Ev_epoll_turn

fun bounded :: "poll_event \<Rightarrow> bool" where
  "bounded (Ev_store t) \<longleftrightarrow> length t < 20 \<and> 0 \<notin> set t"
| "bounded (Ev_write bs) \<longleftrightarrow> length bs < 20"
| "bounded _ \<longleftrightarrow> True"

fun poll_apply :: "poll_event \<Rightarrow> poll_state \<times> demo \<Rightarrow> (poll_state \<times> demo) outcome" where
  "poll_apply Ev_show (s, d) = obind (sysfs_show s) (\<lambda>(r, text, s1). Ret (s1, d))"
| "poll_apply (Ev_store t) (s, d) = obind (sysfs_store (t @ [0]) (int (length t)) s) (\<lambda>(r, s1). Ret (s1, d))"
| "poll_apply (Ev_write bs) (s, d) = obind (etx_write bs (\<lambda>_. 0) (int (length bs)) s) (\<lambda>(r, s1). Ret (s1, d))"
| "poll_apply Ev_poll_turn (s, d) = obind (poll_turn 1 s d) (\<lambda>x. Ret (case x of None \<Rightarrow> (s, d) | Some y \<Rightarrow> y))"
| "poll_apply Ev_epoll_turn (s, d) = obind (epoll_turn 1 s d) (\<lambda>x. Ret (case x of None \<Rightarrow> (s, d) | Some y \<Rightarrow> y))"

inductive poll_step :: "poll_state \<times> demo \<Rightarrow> poll_event \<Rightarrow> poll_state \<times> demo \<Rightarrow> bool" where
  event: "bounded e \<Longrightarrow> poll_apply e x = Ret y \<Longrightarrow> poll_step x e y"

inductive poll_reach :: "poll_state \<times> demo \<Rightarrow> bool" where
  boot: "closed (kernel_val d) \<Longrightarrow> poll_reach (poll_initial, d)"
| move: "poll_reach x \<Longrightarrow> poll_step x e y \<Longrightarrow> poll_reach y"

inductive_cases poll_stepE: "poll_step x e y"

definition poll_ok :: "poll_state \<times> demo \<Rightarrow> bool" where
  "poll_ok x \<longleftrightarrow> closed (etx_value (fst x)) \<and> closed (kernel_val (snd x))"

lemma etx_write_ok:
  assumes "closed (etx_value s)" "length bs \<le> 19"
  shows "etx_write bs (\<lambda>_. 0) (int (length bs)) s =
      Ret (int (length bs), s\<lparr>etx_value := blit 0 bs (etx_value s)\<rparr>)"
  using closed_string(1) [OF closed_blit [OF assms]] assms
  by (simp add: etx_write_def closed_def)

lemma demo_in_ok:
  assumes "closed (etx_value s)" "closed (kernel_val d)"
  shows "demo_in s d = Ret \<lparr>kernel_val = blit 0 (string_of (etx_value s)) (kernel_val d),
      printed = printed d @ [string_of (blit 0 (string_of (etx_value s)) (kernel_val d))]\<rparr>"
  using closed_string [OF assms(1)] closed_string(1) [OF closed_blit [OF assms(2) closed_string(2) [OF assms(1)]]]
    assms(2) by (simp add: demo_in_def etx_read_def closed_def Let_def)

lemma demo_out_ok:
  assumes "closed (etx_value s)" "closed (kernel_val d)"
  shows "\<exists>d'. demo_out s d = Ret (s\<lparr>etx_value := blit 0 user_space (etx_value s)\<rparr>, d') \<and>
    closed (kernel_val d') \<and> printed d' = printed d @ [user_space]"
proof -
  let ?kv = "blit 0 (user_space @ [0]) (kernel_val d)"
  have u: "length user_space = 10" "0 \<notin> set user_space" by (simp_all add: user_space_def)
  have kv: "strcpy (kernel_val d) (user_space @ [0]) = Ret ?kv" "closed ?kv" "string_of ?kv = user_space"
    using closed_strcpy(1) [OF assms(2), of user_space "[]"] closed_strcpy(2,3) [OF assms(2), of user_space] u
    by simp_all
  have "take 10 ?kv = user_space"
    using u by (simp add: blit_def)
  moreover have "length ?kv = 20" using kv(2) by (simp add: closed_def)
  ultimately have from_kv: "from_user ?kv 10 0 = user_space" by simp
  have "etx_write ?kv (\<lambda>_. 0) 10 s = etx_write user_space (\<lambda>_. 0) (int (length user_space)) s"
    using from_kv u by (simp add: etx_write_def)
  then show ?thesis
    using kv closed_string(1) [OF kv(2)] etx_write_ok [OF assms(1), of user_space] u
    by (simp add: demo_out_def)
qed

lemma demo_ready_ok:
  assumes "poll_ok (s, d)"
  shows "\<exists>y. demo_ready m s d = Ret y \<and> poll_ok y"
proof -
  have c: "closed (etx_value s)" "closed (kernel_val d)" using assms by (simp_all add: poll_ok_def)
  obtain d1 where d1: "(if m AND POLLIN = POLLIN then demo_in s d else Ret d) = Ret d1" "closed (kernel_val d1)"
    using demo_in_ok [OF c] closed_blit [OF c(2) closed_string(2) [OF c(1)]] c(2)
    by (cases "m AND POLLIN = POLLIN") simp_all
  have "closed (blit 0 user_space (etx_value s))"
    by (rule closed_blit [OF c(1)]) (simp add: user_space_def)
  then show ?thesis
    using demo_out_ok [OF c(1) d1(2)] d1 c(1) by (auto simp: demo_ready_def poll_ok_def)
qed

lemma etx_poll_value: "etx_value (snd (etx_poll s)) = etx_value s"
  by (simp add: etx_poll_def Let_def)

lemma turns_ok:
  assumes "poll_ok (s, d)"
  shows "\<exists>y. poll_turn 1 s d = Ret (Some y) \<and> poll_ok y" "\<exists>y. epoll_turn 1 s d = Ret (Some y) \<and> poll_ok y"
proof -
  obtain m s1 where m: "etx_poll s = (m, s1)" by force
  then have ok: "poll_ok (s1, d)" using assms etx_poll_value [of s] by (simp add: poll_ok_def)
  then show "\<exists>y. poll_turn 1 s d = Ret (Some y) \<and> poll_ok y"
    using demo_ready_ok [OF ok, of m] m by (auto simp: poll_turn_def)
  show "\<exists>y. epoll_turn 1 s d = Ret (Some y) \<and> poll_ok y"
    using demo_ready_ok [OF ok, of m] ok m by (auto simp: epoll_turn_def)
qed

lemma poll_apply_ok:
  assumes "poll_ok x" "bounded e"
  shows "\<exists>y. poll_apply e x = Ret y \<and> poll_ok y"
proof -
  obtain s d where x: "x = (s, d)" by force
  have c: "closed (etx_value s)" "closed (kernel_val d)" using assms(1) x by (simp_all add: poll_ok_def)
  show ?thesis
  proof (cases e)
    case Ev_show
    then show ?thesis using c closed_string(1) [OF c(1)] by (simp add: x sysfs_show_def poll_ok_def Let_def)
  next
    case (Ev_store t)
    then show ?thesis
      using assms(2) c closed_strcpy(1) [OF c(1), of t "[]"] closed_strcpy(2) [OF c(1), of t] by (simp add: x sysfs_store_def poll_ok_def)
  next
    case (Ev_write bs)
    then show ?thesis
      using assms(2) c closed_blit [OF c(1), of bs] etx_write_ok [OF c(1), of bs] by (simp add: x poll_ok_def)
  qed (use turns_ok [of s d] assms(1) in \<open>auto simp: x\<close>)
qed

lemma poll_reach_ok: "poll_reach x \<Longrightarrow> poll_ok x"
proof (induction rule: poll_reach.induct)
  case (boot d)
  then show ?case by (simp add: poll_ok_def poll_initial_def closed_def)
next
  case (move x e y)
  from move.hyps(2) have e: "bounded e" "poll_apply e x = Ret y" by (auto elim: poll_stepE)
  from poll_apply_ok [OF move.IH e(1)] e(2) show ?case by simp
qed

fun poll_runs :: "poll_event list \<Rightarrow> poll_state \<times> demo \<Rightarrow> (poll_state \<times> demo) outcome" where
  "poll_runs [] x = Ret x"
| "poll_runs (e # es) x = obind (poll_apply e x) (poll_runs es)"

definition is_turn :: "poll_event \<Rightarrow> bool" where
  "is_turn e \<longleftrightarrow> e = Ev_poll_turn \<or> e = Ev_epoll_turn"

definition grants :: "bool \<Rightarrow> bool \<Rightarrow> u32" where
  "grants r w = (if r then POLLIN OR POLLRDNORM else 0) OR (if w then POLLOUT OR POLLWRNORM else 0)"

lemma etx_poll_grants: "fst (etx_poll s) = grants (can_read s) (can_write s)"
  "\<not> can_read (snd (etx_poll s))" "\<not> can_write (snd (etx_poll s))"
  by (simp_all add: etx_poll_def grants_def Let_def)

lemma demo_out_flags: "demo_out s d = Ret (s', d') \<Longrightarrow> can_read s' = can_read s \<and> can_write s' = can_write s"
  by (auto simp: demo_out_def etx_write_def obind_Ret_iff Let_def split: if_splits)

lemma demo_ready_flags:
  "demo_ready m s d = Ret (s', d') \<Longrightarrow> can_read s' = can_read s \<and> can_write s' = can_write s"
  by (auto simp: demo_ready_def obind_Ret_iff dest: demo_out_flags split: if_splits)

lemma turn_clears:
  assumes "poll_apply e (s, d) = Ret (s', d')" "is_turn e"
  shows "\<not> can_read s' \<and> \<not> can_write s'"
proof -
  obtain m s1 where m: "etx_poll s = (m, s1)" by force
  have "\<not> can_read s1" "\<not> can_write s1" using etx_poll_grants(2,3) [of s] m by simp_all
  then show ?thesis
    using assms m demo_ready_flags [of m s1 d s' d']
    by (auto simp: is_turn_def poll_turn_def epoll_turn_def obind_Ret_iff Let_def split: if_splits)
qed

lemma quiet_flags:
  assumes "poll_apply e (s, d) = Ret (s', d')" "\<not> is_turn e"
  shows "can_read s' \<longleftrightarrow> can_read s \<or> (\<exists>t. e = Ev_store t)" "can_write s' \<longleftrightarrow> can_write s \<or> e = Ev_show"
  using assms
  by (cases e; auto simp: is_turn_def sysfs_show_def sysfs_store_def etx_write_def obind_Ret_iff Let_def
      split: if_splits)+

lemma quiet_runs:
  "poll_runs es (s, d) = Ret (s', d') \<Longrightarrow> \<not> list_ex is_turn es \<Longrightarrow>
   (can_read s' \<longleftrightarrow> can_read s \<or> (\<exists>t. Ev_store t \<in> set es)) \<and>
   (can_write s' \<longleftrightarrow> can_write s \<or> Ev_show \<in> set es)"
proof (induction es arbitrary: s d)
  case (Cons e es)
  then obtain s1 d1 where "poll_apply e (s, d) = Ret (s1, d1)" "poll_runs es (s1, d1) = Ret (s', d')"
    by (auto simp: obind_Ret_iff)
  then show ?case
    using Cons.IH [of s1 d1] Cons.prems(2) quiet_flags [of e s d s1 d1] by auto
qed simp

lemma store_then_turn:
  assumes "poll_ok (s, d)" "length t < 20" "0 \<notin> set t"
  shows "\<exists>s3 d3. poll_runs [Ev_store t, Ev_poll_turn] (s, d) = Ret (s3, d3) \<and>
    printed d3 = printed d @ [t @ string_of (drop (length t) (kernel_val d))] @ (if can_write s then [user_space] else [])"
proof -
  have c: "closed (etx_value s)" "closed (kernel_val d)" using assms(1) by (simp_all add: poll_ok_def)
  let ?v = "blit 0 (t @ [0]) (etx_value s)"
  let ?s1 = "s\<lparr>etx_value := ?v, can_read := True\<rparr>"
  have v: "strcpy (etx_value s) (t @ [0]) = Ret ?v" "closed ?v" "string_of ?v = t"
    using closed_strcpy(1) [OF c(1), of t "[]"] closed_strcpy(2,3) [OF c(1), of t] assms(2,3) by simp_all
  then have store: "poll_apply (Ev_store t) (s, d) = Ret (?s1, d)" by (simp add: sysfs_store_def)
  let ?sp = "?s1\<lparr>can_read := False, can_write := False\<rparr>"
  let ?d1 = "\<lparr>kernel_val = blit 0 t (kernel_val d), printed = printed d @ [t @ string_of (drop (length t) (kernel_val d))]\<rparr>"
  have poll: "etx_poll ?s1 = (grants True (can_write s), ?sp)"
    by (simp add: etx_poll_def grants_def Let_def)
  have in_out: "grants True b AND POLLIN = POLLIN" "grants True b AND POLLOUT = POLLOUT \<longleftrightarrow> b" for b
    by (cases b; simp add: grants_def poll_masks)+
  have "demo_in ?sp d = Ret ?d1"
    using demo_in_ok [of ?sp d] v(2,3) c(2) string_of_blit [OF assms(3)] by simp
  moreover obtain d' where "demo_out ?sp ?d1 = Ret (?sp\<lparr>etx_value := blit 0 user_space ?v\<rparr>, d')"
      "printed d' = printed ?d1 @ [user_space]"
    using demo_out_ok [of ?sp ?d1] v(2) closed_blit [OF c(2), of t] assms(2) by auto
  ultimately show ?thesis
    using store poll in_out by (cases "can_write s") (simp_all add: poll_turn_def demo_ready_def)
qed

section \<open>The two programs compared\<close>

lemma demo_ready_idle: "m AND (POLLIN OR POLLOUT) = 0 \<Longrightarrow> demo_ready m s d = Ret (s, d)"
proof -
  assume none: "m AND (POLLIN OR POLLOUT) = 0"
  have "m AND POLLIN = (m AND (POLLIN OR POLLOUT)) AND POLLIN" "m AND POLLOUT = (m AND (POLLIN OR POLLOUT)) AND POLLOUT"
    by (simp_all add: poll_masks and.assoc)
  then have "m AND POLLIN = 0" "m AND POLLOUT = 0" unfolding none by simp_all
  then have "m AND POLLIN \<noteq> POLLIN" "m AND POLLOUT \<noteq> POLLOUT" by (simp_all add: poll_masks)
  then show ?thesis by (simp add: demo_ready_def)
qed

lemma obind_Ret_right [simp]: "obind m Ret = m"
  by (cases m) simp_all

lemma turns_equal: "epoll_turn ret s d = poll_turn ret s d"
proof -
  obtain m s1 where m: "etx_poll s = (m, s1)" by force
  have "epoll_events (if m AND (POLLIN OR POLLOUT) = 0 then [] else [m]) s1 d = demo_ready m s1 d"
  proof -
    have "(\<lambda>(x, y). epoll_events [] x y) = Ret" by (simp add: fun_eq_iff)
    then show ?thesis by (simp add: demo_ready_idle del: epoll_events.simps(1)) (simp add: epoll_events.simps(1))
  qed
  then show ?thesis by (simp add: epoll_turn_def poll_turn_def m Let_def del: epoll_events.simps)
qed

fun other_program :: "poll_event \<Rightarrow> poll_event" where
  "other_program Ev_poll_turn = Ev_epoll_turn"
| "other_program Ev_epoll_turn = Ev_poll_turn"
| "other_program e = e"

lemma other_apply: "poll_apply (other_program e) x = poll_apply e x"
  by (cases e; cases x) (simp_all add: turns_equal)

lemma other_runs: "poll_runs (map other_program es) x = poll_runs es x"
proof (induction es arbitrary: x)
  case (Cons e es)
  then have "poll_runs (map other_program es) = poll_runs es" by blast
  then show ?case by (simp add: other_apply)
qed simp

section \<open>Properties\<close>

text \<open>
  The program with \<open>poll\<close> and the program with \<open>epoll\<close> do the same, from any state of driver
  and program, faults and aborts included: exchanging their turns anywhere in a run with any
  other users of the device changes nothing.
\<close>

theorem poll_epoll_equivalent:
  "epoll_turn ret s d = poll_turn ret s d \<and> poll_runs (map other_program es) x = poll_runs es x"
  by (simp add: turns_equal other_runs)

text \<open>
  Starting from a loaded driver and a program whose stack buffer ends in a NUL, no
  interleaving of sysfs reads, sysfs writes of at most 19 characters, device writes of at most
  19 bytes and turns of either program ever leaves an array, and none of them can get stuck.
  Without the bounds the driver overruns its value: a sysfs text of 20 characters or more and
  a device write of more than 20 bytes fault in every state.
\<close>

theorem poll_system_safe:
  assumes "poll_reach x" "bounded e" "20 \<le> length t" "0 \<notin> set t" "20 < length bs"
  shows "(\<exists>y. poll_apply e x = Ret y \<and> poll_reach y) \<and>
    poll_apply (Ev_store t) x = Fault Out_of_bounds \<and> poll_apply (Ev_write bs) x = Fault Out_of_bounds"
proof -
  obtain s d where x: "x = (s, d)" by force
  have ok: "poll_ok x" using assms(1) by (rule poll_reach_ok)
  from poll_apply_ok [OF ok assms(2)] obtain y where "poll_apply e x = Ret y" by blast
  then have "poll_apply e x = Ret y \<and> poll_reach y"
    using assms(1,2) by (blast intro: poll_reach.move poll_step.event)
  moreover have "c_string (t @ [0]) = Ret t"
    using assms(4) by (auto simp: c_string_def takeWhile_append)
  ultimately show ?thesis
    using ok assms(3,5) by (auto simp: x poll_ok_def closed_def sysfs_store_def strcpy_def etx_write_def)
qed

lemma poll_system_safe_witness:
  "\<exists>y. poll_apply Ev_poll_turn (poll_initial, \<lparr>kernel_val = replicate 20 0, printed = []\<rparr>) = Ret y \<and> poll_reach y"
  using poll_system_safe [OF poll_reach.boot, of "\<lparr>kernel_val = replicate 20 0, printed = []\<rparr>" Ev_poll_turn
      "replicate 20 65" "replicate 21 65"]
  by (simp add: closed_def)

text \<open>
  Readiness is granted edge by edge: after a turn of either program, \<open>etx_poll\<close> reports the
  device readable exactly if a text was stored since, and writable exactly if the sysfs file
  was shown since; several grants between two turns are reported once.
\<close>

theorem poll_grants_consumed_once:
  assumes "is_turn e" "\<not> list_ex is_turn es" "poll_runs (e # es) x = Ret (s, d)"
  shows "fst (etx_poll s) = grants (\<exists>t. Ev_store t \<in> set es) (Ev_show \<in> set es)"
proof -
  obtain s0 d0 where x: "x = (s0, d0)" by force
  with assms(3) obtain s1 d1 where "poll_apply e (s0, d0) = Ret (s1, d1)" "poll_runs es (s1, d1) = Ret (s, d)"
    by (auto simp: obind_Ret_iff)
  then show ?thesis
    using turn_clears [of e s0 d0 s1 d1] quiet_runs [of es s1 d1 s d] assms(1,2)
    by (simp add: etx_poll_grants)
qed

lemma poll_grants_consumed_once_witness:
  "\<exists>s d. poll_runs [Ev_poll_turn, Ev_store [65], Ev_store [66]] (poll_initial, \<lparr>kernel_val = replicate 20 0, printed = []\<rparr>) =
     Ret (s, d) \<and> fst (etx_poll s) = POLLIN OR POLLRDNORM"
proof -
  let ?x = "(poll_initial, \<lparr>kernel_val = replicate 20 0, printed = []\<rparr>)"
  have x: "poll_ok ?x" by (simp add: poll_ok_def poll_initial_def closed_def)
  from poll_apply_ok [OF x, of Ev_poll_turn] obtain y1 where y1: "poll_apply Ev_poll_turn ?x = Ret y1" "poll_ok y1" by auto
  from poll_apply_ok [OF y1(2), of "Ev_store [65]"] obtain y2 where y2: "poll_apply (Ev_store [65]) y1 = Ret y2" "poll_ok y2" by auto
  from poll_apply_ok [OF y2(2), of "Ev_store [66]"] obtain s d where y3: "poll_apply (Ev_store [66]) y2 = Ret (s, d)" by auto
  have "poll_runs [Ev_poll_turn, Ev_store [65], Ev_store [66]] ?x = Ret (s, d)"
    using y1(1) y2(1) y3 by (simp del: poll_apply.simps)
  from poll_grants_consumed_once [OF _ _ this] show ?thesis
    using \<open>poll_runs _ ?x = Ret (s, d)\<close> by (auto simp: is_turn_def grants_def simp del: poll_runs.simps)
qed

text \<open>
  A text stored through sysfs is what \<open>etx_read\<close> delivers next when its copy is complete, whole,
  whatever length the reader asked for (so a reader with a shorter buffer is overrun). Bytes written through the
  device do not end the string: a read afterwards delivers them followed by what is left of
  the earlier value. The program's buffer has the same flaw: what it prints after a store is
  the text followed by the rest of its buffer.
\<close>

theorem poll_values_delivered:
  assumes "poll_ok (s, d)" "length t < 20" "0 \<notin> set t"
  shows "\<exists>s1 s2 s3 d3. poll_apply (Ev_store t) (s, d) = Ret (s1, d) \<and> etx_read (\<lambda>_. 0) len s1 = Ret (int (length t), t) \<and>
    poll_apply (Ev_write t) (s, d) = Ret (s2, d) \<and>
    etx_read (\<lambda>_. 0) len s2 = Ret (int (length t + length (string_of (drop (length t) (etx_value s)))),
      t @ string_of (drop (length t) (etx_value s))) \<and>
    poll_runs [Ev_store t, Ev_poll_turn] (s, d) = Ret (s3, d3) \<and>
    printed d3 = printed d @ [t @ string_of (drop (length t) (kernel_val d))] @ (if can_write s then [user_space] else [])"
proof -
  have c: "closed (etx_value s)" "closed (kernel_val d)" using assms(1) by (simp_all add: poll_ok_def)
  let ?v = "blit 0 (t @ [0]) (etx_value s)" and ?w = "blit 0 t (etx_value s)"
  let ?s1 = "s\<lparr>etx_value := ?v, can_read := True\<rparr>" and ?s2 = "s\<lparr>etx_value := ?w\<rparr>"
  have v: "strcpy (etx_value s) (t @ [0]) = Ret ?v" "closed ?v" "string_of ?v = t"
    using closed_strcpy(1) [OF c(1), of t "[]"] closed_strcpy(2,3) [OF c(1), of t] assms(2,3) by simp_all
  then have store: "poll_apply (Ev_store t) (s, d) = Ret (?s1, d)" by (simp add: sysfs_store_def)
  have read1: "etx_read (\<lambda>_. 0) len ?s1 = Ret (int (length t), t)"
    using closed_string(1) [OF v(2)] v(3) by (simp add: etx_read_def Let_def)
  have w: "closed ?w" "string_of ?w = t @ string_of (drop (length t) (etx_value s))"
    using closed_blit [OF c(1), of t] string_of_blit [OF assms(3)] assms(2) by simp_all
  have "poll_apply (Ev_write t) (s, d) = Ret (?s2, d)"
    using etx_write_ok [OF c(1), of t] assms(2) by simp
  moreover have "etx_read (\<lambda>_. 0) len ?s2 = Ret (int (length t + length (string_of (drop (length t) (etx_value s)))),
      t @ string_of (drop (length t) (etx_value s)))"
    using closed_string(1) [OF w(1)] w(2) by (simp add: etx_read_def Let_def)
  moreover have "\<exists>s3 d3. poll_runs [Ev_store t, Ev_poll_turn] (s, d) = Ret (s3, d3) \<and>
      printed d3 = printed d @ [t @ string_of (drop (length t) (kernel_val d))] @ (if can_write s then [user_space] else [])"
    using store_then_turn [OF assms] .
  ultimately show ?thesis using store read1 by blast
qed

lemma poll_values_delivered_witness:
  "\<exists>s1 s2. poll_apply (Ev_store [72, 105]) (poll_initial, \<lparr>kernel_val = replicate 20 0, printed = []\<rparr>) =
       Ret (s1, \<lparr>kernel_val = replicate 20 0, printed = []\<rparr>) \<and> etx_read (\<lambda>_. 0) 1 s1 = Ret (2, [72, 105])"
  using poll_values_delivered [of poll_initial "\<lparr>kernel_val = replicate 20 0, printed = []\<rparr>" "[72, 105]" 1]
  by (auto simp: poll_ok_def poll_initial_def closed_def simp del: poll_apply.simps poll_runs.simps)




end
