(* ===== verification/Poll_Channel.thy ===== *)
theory Poll_Channel
  imports Poll_Dev Refinement
begin

text \<open>
  \<open>17_poll_example_prog\<close>, from outside: the device file and the sysfs file of the poll driver,
  through \<open>fops\<close> and \<open>etx_attr\<close>, for any number of processes whose calls follow one another in
  any order. The abstract object is a channel: one text, and two permits that a poll collects.
  The specification is silent where the driver leaves its array or delivers leftovers of
  earlier texts.
\<close>

section \<open>The operation tables\<close>

datatype dev_call =
  D_open
| D_release
| D_read int nat  \<comment> \<open>the length asked for, and how many bytes the caller's memory takes from there\<close>
| D_write "u8 list" nat  \<comment> \<open>the caller's bytes, and how many of them \<open>copy_from_user\<close> leaves out\<close>
| D_poll

datatype attr_call =
  A_show
| A_store "u8 list"  \<comment> \<open>the bytes of the caller; sysfs puts a NUL behind them\<close>

datatype poll_call = Dev dev_call | Attr attr_call

datatype poll_answer = Code int | Data int "u8 list" | Mask u32

fun fops :: "poll_state \<Rightarrow> dev_call \<Rightarrow> (poll_answer \<times> poll_state) outcome" where
  "fops s D_open = Ret (Code etx_open, s)"
| "fops s D_release = Ret (Code etx_release, s)"
| "fops s (D_read len room) = obind (etx_read (copy_into room) len s) (\<lambda>(r, bs). Ret (Data r bs, s))"
| "fops s (D_write bs left) =
     obind (etx_write bs (\<lambda>_. int left) (int (length bs)) s) (\<lambda>(r, s1). Ret (Code r, s1))"
| "fops s D_poll = (case etx_poll s of (m, s1) \<Rightarrow> Ret (Mask m, s1))"

fun etx_attr :: "poll_state \<Rightarrow> attr_call \<Rightarrow> (poll_answer \<times> poll_state) outcome" where
  "etx_attr s A_show = obind (sysfs_show s) (\<lambda>(r, bs, s1). Ret (Data r bs, s1))"
| "etx_attr s (A_store bs) =
     obind (sysfs_store (bs @ [0]) (int (length bs)) s) (\<lambda>(r, s1). Ret (Code r, s1))"

fun poll_op :: "poll_state \<Rightarrow> poll_call \<Rightarrow> (poll_answer \<times> poll_state) outcome" where
  "poll_op s (Dev c) = fops s c"
| "poll_op s (Attr c) = etx_attr s c"

section \<open>The channel\<close>

record channel =
  content :: "u8 list"
  readable :: bool
  writable :: bool

text \<open>
  \<open>put left bs\<close>: what arrives of \<open>bs\<close> when \<open>left\<close> bytes do not. If it holds a NUL the content is
  replaced by what is in front of it; otherwise it is written over the content.
\<close>

definition put :: "nat \<Rightarrow> u8 list \<Rightarrow> u8 list" where
  "put left bs = take (length bs - left) bs @ replicate left 0"

fun channel_spec :: "channel \<Rightarrow> poll_call \<Rightarrow> (poll_answer \<times> channel) option" where
  "channel_spec c (Dev D_open) = Some (Code 0, c)"
| "channel_spec c (Dev D_release) = Some (Code 0, c)"
| "channel_spec c (Dev (D_read len room)) = Some (Data (int (length (content c))) (take room (content c)), c)"
| "channel_spec c (Dev (D_write bs left)) =
     (if 20 < length bs then None
      else if 0 \<in> set (put left bs)
      then Some (Code (int (length bs)), c\<lparr>content := string_of (put left bs)\<rparr>)
      else if length bs \<le> length (content c)
      then Some (Code (int (length bs)), c\<lparr>content := bs @ drop (length bs) (content c)\<rparr>)
      else None)"
| "channel_spec c (Dev D_poll) =
     Some (Mask (grants (readable c) (writable c)), c\<lparr>readable := False, writable := False\<rparr>)"
| "channel_spec c (Attr A_show) =
     (let text = [68, 97, 116, 97, 58, 32] @ content c @ [10] in
      Some (Data (int (length text)) text, c\<lparr>writable := True\<rparr>))"
| "channel_spec c (Attr (A_store bs)) =
     (if length (string_of bs) < 20
      then Some (Code (int (length bs)), c\<lparr>content := string_of bs, readable := True\<rparr>)
      else None)"

definition channel_of :: "poll_state \<Rightarrow> channel" where
  "channel_of s = \<lparr>content = string_of (etx_value s), readable = can_read s, writable = can_write s\<rparr>"

definition terminated :: "poll_state \<Rightarrow> bool" where
  "terminated s \<longleftrightarrow> length (etx_value s) = 20 \<and> 0 \<in> set (etx_value s)"

text \<open>A copy cannot leave out more bytes than it was asked to make.\<close>

fun documented_copy :: "poll_call \<Rightarrow> bool" where
  "documented_copy (Dev (D_write bs left)) \<longleftrightarrow> left \<le> length bs"
| "documented_copy _ \<longleftrightarrow> True"

section \<open>Strings in the array\<close>

lemma c_string_terminated: "0 \<in> set a \<Longrightarrow> c_string a = Ret (string_of a)"
  by (simp add: c_string_def string_of_def)

lemma string_of_append: "string_of (xs @ ys) = (if 0 \<in> set xs then string_of xs else xs @ string_of ys)"
  by (auto simp: string_of_def takeWhile_append)

lemma string_of_whole: "0 \<notin> set a \<Longrightarrow> string_of a = a"
  by (auto simp: string_of_def takeWhile_eq_all_conv)

lemma string_of_short: "0 \<in> set a \<Longrightarrow> length (string_of a) < length a"
  unfolding string_of_def
  by (metis (full_types) length_takeWhile_le le_neq_implies_less takeWhile_eq_all_conv takeWhile_eq_take take_all order_refl)

lemma string_of_drop: "k \<le> length (string_of a) \<Longrightarrow> string_of (drop k a) = drop k (string_of a)"
proof (induction k arbitrary: a)
  case (Suc k)
  then show ?case by (cases a) (auto simp: string_of_def split: if_splits)
qed simp

lemma zero_behind: "0 \<in> set a \<Longrightarrow> k \<le> length (string_of a) \<Longrightarrow> 0 \<in> set (drop k a)"
proof (induction k arbitrary: a)
  case (Suc k)
  then show ?case by (cases a) (auto simp: string_of_def split: if_splits)
qed simp

lemma from_user_put: "left \<le> length bs \<Longrightarrow> from_user bs (length bs) left = put left bs"
  by (simp add: from_user_def put_def)

lemma length_put [simp]: "left \<le> length bs \<Longrightarrow> length (put left bs) = length bs"
  by (simp add: put_def)

lemma put_whole: "0 \<notin> set (put left bs) \<Longrightarrow> left = 0 \<and> put left bs = bs"
  by (cases "left = 0") (simp_all add: put_def)

section \<open>Every call does what the channel does\<close>

lemma terminated_facts:
  assumes "terminated s"
  shows "length (etx_value s) = 20" "c_string (etx_value s) = Ret (string_of (etx_value s))"
    "length (string_of (etx_value s)) < 20"
  using assms string_of_short [of "etx_value s"] by (simp_all add: terminated_def c_string_terminated)

lemma write_effect:
  assumes "terminated s" "left \<le> length bs" "length bs \<le> 20"
  shows "etx_write bs (\<lambda>_. int left) (int (length bs)) s =
     obind (c_string (blit 0 (put left bs) (etx_value s)))
       (\<lambda>_. Ret (int (length bs), s\<lparr>etx_value := blit 0 (put left bs) (etx_value s)\<rparr>))"
  using assms terminated_facts(1) [OF assms(1)] by (simp add: etx_write_def from_user_put Let_def)

lemma written_value:
  assumes "terminated s" "left \<le> length bs" "length bs \<le> 20"
    and "0 \<in> set (put left bs) \<or> length bs \<le> length (string_of (etx_value s))"
  shows "0 \<in> set (blit 0 (put left bs) (etx_value s))"
    "string_of (blit 0 (put left bs) (etx_value s)) =
      (if 0 \<in> set (put left bs) then string_of (put left bs) else bs @ drop (length bs) (string_of (etx_value s)))"
  using assms zero_behind [of "etx_value s" "length bs"] put_whole [of left bs]
  by (auto simp: blit_def string_of_append string_of_drop terminated_def)

lemma stored_value:
  assumes "terminated s" "length (string_of bs) < 20"
  shows "strcpy (etx_value s) (bs @ [0]) = Ret (blit 0 (string_of bs @ [0]) (etx_value s))"
    "string_of (blit 0 (string_of bs @ [0]) (etx_value s)) = string_of bs"
proof -
  have "string_of (bs @ [0]) = string_of bs"
    by (simp add: string_of_append string_of_whole string_of_def [of "[0]"])
  then have "c_string (bs @ [0]) = Ret (string_of bs)" by (simp add: c_string_def string_of_def)
  then show "strcpy (etx_value s) (bs @ [0]) = Ret (blit 0 (string_of bs @ [0]) (etx_value s))"
    using assms terminated_facts(1) [OF assms(1)] by (simp add: strcpy_def)
  show "string_of (blit 0 (string_of bs @ [0]) (etx_value s)) = string_of bs"
    using string_nonzero [of bs] by (simp add: blit_def string_of_append string_of_whole string_of_def [of "0 # _"])
qed

lemma channel_fields [simp]:
  "content (channel_of s) = string_of (etx_value s)" "readable (channel_of s) = can_read s"
  "writable (channel_of s) = can_write s"
  by (simp_all add: channel_of_def)

interpretation poll_channel: implements poll_op channel_spec channel_of terminated documented_copy
proof
  fix s c r a'
  assume s: "terminated s" and c: "documented_copy c" and spec: "channel_spec (channel_of s) c = Some (r, a')"
  note facts = terminated_facts [OF s]
  show "\<exists>s'. poll_op s c = Ret (r, s') \<and> channel_of s' = a' \<and> terminated s'"
  proof (cases c)
    case (Dev d)
    show ?thesis
    proof (cases d)
      case (D_write bs left)
      have w: "length bs \<le> 20" "left \<le> length bs"
          "0 \<in> set (put left bs) \<or> length bs \<le> length (string_of (etx_value s))"
        using c spec by (auto simp: Dev D_write split: if_splits)
      show ?thesis
        using spec written_value [OF s w(2,1,3)] write_effect [OF s w(2,1)] w facts(1)
        by (auto simp: Dev D_write channel_of_def terminated_def c_string_terminated split: if_splits)
    next
      case D_poll
      then show ?thesis
        using spec s by (auto simp: Dev channel_of_def terminated_def etx_poll_def grants_def Let_def)
    qed (use spec s facts in \<open>auto simp: Dev etx_open_def etx_release_def etx_read_into channel_of_def Let_def\<close>)
  next
    case (Attr d)
    show ?thesis
    proof (cases d)
      case A_show
      then show ?thesis
        using spec s facts by (auto simp: Attr sysfs_show_def channel_of_def terminated_def Let_def)
    next
      case (A_store bs)
      then have short: "length (string_of bs) < 20"
        using spec by (auto simp: Attr split: if_splits)
      show ?thesis
        using spec stored_value [OF s short] short facts(1)
        by (auto simp: Attr A_store sysfs_store_def channel_of_def terminated_def blit_def)
    qed
  qed
qed

text \<open>Where the channel is silent the driver leaves its array or shows leftovers.\<close>

lemma silent_write:
  assumes "terminated s" "left \<le> length bs" "channel_spec (channel_of s) (Dev (D_write bs left)) = None"
  shows "poll_op s (Dev (D_write bs left)) = Fault Out_of_bounds \<or>
    left = 0 \<and> length (string_of (etx_value s)) < length bs \<and>
    (\<exists>s'. poll_op s (Dev (D_write bs left)) = Ret (Code (int (length bs)), s') \<and>
       content (channel_of s') = bs @ string_of (drop (length bs) (etx_value s)))"
proof (cases "20 < length bs")
  case True
  then show ?thesis using terminated_facts(1) [OF assms(1)] by (simp add: etx_write_def)
next
  case False
  with assms(3) have w: "0 \<notin> set (put left bs)" "length (string_of (etx_value s)) < length bs" "length bs \<le> 20"
    by (auto split: if_splits)
  from put_whole [OF w(1)] have whole: "left = 0" "put left bs = bs" by auto
  have blitted: "string_of (blit 0 bs (etx_value s)) = bs @ string_of (drop (length bs) (etx_value s))"
    using string_of_blit w(1) whole(2) by simp
  show ?thesis
    using write_effect [OF assms(1,2) w(3)] whole w(2) blitted
    by (cases "0 \<in> set (blit 0 bs (etx_value s))") (simp_all add: c_string_terminated c_string_def)
qed

lemma silent_store:
  assumes "terminated s" "channel_spec (channel_of s) (Attr (A_store bs)) = None"
  shows "poll_op s (Attr (A_store bs)) = Fault Out_of_bounds"
proof -
  have "\<not> length (string_of bs) < 20" using assms(2) by (auto split: if_splits)
  moreover have "c_string (bs @ [0]) = Ret (string_of bs)"
    by (simp add: c_string_terminated string_of_append string_of_whole string_of_def [of "[0]"])
  ultimately show ?thesis
    using terminated_facts(1) [OF assms(1)] by (simp add: sysfs_store_def strcpy_def)
qed

lemma channel_silent:
  assumes "terminated s" "documented_copy call" "channel_spec (channel_of s) call = None"
  shows "poll_op s call = Fault Out_of_bounds \<or>
    (\<exists>bs s'. call = Dev (D_write bs 0) \<and> length (content (channel_of s)) < length bs \<and>
       poll_op s call = Ret (Code (int (length bs)), s') \<and>
       content (channel_of s') = bs @ string_of (drop (length bs) (etx_value s)))"
proof (cases call)
  case (Dev d)
  show ?thesis
  proof (cases d)
    case (D_write bs left)
    have "left \<le> length bs" using assms(2) by (simp add: Dev D_write)
    from silent_write [OF assms(1) this] assms(3) show ?thesis by (auto simp: Dev D_write)
  qed (use assms(3) in \<open>simp_all add: Dev\<close>)
next
  case (Attr d)
  show ?thesis
  proof (cases d)
    case (A_store bs)
    from silent_store [OF assms(1), of bs] assms(3) show ?thesis by (simp add: Attr A_store)
  qed (use assms(3) in \<open>simp_all add: Attr Let_def\<close>)
qed

section \<open>Properties\<close>

text \<open>
  C32: The poll driver is a text with two permits. However many processes use its device file and
  its sysfs file and whatever they call in whatever order, failing copies in both directions
  included, every answer is the one of the channel as long as the channel promises one: a store
  replaces the text and makes it readable, a show makes it writable, a poll reports both and takes
  them back, a write goes over the text, and a read reports the length of the whole text, also when
  the caller's memory took only the front of it. At the first call for which the channel promises nothing, the driver either leaves its
  20-byte array or, when a write is longer than the text, appends leftovers of earlier texts.
\<close>

theorem poll_refines_channel:
  assumes "terminated s" "list_all documented_copy cs" "spec_session channel_spec (channel_of s) cs = Some (rs, c)"
  shows "\<exists>s'. session poll_op s cs = Ret (rs, s') \<and> channel_of s' = c \<and>
    (\<forall>call. documented_copy call \<and> channel_spec c call = None \<longrightarrow>
       poll_op s' call = Fault Out_of_bounds \<or>
       (\<exists>bs s''. call = Dev (D_write bs 0) \<and> length (content c) < length bs \<and>
          poll_op s' call = Ret (Code (int (length bs)), s'') \<and>
          content (channel_of s'') = bs @ string_of (drop (length bs) (etx_value s'))))"
proof -
  from poll_channel.session_simulates [OF assms] obtain s' where
    s': "session poll_op s cs = Ret (rs, s')" "channel_of s' = c" "terminated s'" by blast
  then show ?thesis using channel_silent [OF s'(3)] by blast
qed

lemma poll_refines_channel_witness:
  "\<exists>s'. session poll_op poll_initial [Dev D_poll, Attr (A_store [72, 101, 108, 108, 111]), Dev (D_write [72, 97] 0),
      Attr A_show, Dev (D_read 1 3), Dev D_poll, Dev (D_write [79, 107, 33] 1), Dev (D_read 20 20)] =
    Ret ([Mask 0, Code 5, Code 2, Data 12 [68, 97, 116, 97, 58, 32, 72, 97, 108, 108, 111, 10],
      Data 5 [72, 97, 108], Mask 0x145, Code 3, Data 2 [79, 107]], s') \<and>
    poll_op s' (Attr (A_store (replicate 20 65))) = Fault Out_of_bounds"
proof -
  let ?cs = "[Dev D_poll, Attr (A_store [72, 101, 108, 108, 111]), Dev (D_write [72, 97] 0),
      Attr A_show, Dev (D_read 1 3), Dev D_poll, Dev (D_write [79, 107, 33] 1), Dev (D_read 20 20)]"
  let ?rs = "[Mask 0, Code 5, Code 2, Data 12 [68, 97, 116, 97, 58, 32, 72, 97, 108, 108, 111, 10],
      Data 5 [72, 97, 108], Mask 0x145, Code 3, Data 2 [79, 107]]"
  let ?c = "\<lparr>content = [79, 107], readable = False, writable = False\<rparr>"
  have "spec_session channel_spec (channel_of poll_initial) ?cs = Some (?rs, ?c)"
    by (simp add: channel_of_def poll_initial_def string_of_def put_def grants_def poll_masks Let_def)
  moreover have "terminated poll_initial" by (simp add: terminated_def poll_initial_def)
  ultimately obtain s' where s': "session poll_op poll_initial ?cs = Ret (?rs, s')" and
      silent: "\<forall>call. documented_copy call \<and> channel_spec ?c call = None \<longrightarrow>
        poll_op s' call = Fault Out_of_bounds \<or>
        (\<exists>bs s''. call = Dev (D_write bs 0) \<and> length (content ?c) < length bs \<and>
          poll_op s' call = Ret (Code (int (length bs)), s'') \<and>
          content (channel_of s'') = bs @ string_of (drop (length bs) (etx_value s')))"
    using poll_refines_channel [of poll_initial ?cs ?rs ?c] by auto
  have "channel_spec ?c (Attr (A_store (replicate 20 65))) = None"
    by (simp add: string_of_whole)
  then have "poll_op s' (Attr (A_store (replicate 20 65))) = Fault Out_of_bounds"
    using silent [rule_format, of "Attr (A_store (replicate 20 65))"] by auto
  with s' show ?thesis by blast
qed

end
