(* ===== verification/Poll_Users.thy ===== *)
theory Poll_Users
  imports Poll_Dev
begin

text \<open>
  The poll driver of \<open>17_poll_example_prog/poll_example_prog.c\<close> with any number of processes in
  its functions at once. The driver has no lock, so the accesses to its state interleave: every
  byte of \<open>etx_value\<close> that a string function or a user copy reads or writes, and every test and
  every assignment of the two flags, is a step of its own. \<open>Poll_Dev\<close> has the same functions
  without interruption; \<open>poll_visit_alone\<close> says that they agree when nobody interferes.
  Parameters: the texts of the users and the order of the steps.
\<close>

unbundle bit_operations_syntax

section \<open>A call in steps\<close>

datatype visit =
  V_read nat  \<comment> \<open>how many bytes the caller's memory takes before the copy fails\<close>
| V_write "u8 list"  \<comment> \<open>the bytes that \<open>copy_from_user\<close> stores: zeros for those it leaves out\<close>
| V_show
| V_store "u8 list"  \<comment> \<open>the text, without its NUL\<close>
| V_poll

type_synonym visit_answer = "int \<times> u8 list"

text \<open>
  \<open>Logging\<close>: \<open>pr_info\<close> prints the value; \<open>Measuring\<close>: \<open>strlen\<close>; \<open>Delivering\<close>: \<open>copy_to_user\<close>;
  \<open>Taking\<close>: \<open>copy_from_user\<close>; \<open>Formatting\<close>: \<open>sprintf\<close>; \<open>Storing\<close>: \<open>strcpy\<close>.
\<close>

datatype poll_phase =
  Outside
| Logging visit nat
| Measuring nat nat
| Delivering nat nat nat "u8 list"
| Taking "u8 list" nat
| Granting
| Formatting nat "u8 list"
| Storing "u8 list" nat
| Stored "u8 list"
| Testing_read
| Clearing_read
| Testing_write u32
| Clearing_write u32
| Finished visit visit_answer

fun begins :: "visit \<Rightarrow> poll_phase" where
  "begins (V_read room) = Logging (V_read room) 0"
| "begins (V_write bs) = Taking bs 0"
| "begins V_show = Granting"
| "begins (V_store t) = Storing t 0"
| "begins V_poll = Testing_read"

definition value_byte :: "nat \<Rightarrow> poll_state \<Rightarrow> u8 outcome" where
  "value_byte i s = (if i < length (etx_value s) then Ret (etx_value s ! i) else Fault Out_of_bounds)"

definition set_byte :: "nat \<Rightarrow> u8 \<Rightarrow> poll_state \<Rightarrow> poll_state outcome" where
  "set_byte i b s = (if i < length (etx_value s) then Ret (s\<lparr>etx_value := (etx_value s)[i := b]\<rparr>) else Fault Out_of_bounds)"

definition shown :: "u8 list \<Rightarrow> visit_answer" where
  "shown t = (let text = [68, 97, 116, 97, 58, 32] @ t @ [10] in (int (length text), text))"

fun poll_advance :: "poll_state \<Rightarrow> poll_phase \<Rightarrow> (poll_phase \<times> poll_state) outcome" where
  "poll_advance s Outside = Blocked"
| "poll_advance s (Logging v i) = obind (value_byte i s) (\<lambda>c.
     Ret (if c \<noteq> 0 then Logging v (Suc i)
          else case v of V_write bs \<Rightarrow> Finished v (int (length bs), []) | V_read room \<Rightarrow> Measuring room 0
           | _ \<Rightarrow> Finished v (0, []), s))"
| "poll_advance s (Measuring room i) = obind (value_byte i s) (\<lambda>c.
     Ret (if c \<noteq> 0 then Measuring room (Suc i) else Delivering room i 0 [], s))"
| "poll_advance s (Delivering room n k out) =
     (if k < min room n then obind (value_byte k s) (\<lambda>c. Ret (Delivering room n (Suc k) (out @ [c]), s))
      else Ret (Finished (V_read room) (int n, out), s))"
| "poll_advance s (Taking bs k) =
     (if k < length bs then obind (set_byte k (bs ! k) s) (\<lambda>s'. Ret (Taking bs (Suc k), s'))
      else Ret (Logging (V_write bs) 0, s))"
| "poll_advance s Granting = Ret (Formatting 0 [], s\<lparr>can_write := True\<rparr>)"
| "poll_advance s (Formatting i out) = obind (value_byte i s) (\<lambda>c.
     Ret (if c \<noteq> 0 then Formatting (Suc i) (out @ [c]) else Finished V_show (shown out), s))"
| "poll_advance s (Storing t k) = obind (set_byte k ((t @ [0]) ! k) s) (\<lambda>s'.
     Ret (if k < length t then Storing t (Suc k) else Stored t, s'))"
| "poll_advance s (Stored t) = Ret (Finished (V_store t) (int (length t), []), s\<lparr>can_read := True\<rparr>)"
| "poll_advance s Testing_read = Ret (if can_read s then Clearing_read else Testing_write 0, s)"
| "poll_advance s Clearing_read = Ret (Testing_write (0 OR (POLLIN OR POLLRDNORM)), s\<lparr>can_read := False\<rparr>)"
| "poll_advance s (Testing_write m) =
     Ret (if can_write s then Clearing_write m else Finished V_poll (uint m, []), s)"
| "poll_advance s (Clearing_write m) =
     Ret (Finished V_poll (uint (m OR (POLLOUT OR POLLWRNORM)), []), s\<lparr>can_write := False\<rparr>)"
| "poll_advance s (Finished v ans) = Blocked"

section \<open>Alone\<close>

inductive alone :: "poll_phase \<times> poll_state \<Rightarrow> poll_phase \<times> poll_state \<Rightarrow> bool" where
  "poll_advance s ph = Ret (ph', s') \<Longrightarrow> alone (ph, s) (ph', s')"

lemma alone_step:
  "poll_advance s ph = Ret (ph', s') \<Longrightarrow> alone\<^sup>*\<^sup>* (ph', s') z \<Longrightarrow> alone\<^sup>*\<^sup>* (ph, s) z"
  by (blast intro: alone.intros converse_rtranclp_into_rtranclp)

lemma alone_one: "poll_advance s ph = Ret (ph', s') \<Longrightarrow> alone\<^sup>*\<^sup>* (ph, s) (ph', s')"
  by (blast intro: alone.intros)

text \<open>A phase that walks over a string.\<close>

lemma walk:
  assumes "closed (etx_value s)"
    and go: "\<And>i out. i < m \<Longrightarrow> poll_advance s (ph i out) = Ret (ph (Suc i) (out @ [etx_value s ! i]), s)"
    and m: "m \<le> length (string_of (etx_value s))" and "i \<le> m"
  shows "alone\<^sup>*\<^sup>* (ph i (take i (string_of (etx_value s))), s) (ph m (take m (string_of (etx_value s))), s)"
  using assms(4)
proof (induction "m - i" arbitrary: i)
  case 0
  then show ?case by simp
next
  case (Suc d)
  then have i: "i < m" by simp
  with m have "take (Suc i) (string_of (etx_value s)) = take i (string_of (etx_value s)) @ [etx_value s ! i]"
    by (simp add: take_Suc_conv_app_nth) (simp add: string_of_def takeWhile_nth)
  with Suc(1) [of "Suc i"] Suc(2) i go [OF i] show ?case by (auto intro: alone_step)
qed

lemma closed_bytes:
  assumes "closed a"
  shows "length a = 20" "i < length (string_of a) \<Longrightarrow> a ! i \<noteq> 0 \<and> i < 20"
    "a ! length (string_of a) = 0" "length (string_of a) < 20"
proof -
  show len: "length a = 20" using assms by (simp add: closed_def)
  have short: "length (string_of a) \<le> 19" using closed_string(2) [OF assms] .
  then show "length (string_of a) < 20" by simp
  show "a ! i \<noteq> 0 \<and> i < 20" if "i < length (string_of a)"
  proof -
    have "string_of a ! i \<in> set (string_of a)" using that by (rule nth_mem)
    moreover have "string_of a ! i = a ! i" using that by (simp add: string_of_def takeWhile_nth)
    ultimately show ?thesis using that short string_nonzero [of a] by fastforce
  qed
  have "length (takeWhile (\<lambda>c. c \<noteq> 0) a) < length a" using short len by (simp add: string_of_def)
  then show "a ! length (string_of a) = 0"
    unfolding string_of_def using nth_length_takeWhile by fastforce
qed

lemma take_min: "take (min n (length xs)) xs = take n xs"
  by (simp add: min_def)

lemma walk_all:
  assumes "closed (etx_value s)"
  shows "alone\<^sup>*\<^sup>* (Logging v 0, s) (Logging v (length (string_of (etx_value s))), s)"
    "alone\<^sup>*\<^sup>* (Measuring room 0, s) (Measuring room (length (string_of (etx_value s))), s)"
    "alone\<^sup>*\<^sup>* (Formatting 0 [], s) (Formatting (length (string_of (etx_value s))) (string_of (etx_value s)), s)"
    "alone\<^sup>*\<^sup>* (Delivering room (length (string_of (etx_value s))) 0 [], s)
      (Delivering room (length (string_of (etx_value s))) (min room (length (string_of (etx_value s))))
        (take room (string_of (etx_value s))), s)"
  using walk [OF assms, of "length (string_of (etx_value s))" "\<lambda>i out. Logging v i" 0]
    walk [OF assms, of "length (string_of (etx_value s))" "\<lambda>i out. Measuring room i" 0]
    walk [OF assms, of "length (string_of (etx_value s))" Formatting 0]
    walk [OF assms, of "min room (length (string_of (etx_value s)))" "Delivering room (length (string_of (etx_value s)))" 0]
    closed_bytes [OF assms]
  by (simp_all add: value_byte_def take_min)

text \<open>A phase that fills the array.\<close>

lemma fill_walk:
  assumes "\<And>k s. k < length xs \<Longrightarrow> length (etx_value s) = 20 \<Longrightarrow>
      poll_advance s (ph k) = Ret (ph (Suc k), s\<lparr>etx_value := (etx_value s)[k := xs ! k]\<rparr>)"
    and "k \<le> length xs" "length (etx_value s) = 20" "length xs \<le> 20"
  shows "alone\<^sup>*\<^sup>* (ph k, s\<lparr>etx_value := blit 0 (take k xs) (etx_value s)\<rparr>)
    (ph (length xs), s\<lparr>etx_value := blit 0 xs (etx_value s)\<rparr>)"
  using assms(2)
proof (induction "length xs - k" arbitrary: k)
  case 0
  then show ?case by simp
next
  case (Suc d)
  then have k: "k < length xs" by simp
  have "(blit 0 (take k xs) (etx_value s))[k := xs ! k] = blit 0 (take (Suc k) xs) (etx_value s)"
    using k assms(3,4) by (intro nth_equalityI) (auto simp: nth_blit nth_list_update less_Suc_eq)
  moreover have "length (blit 0 (take k xs) (etx_value s)) = 20" using k assms(3,4) by simp
  ultimately show ?case
    using assms(1) [OF k, of "s\<lparr>etx_value := blit 0 (take k xs) (etx_value s)\<rparr>"] Suc(1) [of "Suc k"] Suc(2) k
    by (auto intro: alone_step)
qed

fun visit_atomic :: "visit \<Rightarrow> poll_state \<Rightarrow> (visit_answer \<times> poll_state) outcome" where
  "visit_atomic (V_read room) s = obind (etx_read (copy_into room) (int room) s) (\<lambda>ans. Ret (ans, s))"
| "visit_atomic (V_write bs) s = obind (etx_write bs (\<lambda>_. 0) (int (length bs)) s) (\<lambda>(r, s1). Ret ((r, []), s1))"
| "visit_atomic V_show s = obind (sysfs_show s) (\<lambda>(r, t, s1). Ret ((r, t), s1))"
| "visit_atomic (V_store t) s = obind (sysfs_store (t @ [0]) (int (length t)) s) (\<lambda>(r, s1). Ret ((r, []), s1))"
| "visit_atomic V_poll s = (let (m, s1) = etx_poll s in Ret ((uint m, []), s1))"

fun bounded_visit :: "visit \<Rightarrow> bool" where
  "bounded_visit (V_write bs) \<longleftrightarrow> length bs < 20"
| "bounded_visit (V_store t) \<longleftrightarrow> length t < 20 \<and> 0 \<notin> set t"
| "bounded_visit _ \<longleftrightarrow> True"

lemma alone_read:
  assumes "closed (etx_value s)"
  shows "alone\<^sup>*\<^sup>* (begins (V_read room), s)
    (Finished (V_read room) (int (length (string_of (etx_value s))), take room (string_of (etx_value s))), s)"
proof -
  let ?t = "string_of (etx_value s)"
  let ?n = "length ?t"
  note b = closed_bytes [OF assms]
  have "alone\<^sup>*\<^sup>* (begins (V_read room), s) (Logging (V_read room) ?n, s)" using walk_all(1) [OF assms] by simp
  also have "alone\<^sup>*\<^sup>* (Logging (V_read room) ?n, s) (Measuring room 0, s)"
    using b by (intro alone_one) (simp add: value_byte_def)
  also have "alone\<^sup>*\<^sup>* (Measuring room 0, s) (Measuring room ?n, s)" using walk_all(2) [OF assms] .
  also have "alone\<^sup>*\<^sup>* (Measuring room ?n, s) (Delivering room ?n 0 [], s)"
    using b by (intro alone_one) (simp add: value_byte_def)
  also have "alone\<^sup>*\<^sup>* (Delivering room ?n 0 [], s) (Delivering room ?n (min room ?n) (take room ?t), s)"
    using walk_all(4) [OF assms] .
  also have "alone\<^sup>*\<^sup>* (Delivering room ?n (min room ?n) (take room ?t), s)
      (Finished (V_read room) (int ?n, take room ?t), s)"
    by (intro alone_one) simp
  finally show ?thesis .
qed

lemma alone_show:
  assumes "closed (etx_value s)"
  shows "alone\<^sup>*\<^sup>* (begins V_show, s) (Finished V_show (shown (string_of (etx_value s))), s\<lparr>can_write := True\<rparr>)"
proof -
  let ?s = "s\<lparr>can_write := True\<rparr>" and ?t = "string_of (etx_value s)"
  have c: "closed (etx_value ?s)" using assms by simp
  have "alone\<^sup>*\<^sup>* (begins V_show, s) (Formatting 0 [], ?s)" by (intro alone_one) simp
  also have "alone\<^sup>*\<^sup>* (Formatting 0 [], ?s) (Formatting (length ?t) ?t, ?s)"
    using walk_all(3) [OF c] by simp
  also have "alone\<^sup>*\<^sup>* (Formatting (length ?t) ?t, ?s) (Finished V_show (shown ?t), ?s)"
    using closed_bytes [OF assms] by (intro alone_one) (simp add: value_byte_def)
  finally show ?thesis .
qed

lemma alone_write:
  assumes "closed (etx_value s)" "length bs < 20"
  shows "alone\<^sup>*\<^sup>* (begins (V_write bs), s)
    (Finished (V_write bs) (int (length bs), []), s\<lparr>etx_value := blit 0 bs (etx_value s)\<rparr>)"
proof -
  let ?s = "s\<lparr>etx_value := blit 0 bs (etx_value s)\<rparr>"
  have c: "closed (etx_value ?s)" using closed_blit [OF assms(1)] assms(2) by simp
  have "alone\<^sup>*\<^sup>* (begins (V_write bs), s) (Taking bs (length bs), ?s)"
    using fill_walk [of bs "Taking bs" 0 s] assms by (simp add: set_byte_def closed_def blit_def)
  also have "alone\<^sup>*\<^sup>* (Taking bs (length bs), ?s) (Logging (V_write bs) 0, ?s)" by (intro alone_one) simp
  also have "alone\<^sup>*\<^sup>* (Logging (V_write bs) 0, ?s) (Logging (V_write bs) (length (string_of (etx_value ?s))), ?s)"
    using walk_all(1) [OF c] .
  also have "alone\<^sup>*\<^sup>* (Logging (V_write bs) (length (string_of (etx_value ?s))), ?s)
      (Finished (V_write bs) (int (length bs), []), ?s)"
    using closed_bytes [OF c] by (intro alone_one) (simp add: value_byte_def)
  finally show ?thesis .
qed

lemma alone_store:
  assumes "closed (etx_value s)" "length t < 20"
  shows "alone\<^sup>*\<^sup>* (begins (V_store t), s)
    (Finished (V_store t) (int (length t), []), s\<lparr>etx_value := blit 0 (t @ [0]) (etx_value s), can_read := True\<rparr>)"
proof -
  let ?ph = "\<lambda>k. if k \<le> length t then Storing t k else Stored t"
  have "alone\<^sup>*\<^sup>* (?ph 0, s\<lparr>etx_value := blit 0 (take 0 (t @ [0])) (etx_value s)\<rparr>)
      (?ph (length (t @ [0])), s\<lparr>etx_value := blit 0 (t @ [0]) (etx_value s)\<rparr>)"
    by (rule fill_walk) (use assms in \<open>auto simp: set_byte_def closed_def Suc_le_eq\<close>)
  then have "alone\<^sup>*\<^sup>* (begins (V_store t), s) (Stored t, s\<lparr>etx_value := blit 0 (t @ [0]) (etx_value s)\<rparr>)"
    by (simp add: blit_def)
  also have "alone\<^sup>*\<^sup>* (Stored t, s\<lparr>etx_value := blit 0 (t @ [0]) (etx_value s)\<rparr>)
      (Finished (V_store t) (int (length t), []), s\<lparr>etx_value := blit 0 (t @ [0]) (etx_value s), can_read := True\<rparr>)"
    by (intro alone_one) simp
  finally show ?thesis .
qed

lemma alone_poll:
  "alone\<^sup>*\<^sup>* (begins V_poll, s) (Finished V_poll (uint (fst (etx_poll s)), []), snd (etx_poll s))"
proof -
  let ?m = "if can_read s then 0 OR (POLLIN OR POLLRDNORM) else 0"
  let ?s = "if can_read s then s\<lparr>can_read := False\<rparr> else s"
  have "alone\<^sup>*\<^sup>* (Testing_read, s) (Testing_write ?m, ?s)"
  proof (cases "can_read s")
    case True
    then have "alone\<^sup>*\<^sup>* (Testing_read, s) (Clearing_read, s)" by (intro alone_one) simp
    also have "alone\<^sup>*\<^sup>* (Clearing_read, s) (Testing_write ?m, ?s)" using True by (intro alone_one) simp
    finally show ?thesis .
  qed (intro alone_one, simp)
  moreover have "alone\<^sup>*\<^sup>* (Testing_write m, u) (Finished V_poll (uint (if can_write u then m OR (POLLOUT OR POLLWRNORM) else m), []),
      if can_write u then u\<lparr>can_write := False\<rparr> else u)" for m u
  proof (cases "can_write u")
    case True
    then have "alone\<^sup>*\<^sup>* (Testing_write m, u) (Clearing_write m, u)" by (intro alone_one) simp
    also have "alone\<^sup>*\<^sup>* (Clearing_write m, u) (Finished V_poll (uint (m OR (POLLOUT OR POLLWRNORM)), []), u\<lparr>can_write := False\<rparr>)"
      by (intro alone_one) simp
    finally show ?thesis using True by simp
  qed (intro alone_one, simp)
  from calculation this [of ?m ?s] have "alone\<^sup>*\<^sup>* (Testing_read, s) (Finished V_poll
      (uint (if can_write ?s then ?m OR (POLLOUT OR POLLWRNORM) else ?m), []),
      if can_write ?s then ?s\<lparr>can_write := False\<rparr> else ?s)" by (rule rtranclp_trans)
  then show ?thesis by (simp add: etx_poll_def split: if_splits)
qed

lemma alone_unique:
  assumes "alone\<^sup>*\<^sup>* x y" "alone\<^sup>*\<^sup>* x z" "\<nexists>u. alone y u" "\<nexists>u. alone z u"
  shows "z = y"
  using assms
proof (induction rule: converse_rtranclp_induct)
  case base
  then show ?case by (metis converse_rtranclpE)
next
  case (step x x')
  from step.prems(1) step.hyps(1) step.prems(3) obtain w where w: "alone x w" "alone\<^sup>*\<^sup>* w z"
    by (metis converse_rtranclpE)
  have "w = x'" using w(1) step.hyps(1) by (auto simp: alone.simps)
  then show ?case using step.IH w(2) step.prems(2,3) by simp
qed

lemma visit_alone:
  assumes "closed (etx_value s)" "bounded_visit v"
  shows "\<exists>ans s'. visit_atomic v s = Ret (ans, s') \<and> alone\<^sup>*\<^sup>* (begins v, s) (Finished v ans, s')"
proof (cases v)
  case (V_read room)
  then show ?thesis
    using alone_read [OF assms(1)] closed_string(1) [OF assms(1)] by (simp add: etx_read_into)
next
  case (V_write bs)
  then show ?thesis
    using alone_write [OF assms(1), of bs] etx_write_ok [OF assms(1), of bs] assms(2) by simp
next
  case V_show
  then show ?thesis
    using alone_show [OF assms(1)] closed_string(1) [OF assms(1)] by (simp add: sysfs_show_def shown_def Let_def)
next
  case (V_store t)
  then show ?thesis
    using alone_store [OF assms(1), of t] closed_strcpy(1) [OF assms(1), of t "[]"] assms(2)
    by (simp add: sysfs_store_def)
next
  case V_poll
  then show ?thesis using alone_poll [of s] by (simp add: case_prod_beta Let_def)
qed

section \<open>The system\<close>

record poll_users =
  driver_state :: poll_state
  visitors :: "nat \<Rightarrow> poll_phase"
  given :: "u8 list list"  \<comment> \<open>what users have handed in so far\<close>
  poll_crash :: "fault option"

fun handed_in :: "visit \<Rightarrow> u8 list list" where
  "handed_in (V_write bs) = [bs]"
| "handed_in (V_store t) = [t]"
| "handed_in _ = []"

definition poll_loaded :: poll_users where
  "poll_loaded = \<lparr>driver_state = poll_initial, visitors = (\<lambda>i. Outside), given = [], poll_crash = None\<rparr>"

datatype poll_action = Arrive nat visit | Advance nat | Depart nat

fun poll_fire :: "poll_action \<Rightarrow> poll_users \<Rightarrow> poll_users option" where
  "poll_fire (Arrive i v) s =
     (if visitors s i = Outside
      then Some (s\<lparr>visitors := (visitors s)(i := begins v), given := given s @ handed_in v\<rparr>) else None)"
| "poll_fire (Advance i) s =
     (case poll_advance (driver_state s) (visitors s i) of
        Ret (ph, d) \<Rightarrow> Some (s\<lparr>driver_state := d, visitors := (visitors s)(i := ph)\<rparr>)
      | Fault e \<Rightarrow> Some (s\<lparr>poll_crash := Some e\<rparr>)
      | Blocked \<Rightarrow> None)"
| "poll_fire (Depart i) s =
     (case visitors s i of Finished v ans \<Rightarrow> Some (s\<lparr>visitors := (visitors s)(i := Outside)\<rparr>) | _ \<Rightarrow> None)"

fun bounded_action :: "poll_action \<Rightarrow> bool" where
  "bounded_action (Arrive i v) = bounded_visit v"
| "bounded_action _ = True"

inductive poll_users_step :: "poll_users \<Rightarrow> poll_users \<Rightarrow> bool" where
  fires: "bounded_action a \<Longrightarrow> poll_fire a s = Some s' \<Longrightarrow> poll_users_step s s'"

inductive_cases poll_users_stepE: "poll_users_step s s'"

abbreviation poll_users_reach :: "poll_users \<Rightarrow> bool" where
  "poll_users_reach \<equiv> poll_users_step\<^sup>*\<^sup>* poll_loaded"

text \<open>Every byte that is not zero stands where a text handed in has it.\<close>

definition heard :: "u8 list list \<Rightarrow> u8 list \<Rightarrow> bool" where
  "heard G xs \<longleftrightarrow> (\<forall>k<length xs. xs ! k = 0 \<or> (\<exists>t\<in>set G. k < length t \<and> t ! k = xs ! k))"

fun phase_safe :: "u8 list list \<Rightarrow> poll_phase \<Rightarrow> bool" where
  "phase_safe G (Logging v i) \<longleftrightarrow> i < 20"
| "phase_safe G (Measuring room i) \<longleftrightarrow> i < 20"
| "phase_safe G (Delivering room n k out) \<longleftrightarrow> n < 20 \<and> k \<le> min room n \<and> length out = k \<and> heard G out"
| "phase_safe G (Taking bs k) \<longleftrightarrow> bs \<in> set G \<and> length bs < 20 \<and> k \<le> length bs"
| "phase_safe G (Formatting i out) \<longleftrightarrow> i < 20 \<and> length out = i"
| "phase_safe G (Storing t k) \<longleftrightarrow> t \<in> set G \<and> length t < 20 \<and> k \<le> length t"
| "phase_safe G (Finished v ans) \<longleftrightarrow>
     (\<forall>room. v = V_read room \<longrightarrow> 0 \<le> fst ans \<and> fst ans < 20 \<and> length (snd ans) = min room (nat (fst ans)) \<and>
        heard G (snd ans)) \<and>
     (v = V_show \<longrightarrow> length (snd ans) < 27)"
| "phase_safe G _ \<longleftrightarrow> True"

fun poll_rank :: "poll_phase \<Rightarrow> nat" where
  "poll_rank Outside = 0"
| "poll_rank (Logging v i) = 62 - i"
| "poll_rank (Measuring room i) = 41 - i"
| "poll_rank (Delivering room n k out) = Suc n - k"
| "poll_rank (Taking bs k) = 83 - k"
| "poll_rank Granting = 22"
| "poll_rank (Formatting i out) = 21 - i"
| "poll_rank (Storing t k) = 22 - k"
| "poll_rank (Stored t) = 1"
| "poll_rank Testing_read = 4"
| "poll_rank Clearing_read = 3"
| "poll_rank (Testing_write m) = 2"
| "poll_rank (Clearing_write m) = 1"
| "poll_rank (Finished v ans) = 0"

definition value_safe :: "u8 list list \<Rightarrow> poll_state \<Rightarrow> bool" where
  "value_safe G s \<longleftrightarrow> closed (etx_value s) \<and> heard G (etx_value s)"

lemma heard_append: "heard G out \<Longrightarrow> heard G a \<Longrightarrow> length out < length a \<Longrightarrow> heard G (out @ [a ! length out])"
  by (auto simp: heard_def nth_append less_Suc_eq)

lemma heard_update:
  assumes "heard G a" "b = 0 \<or> (\<exists>t\<in>set G. k < length t \<and> t ! k = b)"
  shows "heard G (a[k := b])"
proof -
  have "a[k := b] ! i = 0 \<or> (\<exists>t\<in>set G. i < length t \<and> t ! i = a[k := b] ! i)" if "i < length a" for i
    using assms that by (cases "i = k") (auto simp: heard_def)
  then show ?thesis by (simp add: heard_def)
qed

lemma heard_mono: "heard G a \<Longrightarrow> heard (G @ H) a"
  by (fastforce simp: heard_def)

lemma phase_safe_mono: "phase_safe G ph \<Longrightarrow> phase_safe (G @ H) ph"
  by (cases ph) (auto intro: heard_mono)

lemma closed_at: "closed a \<Longrightarrow> i < 20 \<Longrightarrow> a ! i \<noteq> 0 \<Longrightarrow> Suc i < 20"
  by (cases "i = 19") (auto simp: closed_def)

lemma poll_advance_safe:
  assumes "value_safe G s" "phase_safe G ph" "0 < poll_rank ph"
  shows "\<exists>ph' s'. poll_advance s ph = Ret (ph', s') \<and> value_safe G s' \<and> phase_safe G ph' \<and> poll_rank ph' < poll_rank ph"
proof -
  have a: "length (etx_value s) = 20" "closed (etx_value s)" "heard G (etx_value s)"
    using assms(1) by (simp_all add: value_safe_def closed_def)
  note at = closed_at [OF a(2)]
  show ?thesis
  proof (cases ph)
    case (Delivering room n k out)
    then show ?thesis
      using assms a heard_append [OF _ a(3), of out] by (auto simp: value_byte_def)
  next
    case (Taking bs k)
    have "value_safe G (s\<lparr>etx_value := (etx_value s)[k := bs ! k]\<rparr>)" if "k < length bs"
      using that assms(2) a heard_update [OF a(3), of "bs ! k" k] by (auto simp: Taking value_safe_def closed_def)
    then show ?thesis using assms a by (auto simp: Taking set_byte_def)
  next
    case (Storing t k)
    have "value_safe G (s\<lparr>etx_value := (etx_value s)[k := (t @ [0]) ! k]\<rparr>)"
    proof -
      have k: "t \<in> set G" "k \<le> length t" "length t < 20" using assms(2) by (simp_all add: Storing)
      then have "(t @ [0]) ! k = 0 \<or> (\<exists>u\<in>set G. k < length u \<and> u ! k = (t @ [0]) ! k)"
        by (auto simp: nth_append)
      from heard_update [OF a(3) this] show ?thesis
        using a k by (auto simp: value_safe_def closed_def nth_append nth_list_update)
    qed
    then show ?thesis using assms a by (auto simp: Storing set_byte_def)
  qed (use assms a at in \<open>auto simp: value_byte_def value_safe_def heard_def shown_def Let_def split: visit.splits\<close>)
qed

definition poll_users_ok :: "poll_users \<Rightarrow> bool" where
  "poll_users_ok s \<longleftrightarrow> poll_crash s = None \<and> value_safe (given s) (driver_state s) \<and>
     (\<forall>i. phase_safe (given s) (visitors s i))"

lemma begins_safe: "bounded_visit v \<Longrightarrow> phase_safe (G @ handed_in v) (begins v)"
  by (cases v) auto

lemma safe_rank: "phase_safe G ph \<Longrightarrow> poll_rank ph = 0 \<longleftrightarrow> ph = Outside \<or> (\<exists>v ans. ph = Finished v ans)"
  by (cases ph) auto

lemma poll_users_ok_step:
  assumes "poll_users_ok s" "poll_users_step s s'"
  shows "poll_users_ok s'"
proof -
  obtain a where a: "bounded_action a" "poll_fire a s = Some s'" using assms(2) by (auto elim: poll_users_stepE)
  show ?thesis
  proof (cases a)
    case (Arrive i v)
    then show ?thesis
      using a assms(1) begins_safe [of v "given s"] phase_safe_mono heard_mono
      by (auto simp: poll_users_ok_def value_safe_def split: if_splits)
  next
    case (Advance i)
    have ph: "phase_safe (given s) (visitors s i)" "value_safe (given s) (driver_state s)"
      using assms(1) by (simp_all add: poll_users_ok_def)
    have "0 < poll_rank (visitors s i)"
      using safe_rank [OF ph(1)] a(2) by (auto simp: Advance)
    from poll_advance_safe [OF ph(2,1) this] show ?thesis
      using a(2) assms(1) by (auto simp: Advance poll_users_ok_def)
  next
    case (Depart i)
    then show ?thesis using a(2) assms(1) by (auto simp: poll_users_ok_def split: poll_phase.splits)
  qed
qed

lemma poll_users_ok_reach: "poll_users_reach s \<Longrightarrow> poll_users_ok s"
proof (induction rule: rtranclp_induct)
  case base
  then show ?case
    by (simp add: poll_users_ok_def poll_loaded_def value_safe_def poll_initial_def closed_def heard_def)
qed (rule poll_users_ok_step)

fun poll_actor :: "poll_action \<Rightarrow> nat" where
  "poll_actor (Arrive i v) = i"
| "poll_actor (Advance i) = i"
| "poll_actor (Depart i) = i"

lemma poll_others_stay: "poll_fire a s = Some s' \<Longrightarrow> poll_actor a \<noteq> i \<Longrightarrow> visitors s' i = visitors s i"
  by (cases a) (auto split: if_splits outcome.splits poll_phase.splits)

fun poll_fires :: "poll_action list \<Rightarrow> poll_users \<Rightarrow> poll_users option" where
  "poll_fires [] s = Some s"
| "poll_fires (a # as) s = (case poll_fire a s of None \<Rightarrow> None | Some s' \<Rightarrow> poll_fires as s')"

lemma poll_fires_reach:
  "poll_fires as s = Some s' \<Longrightarrow> list_all bounded_action as \<Longrightarrow> poll_users_step\<^sup>*\<^sup>* s s'"
proof (induction as arbitrary: s)
  case (Cons a as)
  then obtain t where t: "poll_fire a s = Some t" "poll_fires as t = Some s'" by (auto split: option.splits)
  with Cons.prems(2) have "poll_users_step s t" by (auto intro: poll_users_step.fires)
  with Cons.IH [OF t(2)] Cons.prems(2) show ?case by (auto intro: converse_rtranclp_into_rtranclp)
qed simp

section \<open>Properties\<close>

text \<open>
  Taken apart into the single accesses to the shared value and the flags, every function of the
  poll driver does, when nobody interferes, exactly what the uninterrupted function does: it ends,
  in one way only, with its answer and its state.
\<close>

theorem poll_visit_alone:
  assumes "closed (etx_value s)" "bounded_visit v"
  shows "\<exists>ans s'. visit_atomic v s = Ret (ans, s') \<and> alone\<^sup>*\<^sup>* (begins v, s) (Finished v ans, s') \<and>
    (\<forall>z. alone\<^sup>*\<^sup>* (begins v, s) z \<and> (\<nexists>u. alone z u) \<longrightarrow> z = (Finished v ans, s'))"
proof -
  from visit_alone [OF assms] obtain ans s' where
    v: "visit_atomic v s = Ret (ans, s')" "alone\<^sup>*\<^sup>* (begins v, s) (Finished v ans, s')" by blast
  have "\<nexists>u. alone (Finished v ans, s') u" by (auto simp: alone.simps)
  then show ?thesis using v alone_unique [OF v(2)] by blast
qed

lemma poll_visit_alone_witness:
  "\<exists>s'. visit_atomic (V_store [72, 105]) poll_initial = Ret ((2, []), s') \<and> can_read s' \<and>
     alone\<^sup>*\<^sup>* (Storing [72, 105] 0, poll_initial) (Finished (V_store [72, 105]) (2, []), s')"
proof -
  have "closed (etx_value poll_initial)" by (simp add: closed_def poll_initial_def)
  from poll_visit_alone [OF this, of "V_store [72, 105]"] show ?thesis
    by (auto simp: sysfs_store_def obind_Ret_iff)
qed

text \<open>
  C27: However many processes are in the poll driver at once and however their accesses interleave,
  as long as the texts stored and the bytes written are shorter than the value: nobody ever reads
  or writes outside it, every call ends after at most 83 steps of its own whatever the others
  do, and a read reports at most 19 bytes and delivers exactly as many of them as the caller's
  memory takes. Each byte delivered is a NUL or was handed in by some user for that very place: no
  other byte can appear, though texts may be torn and a shorter text stored in between may leave its
  NUL in the middle of a longer one. No locking is needed for that: the last byte of the value stays
  zero in every intermediate state.
\<close>

theorem poll_users_safe:
  assumes "poll_users_reach s"
  shows "poll_crash s = None \<and> closed (etx_value (driver_state s)) \<and> poll_rank (visitors s i) \<le> 83 \<and>
    (poll_rank (visitors s i) = 0 \<longleftrightarrow> visitors s i = Outside \<or> (\<exists>v ans. visitors s i = Finished v ans)) \<and>
    (0 < poll_rank (visitors s i) \<longrightarrow> (\<exists>s'. poll_fire (Advance i) s = Some s' \<and> poll_crash s' = None \<and>
       poll_rank (visitors s' i) < poll_rank (visitors s i))) \<and>
    (\<forall>a s'. poll_fire a s = Some s' \<and> poll_actor a \<noteq> i \<longrightarrow> visitors s' i = visitors s i) \<and>
    (\<forall>room n out. visitors s i = Finished (V_read room) (n, out) \<longrightarrow>
       0 \<le> n \<and> n < 20 \<and> length out = min room (nat n) \<and>
       (\<forall>k<length out. out ! k = 0 \<or> (\<exists>t\<in>set (given s). k < length t \<and> t ! k = out ! k)))"
proof -
  from poll_users_ok_reach [OF assms] have ok: "poll_crash s = None" "value_safe (given s) (driver_state s)"
      "phase_safe (given s) (visitors s i)"
    by (simp_all add: poll_users_ok_def)
  have "\<exists>s'. poll_fire (Advance i) s = Some s' \<and> poll_crash s' = None \<and> poll_rank (visitors s' i) < poll_rank (visitors s i)"
    if r: "0 < poll_rank (visitors s i)"
  proof -
    from poll_advance_safe [OF ok(2,3) r] obtain ph d where
      "poll_advance (driver_state s) (visitors s i) = Ret (ph, d)" "poll_rank ph < poll_rank (visitors s i)" by blast
    then show ?thesis using ok(1) by simp
  qed
  moreover have "poll_rank (visitors s i) \<le> 83" using ok(3) by (cases "visitors s i") auto
  moreover have "0 \<le> n \<and> n < 20 \<and> length out = min room (nat n) \<and>
      (\<forall>k<length out. out ! k = 0 \<or> (\<exists>t\<in>set (given s). k < length t \<and> t ! k = out ! k))"
    if "visitors s i = Finished (V_read room) (n, out)" for room n out
    using ok(3) that by (simp add: heard_def)
  ultimately show ?thesis
    using ok(1,2) safe_rank [OF ok(3)] poll_others_stay [of _ s _ i] unfolding value_safe_def by blast
qed

text \<open>Two stores at once, and a reader behind them.\<close>

definition torn_run :: "poll_action list" where
  "torn_run = [Arrive 0 (V_store [65, 65]), Arrive 1 (V_store [66, 66]), Advance 0, Advance 1, Advance 1, Advance 0,
     Advance 0, Advance 1, Advance 0, Advance 1, Arrive 2 (V_read 20),
     Advance 2, Advance 2, Advance 2, Advance 2, Advance 2, Advance 2, Advance 2, Advance 2, Advance 2]"

lemma torn_run_result:
  "\<exists>s. poll_fires torn_run poll_loaded = Some s \<and> visitors s 2 = Finished (V_read 20) (2, [66, 65]) \<and> given s = [[65, 65], [66, 66]]"
  by (simp add: torn_run_def poll_loaded_def poll_initial_def value_byte_def set_byte_def)

lemma poll_users_safe_witness:
  "\<exists>s. poll_fires torn_run poll_loaded = Some s \<and> poll_crash s = None \<and> heard [[65, 65], [66, 66]] [66, 65]"
proof -
  from torn_run_result obtain s where s: "poll_fires torn_run poll_loaded = Some s"
    "visitors s 2 = Finished (V_read 20) (2, [66, 65])" "given s = [[65, 65], [66, 66]]" by blast
  have "list_all bounded_action torn_run" by (simp add: torn_run_def list_all_iff)
  from poll_users_safe [OF poll_fires_reach [OF s(1) this], of 2] s show ?thesis by (auto simp: heard_def)
qed

text \<open>
  What the missing lock costs. A grant can be consumed twice: whenever the device is readable,
  two polls at the same time can both report it, although no order of the two calls does. And a
  text can be torn: two users store two texts at once, and a third one then reads a text nobody
  has stored.
\<close>

theorem poll_users_race:
  assumes "can_read (driver_state s)" "visitors s i = Outside" "visitors s j = Outside" "i \<noteq> j"
  shows "(\<exists>s' a b. poll_users_step\<^sup>*\<^sup>* s s' \<and> visitors s' i = Finished V_poll (a, []) \<and> visitors s' j = Finished V_poll (b, []) \<and>
      bit a 0 \<and> bit b 0) \<and>
    (\<forall>a1 s1 a2 s2. visit_atomic V_poll (driver_state s) = Ret (a1, s1) \<and> visit_atomic V_poll s1 = Ret (a2, s2) \<longrightarrow>
      \<not> bit (fst a2) 0) \<and>
    (\<exists>s'. poll_users_reach s' \<and> visitors s' 2 = Finished (V_read 20) (2, [66, 65]) \<and> given s' = [[65, 65], [66, 66]])"
proof -
  have bits: "bit (uint (0 OR (POLLIN OR POLLRDNORM))) 0" "bit (uint (0 OR (POLLIN OR POLLRDNORM) OR (POLLOUT OR POLLWRNORM))) 0"
    "\<not> bit (uint (0 :: u32)) 0" "\<not> bit (uint (0 OR (POLLOUT OR POLLWRNORM))) 0"
    by (simp_all add: poll_masks)
  let ?head = "[Arrive i V_poll, Arrive j V_poll, Advance i, Advance j, Advance i, Advance j]"
  let ?as = "if can_write (driver_state s) then ?head @ [Advance i, Advance i, Advance j] else ?head @ [Advance i, Advance j]"
  have legal: "list_all bounded_action ?as" by simp
  have run: "\<exists>s' a b. poll_fires ?as s = Some s' \<and> visitors s' i = Finished V_poll (a, []) \<and>
      visitors s' j = Finished V_poll (b, []) \<and> bit a 0 \<and> bit b 0"
    using assms bits by (cases "can_write (driver_state s)") auto
  have "\<exists>s' a b. poll_users_step\<^sup>*\<^sup>* s s' \<and> visitors s' i = Finished V_poll (a, []) \<and>
      visitors s' j = Finished V_poll (b, []) \<and> bit a 0 \<and> bit b 0"
    using run poll_fires_reach [OF _ legal] by blast
  moreover have "\<not> bit (fst a2) 0"
    if "visit_atomic V_poll (driver_state s) = Ret (a1, s1)" "visit_atomic V_poll s1 = Ret (a2, s2)" for a1 s1 a2 s2
    using that bits by (auto simp: etx_poll_def Let_def split: if_splits)
  moreover have "list_all bounded_action torn_run" by (simp add: torn_run_def list_all_iff)
  ultimately show ?thesis using torn_run_result poll_fires_reach by blast
qed

lemma poll_users_race_witness:
  "\<exists>s' a b. poll_users_step\<^sup>*\<^sup>* (poll_loaded\<lparr>driver_state := poll_initial\<lparr>can_read := True\<rparr>\<rparr>) s' \<and>
     visitors s' 0 = Finished V_poll (a, []) \<and> visitors s' 1 = Finished V_poll (b, []) \<and> bit a 0 \<and> bit b 0"
  using poll_users_race [of "poll_loaded\<lparr>driver_state := poll_initial\<lparr>can_read := True\<rparr>\<rparr>" 0 1]
  by (simp add: poll_loaded_def)

end
