(* ===== verification/Poll_Programs.thy ===== *)
theory Poll_Programs
  imports Poll_Dev
begin

text \<open>
  The two programs of \<open>17_poll_example_prog\<close> from start to end: \<open>application_poll_demo.c\<close> opens
  the device and polls it, \<open>application_epoll_demo.c\<close> opens it, makes an epoll descriptor and adds
  the device to it. Both then loop without a way out but a failing wait. State: the descriptors
  a program holds, the driver and the program's buffer. Parameters: the answers of the system
  calls of the setup and of every wait, and what other users of the device do between two waits.
  What matters in between: adding a descriptor to an epoll descriptor polls its file once, and the
  poll function of this driver takes back the permits it reports.
\<close>

section \<open>The programs\<close>

datatype descriptor = Device_fd | Epoll_fd

datatype ending =
  Exit_failure  \<comment> \<open>\<open>exit(EXIT_FAILURE)\<close>\<close>
| Aborted  \<comment> \<open>\<open>assert(0)\<close>\<close>
| Looping  \<comment> \<open>the given waits are over and the program goes on\<close>

record process =
  ending :: ending
  open_fds :: "descriptor list"
  driver :: poll_state
  buffers :: demo

text \<open>One wait: what other users did before it, and its answer.\<close>

type_synonym wait = "poll_event list \<times> int"

fun wait_loop :: "(int \<Rightarrow> poll_state \<Rightarrow> demo \<Rightarrow> (poll_state \<times> demo) option outcome) \<Rightarrow>
    descriptor list \<Rightarrow> descriptor list \<Rightarrow> wait list \<Rightarrow> poll_state \<times> demo \<Rightarrow> process outcome" where
  "wait_loop turn fds left [] (s, d) = Ret \<lparr>ending = Looping, open_fds = fds, driver = s, buffers = d\<rparr>"
| "wait_loop turn fds left ((es, ret) # ws) x =
     obind (poll_runs es x) (\<lambda>(s, d). obind (turn ret s d) (\<lambda>y. case y of
         None \<Rightarrow> Ret \<lparr>ending = Aborted, open_fds = left, driver = s, buffers = d\<rparr>
       | Some z \<Rightarrow> wait_loop turn fds left ws z))"

definition poll_main :: "int \<Rightarrow> wait list \<Rightarrow> poll_state \<times> demo \<Rightarrow> process outcome" where
  "poll_main fd ws x =
     (if fd = -1 then Ret \<lparr>ending = Exit_failure, open_fds = [], driver = fst x, buffers = snd x\<rparr>
      else wait_loop poll_turn [Device_fd] [Device_fd] ws x)"

text \<open>
  \<open>epoll_ctl\<close> with \<open>EPOLL_CTL_ADD\<close>: the kernel calls the poll function of the file when the
  descriptor is added. A call that fails may have got so far or not; \<open>polled\<close> says which.
\<close>

definition epoll_ctl :: "int \<Rightarrow> bool \<Rightarrow> poll_state \<Rightarrow> poll_state" where
  "epoll_ctl ctl polled s = (if ctl = 0 \<or> polled then snd (etx_poll s) else s)"

text \<open>
  The epoll program: a failing \<open>epoll_create\<close> leaves the device open, a failing \<open>epoll_ctl\<close> and a
  failing wait close the epoll descriptor and leave the device open. The two \<open>close\<close> calls behind
  the loop are never reached. \<open>x\<close> is the state in front of \<open>epoll_ctl\<close>.
\<close>

definition epoll_main :: "int \<Rightarrow> int \<Rightarrow> int \<Rightarrow> bool \<Rightarrow> wait list \<Rightarrow> poll_state \<times> demo \<Rightarrow> process outcome" where
  "epoll_main fd epoll_fd ctl polled ws x =
     (if fd = -1 then Ret \<lparr>ending = Exit_failure, open_fds = [], driver = fst x, buffers = snd x\<rparr>
      else let fds = [Device_fd] in
      if epoll_fd < 0 then Ret \<lparr>ending = Exit_failure, open_fds = fds, driver = fst x, buffers = snd x\<rparr>
      else let fds = Epoll_fd # fds; y = (epoll_ctl ctl polled (fst x), snd x) in
      if ctl \<noteq> 0
      then Ret \<lparr>ending = Exit_failure, open_fds = remove1 Epoll_fd fds, driver = fst y, buffers = snd y\<rparr>
      else wait_loop epoll_turn fds (remove1 Epoll_fd fds) ws y)"

section \<open>How the loops go on\<close>

lemma poll_turn_fails: "ret < 0 \<Longrightarrow> poll_turn ret s d = Ret None"
  by (simp add: poll_turn_def)

lemma poll_turn_any: "0 \<le> ret \<Longrightarrow> poll_turn ret s d = poll_turn 1 s d"
  by (simp add: poll_turn_def)

lemma poll_runs_ok: "poll_ok x \<Longrightarrow> list_all bounded es \<Longrightarrow> \<exists>y. poll_runs es x = Ret y \<and> poll_ok y"
proof (induction es arbitrary: x)
  case (Cons e es)
  have "bounded e" using Cons.prems(2) by simp
  from poll_apply_ok [OF Cons.prems(1) this] obtain y where "poll_apply e x = Ret y" "poll_ok y" by blast
  then show ?case using Cons.IH [of y] Cons.prems(2) by simp
qed simp

text \<open>The answers up to the first failing one.\<close>

definition good_waits :: "wait list \<Rightarrow> bool" where
  "good_waits ws \<longleftrightarrow> list_all (\<lambda>(es, ret). 0 \<le> ret) ws"

lemma wait_loop_ok:
  "poll_ok x \<Longrightarrow> list_all (\<lambda>(es, ret). list_all bounded es) ws \<Longrightarrow>
   \<exists>p. wait_loop poll_turn fds left ws x = Ret p \<and> poll_ok (driver p, buffers p) \<and>
     (ending p, open_fds p) = (if good_waits ws then (Looping, fds) else (Aborted, left))"
proof (induction ws arbitrary: x)
  case Nil
  then show ?case by (cases x) (simp add: good_waits_def)
next
  case (Cons w ws)
  obtain es ret where w: "w = (es, ret)" by force
  with Cons.prems poll_runs_ok [of x es] obtain s d where run: "poll_runs es x = Ret (s, d)" and ok: "poll_ok (s, d)" by auto
  show ?case
  proof (cases "ret < 0")
    case True
    then show ?thesis using run ok by (simp add: w poll_turn_fails good_waits_def)
  next
    case False
    then obtain z where "poll_turn ret s d = Ret (Some z)" "poll_ok z"
      using turns_ok(1) [OF ok] poll_turn_any [of ret s d] by auto
    then show ?thesis using run False Cons.IH [of z] Cons.prems(2) by (auto simp: w good_waits_def)
  qed
qed

lemma wait_loop_end:
  "wait_loop turn fds left ws x = Ret p \<Longrightarrow> (ending p, open_fds p) = (Looping, fds) \<or> (ending p, open_fds p) = (Aborted, left)"
proof (induction ws arbitrary: x)
  case Nil
  then show ?case by (cases x) auto
next
  case (Cons w ws)
  then show ?case by (cases w) (auto simp: obind_Ret_iff split: option.splits)
qed

lemma wait_loop_fds:
  "wait_loop turn fds left ws x = obind (wait_loop turn fds' left' ws x) (\<lambda>p.
     Ret (p\<lparr>open_fds := (if ending p = Aborted then left else fds)\<rparr>))"
proof (induction ws arbitrary: x)
  case Nil
  then show ?case by (cases x) simp
next
  case (Cons w ws)
  obtain es ret where w: "w = (es, ret)" by force
  show ?case
  proof (cases "poll_runs es x")
    case (Ret y)
    obtain s d where y: "y = (s, d)" by force
    show ?thesis
    proof (cases "turn ret s d")
      case (Ret z)
      then show ?thesis using \<open>poll_runs es x = Ret y\<close> Cons.IH by (cases z) (simp_all add: w y)
    qed (use Ret in \<open>simp_all add: w y\<close>)
  qed (simp_all add: w)
qed

lemma loops_alike:
  "wait_loop epoll_turn [Epoll_fd, Device_fd] [Device_fd] ws x =
    obind (wait_loop poll_turn [Device_fd] [Device_fd] ws x) (\<lambda>p.
      Ret (if ending p = Looping then p\<lparr>open_fds := [Epoll_fd, Device_fd]\<rparr> else p))"
proof -
  have same: "epoll_turn = poll_turn" by (simp add: fun_eq_iff turns_equal)
  note fds = wait_loop_fds [of poll_turn "[Epoll_fd, Device_fd]" "[Device_fd]" ws x "[Device_fd]" "[Device_fd]"]
  show ?thesis
  proof (cases "wait_loop poll_turn [Device_fd] [Device_fd] ws x")
    case (Ret p)
    then show ?thesis using fds wait_loop_end [OF Ret] by (auto simp: same)
  qed (use fds in \<open>simp_all add: same\<close>)
qed

text \<open>Waits that succeed while nobody else uses the device.\<close>

definition undisturbed :: "wait list \<Rightarrow> bool" where
  "undisturbed ws \<longleftrightarrow> list_all (\<lambda>(es, ret). es = [] \<and> 0 \<le> ret) ws"

lemma etx_poll_idle: "\<not> can_read s \<Longrightarrow> \<not> can_write s \<Longrightarrow> etx_poll s = (0, s)"
  by (simp add: etx_poll_def)

lemma idle_turn: "\<not> can_read s \<Longrightarrow> \<not> can_write s \<Longrightarrow> 0 \<le> ret \<Longrightarrow> poll_turn ret s d = Ret (Some (s, d))"
  by (simp add: poll_turn_def etx_poll_idle demo_ready_def poll_masks)

lemma idle_loop:
  "\<not> can_read s \<Longrightarrow> \<not> can_write s \<Longrightarrow> undisturbed ws \<Longrightarrow>
   wait_loop poll_turn fds left ws (s, d) = Ret \<lparr>ending = Looping, open_fds = fds, driver = s, buffers = d\<rparr>"
proof (induction ws)
  case (Cons w ws)
  then show ?case by (cases w) (auto simp: undisturbed_def idle_turn)
qed simp

lemma ready_turn:
  assumes "poll_ok (s, d)" "can_read s \<or> can_write s" "0 \<le> ret"
  shows "\<exists>s' d'. poll_turn ret s d = Ret (Some (s', d')) \<and> \<not> can_read s' \<and> \<not> can_write s' \<and>
    length (printed d) < length (printed d')"
proof -
  have c: "closed (etx_value s)" "closed (kernel_val d)" using assms(1) by (simp_all add: poll_ok_def)
  let ?m = "grants (can_read s) (can_write s)"
  obtain s1 where poll: "etx_poll s = (?m, s1)" using etx_poll_grants(1) [of s] by (metis prod.collapse)
  then have cs: "closed (etx_value s1)" and cleared: "\<not> can_read s1" "\<not> can_write s1"
    using c(1) etx_poll_value [of s] etx_poll_grants(2,3) [of s] by simp_all
  have bits: "?m AND POLLIN = POLLIN \<longleftrightarrow> can_read s" "?m AND POLLOUT = POLLOUT \<longleftrightarrow> can_write s"
    by (cases "can_read s"; cases "can_write s"; simp add: grants_def poll_masks)+
  obtain d1 where d1: "(if can_read s then demo_in s1 d else Ret d) = Ret d1" "closed (kernel_val d1)"
      "length (printed d1) = length (printed d) + (if can_read s then 1 else 0)"
    using demo_in_ok [OF cs c(2)] closed_blit [OF c(2) closed_string(2) [OF cs]] c(2)
    by (cases "can_read s") simp_all
  obtain s' d' where d': "(if can_write s then demo_out s1 d1 else Ret (s1, d1)) = Ret (s', d')"
      "length (printed d') = length (printed d1) + (if can_write s then 1 else 0)"
    using demo_out_ok [OF cs d1(2)] by (cases "can_write s") fastforce+
  have "\<not> can_read s'" "\<not> can_write s'"
    using d'(1) demo_out_flags [of s1 d1 s' d'] cleared by (auto split: if_splits)
  moreover have "demo_ready ?m s1 d = Ret (s', d')"
    using d1(1) d'(1) by (simp add: demo_ready_def bits)
  ultimately show ?thesis using assms(2,3) d1(3) d'(2) by (auto simp: poll_turn_def poll Let_def)
qed

section \<open>Properties\<close>

text \<open>
  C30: Once its setup has succeeded, the epoll program does in every run, with any other users of
  the device between its waits and with any answers of the waits, what the poll program would do
  after one more call of the driver's poll function: the same driver state, the same buffer, the
  same lines printed, the same end; only while it loops does it hold one descriptor more. When its
  setup fails it exits with the device still open. The call more is the one \<open>epoll_ctl\<close> makes. It
  makes no difference if neither permit is given at that moment. But a permit that is given already
  is taken back and lost: where the poll program prints at once, the epoll program prints nothing,
  however long it waits for other users to give a new one.
\<close>

theorem poll_programs_equivalent:
  assumes "fd \<noteq> -1"
  shows "epoll_main fd epoll_fd ctl polled ws x =
    (if epoll_fd < 0
     then Ret \<lparr>ending = Exit_failure, open_fds = [Device_fd], driver = fst x, buffers = snd x\<rparr>
     else if ctl \<noteq> 0
     then Ret \<lparr>ending = Exit_failure, open_fds = [Device_fd],
            driver = (if polled then snd (etx_poll (fst x)) else fst x), buffers = snd x\<rparr>
     else obind (poll_main fd ws (snd (etx_poll (fst x)), snd x)) (\<lambda>p.
       Ret (if ending p = Looping then p\<lparr>open_fds := [Epoll_fd, Device_fd]\<rparr> else p))) \<and>
    (\<not> can_read (fst x) \<and> \<not> can_write (fst x) \<longrightarrow> snd (etx_poll (fst x)) = fst x) \<and>
    (poll_ok x \<and> (can_read (fst x) \<or> can_write (fst x)) \<and> 0 \<le> epoll_fd \<and> undisturbed ws \<and> ws \<noteq> [] \<longrightarrow>
      (\<exists>p q. poll_main fd ws x = Ret p \<and> length (printed (snd x)) < length (printed (buffers p)) \<and>
         epoll_main fd epoll_fd 0 polled ws x = Ret q \<and> buffers q = snd x))"
proof -
  let ?y = "(snd (etx_poll (fst x)), snd x)"
  have "\<exists>p q. poll_main fd ws x = Ret p \<and> length (printed (snd x)) < length (printed (buffers p)) \<and>
      epoll_main fd epoll_fd 0 polled ws x = Ret q \<and> buffers q = snd x"
    if h: "poll_ok x" "can_read (fst x) \<or> can_write (fst x)" "0 \<le> epoll_fd" "undisturbed ws" "ws \<noteq> []"
  proof -
    from h(4,5) obtain ret ws' where ws: "ws = ([], ret) # ws'" "0 \<le> ret" "undisturbed ws'"
      by (cases ws) (auto simp: undisturbed_def)
    obtain s' d' where turn: "poll_turn ret (fst x) (snd x) = Ret (Some (s', d'))" "\<not> can_read s'" "\<not> can_write s'"
        "length (printed (snd x)) < length (printed d')"
      using ready_turn [of "fst x" "snd x" ret] h(1,2) ws(2) by auto
    have "wait_loop poll_turn [Device_fd] [Device_fd] ws x =
        Ret \<lparr>ending = Looping, open_fds = [Device_fd], driver = s', buffers = d'\<rparr>"
      using turn idle_loop [OF turn(2,3) ws(3)] by (cases x) (simp add: ws(1))
    moreover have "wait_loop poll_turn [Device_fd] [Device_fd] ws ?y =
        Ret \<lparr>ending = Looping, open_fds = [Device_fd], driver = snd (etx_poll (fst x)), buffers = snd x\<rparr>"
      using idle_loop [OF etx_poll_grants(2,3) h(4)] by simp
    ultimately show ?thesis
      using assms h(3) turn(4) by (simp add: poll_main_def epoll_main_def epoll_ctl_def loops_alike Let_def)
  qed
  moreover have "snd (etx_poll (fst x)) = fst x" if "\<not> can_read (fst x)" "\<not> can_write (fst x)"
    using etx_poll_idle [OF that] by simp
  ultimately show ?thesis
    using assms by (auto simp: epoll_main_def poll_main_def epoll_ctl_def loops_alike Let_def)
qed

lemma poll_programs_equivalent_witness:
  "\<exists>p q. poll_main 3 [([], 1)] (poll_initial\<lparr>can_write := True\<rparr>, \<lparr>kernel_val = replicate 20 0, printed = []\<rparr>) = Ret p \<and>
     printed (buffers p) \<noteq> [] \<and>
     epoll_main 3 4 0 False [([], 1)] (poll_initial\<lparr>can_write := True\<rparr>, \<lparr>kernel_val = replicate 20 0, printed = []\<rparr>) = Ret q \<and>
     printed (buffers q) = []"
proof -
  let ?x = "(poll_initial\<lparr>can_write := True\<rparr>, \<lparr>kernel_val = replicate 20 0, printed = []\<rparr>)"
  have "poll_ok ?x" "undisturbed [([], 1)]" by (simp_all add: poll_ok_def poll_initial_def closed_def undisturbed_def)
  then show ?thesis
    using poll_programs_equivalent [of 3 4 0 False "[([], 1)]" ?x] by fastforce
qed

text \<open>
  With other users who keep to the bounds, neither program ever leaves an array, and the only
  way out of its loop is a wait that fails: the poll program loops as long as its waits succeed
  and then aborts with the device open, and the code behind the loop of the epoll program, which
  closes both descriptors, is never reached.
\<close>

theorem poll_programs_never_finish:
  assumes "poll_reach x" "list_all (\<lambda>(es, ret). list_all bounded es) ws" "fd \<noteq> -1" "0 \<le> epoll_fd"
  shows "\<exists>p q. poll_main fd ws x = Ret p \<and> poll_ok (driver p, buffers p) \<and>
    (ending p, open_fds p) = (if good_waits ws then (Looping, [Device_fd]) else (Aborted, [Device_fd])) \<and>
    epoll_main fd epoll_fd 0 polled ws x = Ret q \<and> poll_ok (driver q, buffers q) \<and>
    (ending q, open_fds q) = (if good_waits ws then (Looping, [Epoll_fd, Device_fd]) else (Aborted, [Device_fd]))"
proof -
  have same: "epoll_turn = poll_turn" by (simp add: fun_eq_iff turns_equal)
  have ok: "poll_ok x" using poll_reach_ok [OF assms(1)] .
  then have "poll_ok (epoll_ctl 0 polled (fst x), snd x)"
    by (simp add: poll_ok_def epoll_ctl_def etx_poll_value)
  with wait_loop_ok [OF ok assms(2), of "[Device_fd]" "[Device_fd]"]
    wait_loop_ok [OF _ assms(2), of "(epoll_ctl 0 polled (fst x), snd x)" "[Epoll_fd, Device_fd]" "[Device_fd]"]
  show ?thesis using assms(3,4) by (auto simp: poll_main_def epoll_main_def same Let_def split: if_splits)
qed

lemma poll_programs_never_finish_witness:
  "\<exists>p. poll_main 3 [([Ev_show], 1), ([Ev_store [72, 105]], 1), ([], -1)]
      (poll_initial, \<lparr>kernel_val = replicate 20 0, printed = []\<rparr>) = Ret p \<and> ending p = Aborted"
proof -
  have "poll_reach (poll_initial, \<lparr>kernel_val = replicate 20 0, printed = []\<rparr>)"
    by (rule poll_reach.boot) (simp add: closed_def)
  from poll_programs_never_finish [OF this, of "[([Ev_show], 1), ([Ev_store [72, 105]], 1), ([], -1)]" 3 4]
  show ?thesis by (auto simp: good_waits_def)
qed

end
