(* ===== verification/Ioctl_Dev.thy ===== *)
theory Ioctl_Dev
  imports Kernel Refinement
begin

text \<open>
  \<open>18_ioctl_exmpale_prog\<close>: a character device that keeps one 32-bit value, set and read through
  two ioctl commands, and the program that uses it. State: the value, and the memory of the
  process behind the ioctl argument. Parameters: how many bytes the copies between user and
  kernel memory leave out, the number the user types, and the answers of the registration
  calls. The device's file operations have the same names as those of the poll driver and
  carry the suffix \<open>_v\<close> here. Any number of processes, each with its own memory, refine a register.
\<close>

unbundle bit_operations_syntax

section \<open>Commands\<close>

text \<open>
  The command encoding of the kernel's ioctl header: direction, size of the argument type,
  magic number, command number. The programs pass a pointer type, so the size is that of a
  pointer: 4 on the target.
\<close>

definition IOC :: "u32 \<Rightarrow> u32 \<Rightarrow> u32 \<Rightarrow> u32 \<Rightarrow> u32" where
  "IOC dir type nr sz = push_bit 30 dir OR push_bit 16 sz OR push_bit 8 type OR nr"

definition MAGIC_NUMBER :: u32 where "MAGIC_NUMBER = 0xBE"

definition wr_value :: "u32 \<Rightarrow> u32" where
  \<comment> \<open>\<open>_IOW(MAGIC_NUMBER, 'a', int32_t*)\<close> for a given size of a pointer\<close>
  "wr_value ptr_size = IOC 1 MAGIC_NUMBER 97 ptr_size"

definition rd_value :: "u32 \<Rightarrow> u32" where
  "rd_value ptr_size = IOC 2 MAGIC_NUMBER 98 ptr_size"

definition WR_VALUE :: u32 where "WR_VALUE = wr_value 4"
definition RD_VALUE :: u32 where "RD_VALUE = rd_value 4"

section \<open>The driver\<close>

type_synonym user_memory = "nat \<Rightarrow> u8"

record value_state =
  val :: u32  \<comment> \<open>the global \<open>value\<close>\<close>
  umem :: user_memory

definition peek :: "user_memory \<Rightarrow> nat \<Rightarrow> nat \<Rightarrow> u8 list" where
  "peek m a n = map (\<lambda>i. m (a + i)) [0..<n]"

definition poke :: "user_memory \<Rightarrow> nat \<Rightarrow> u8 list \<Rightarrow> user_memory" where
  "poke m a bs = (\<lambda>i. if a \<le> i \<and> i < a + length bs then bs ! (i - a) else m i)"

definition etx_open_v :: int where "etx_open_v = 0"
definition etx_release_v :: int where "etx_release_v = 0"

definition etx_read_v :: "int \<Rightarrow> int" where
  "etx_read_v len = 0"

definition etx_write_v :: "int \<Rightarrow> int" where
  "etx_write_v len = to_s32 len"

definition etx_ioctl :: "nat \<Rightarrow> u32 \<Rightarrow> nat \<Rightarrow> value_state \<Rightarrow> int \<times> value_state" where
  \<comment> \<open>\<open>left\<close>: the answer of the copy, if there is one\<close>
  "etx_ioctl left cmd arg s =
     (0, if cmd = WR_VALUE then s\<lparr>val := le_word (from_user (peek (umem s) arg 4) 4 left)\<rparr>
         else if cmd = RD_VALUE then s\<lparr>umem := poke (umem s) arg (take (4 - left) (le_bytes (val s)))\<rparr>
         else s)"

section \<open>Init and exit\<close>

definition etx_driver_init_v :: "chrdev_env \<Rightarrow> int \<times> kcall list" where
  "etx_driver_init_v e =
     (let t1 = [alloc_chrdev_region (alloc_ret e)] in
      if alloc_ret e < 0 then (-1, t1)
      else let t2 = t1 @ [cdev_init, cdev_add (cdev_add_ret e)] in
      if cdev_add_ret e < 0 then (-1, t2 @ [unregister_chrdev_region])
      else let t3 = t2 @ [class_create (class_ret e)] in
      if class_ret e = Null then (-1, t3 @ [unregister_chrdev_region])
      else let t4 = t3 @ [device_create (class_ret e) (device_ret e)] in
      if device_ret e = Null then (-1, t4 @ [class_destroy, unregister_chrdev_region])
      else (0, t4))"

definition etx_driver_exit_v :: "kcall list" where
  "etx_driver_exit_v = [device_destroy, class_destroy, cdev_del, unregister_chrdev_region]"

definition value_owned :: "resource list" where
  "value_owned = [Device_node, Dev_class, Cdev, Chrdev_region]"

text \<open>The module keeps its books as long as the class and the device can be made.\<close>

fun class_and_device :: "chrdev_env \<Rightarrow> bool" where
  "class_and_device e = (valid_ptr (class_ret e) \<and> valid_ptr (device_ret e))"

interpretation value_module:
  module_lifecycle class_and_device etx_driver_init_v value_owned etx_driver_exit_v
  by unfold_locales
    (auto simp: etx_driver_init_v_def etx_driver_exit_v_def value_owned_def ledger_simps Let_def split: if_splits)

section \<open>The program\<close>

text \<open>
  \<open>main\<close> of the program on an opened device: the number is at address \<open>pn\<close>, the variable it
  reads into at \<open>pv\<close>; the result is what it prints and the final state. A failed \<open>open\<close>
  prints nothing.
\<close>

definition value_main :: "u32 \<Rightarrow> int \<Rightarrow> nat \<Rightarrow> nat \<Rightarrow> nat \<Rightarrow> nat \<Rightarrow> u32 \<Rightarrow> value_state \<Rightarrow> u32 option \<times> value_state" where
  "value_main ptr_size fd left1 left2 pn pv number s =
     (if fd < 0 then (None, s)
      else let s1 = s\<lparr>umem := poke (umem s) pn (le_bytes number)\<rparr>;
               s2 = snd (etx_ioctl left1 (wr_value ptr_size) pn s1);
               s3 = snd (etx_ioctl left2 (rd_value ptr_size) pv s2) in
        (Some (le_word (peek (umem s3) pv 4)), s3))"

lemma peek_poke_same [simp]: "n = length bs \<Longrightarrow> peek (poke m a bs) a n = bs"
  by (rule nth_equalityI) (simp_all add: peek_def poke_def)

lemma peek_poke_other:
  "a + length bs \<le> b \<or> b + n \<le> a \<Longrightarrow> peek (poke m a bs) b n = peek m b n"
  by (auto simp: peek_def poke_def)

lemma length_peek [simp]: "length (peek m a n) = n"
  by (simp add: peek_def)

text \<open>The commands are those of the header on the target, and another pointer size gives other ones.\<close>

lemma command_values:
  "WR_VALUE = 0x4004BE61" "RD_VALUE = 0x8004BE62" "wr_value 8 = 0x4008BE61" "rd_value 8 = 0x8008BE62"
  by (simp_all add: WR_VALUE_def RD_VALUE_def wr_value_def rd_value_def IOC_def MAGIC_NUMBER_def push_bit_eq_mult)

section \<open>The device as a register shared by processes\<close>

text \<open>
  The file operations table, for a device opened by any number of processes: each of them has a
  memory of its own, the value is the driver's. \<open>etx_fops\<close> dispatches a system call of process
  \<open>p\<close> and answers the return value; \<open>value_op\<close> is what a process does with it: put a number
  into a variable and hand over its address, or let the driver fill a variable and look at it.
\<close>

record value_world =
  the_value :: u32
  memories :: "nat \<Rightarrow> user_memory"

datatype value_sys = V_open | V_release | V_read int | V_write int | V_ioctl nat u32 nat

fun etx_fops :: "nat \<Rightarrow> value_sys \<Rightarrow> value_world \<Rightarrow> int \<times> value_world" where
  "etx_fops p V_open w = (etx_open_v, w)"
| "etx_fops p V_release w = (etx_release_v, w)"
| "etx_fops p (V_read len) w = (etx_read_v len, w)"
| "etx_fops p (V_write len) w = (etx_write_v len, w)"
| "etx_fops p (V_ioctl left cmd arg) w =
     (let (r, s) = etx_ioctl left cmd arg \<lparr>val = the_value w, umem = memories w p\<rparr> in
      (r, \<lparr>the_value = val s, memories = (memories w)(p := umem s)\<rparr>))"

datatype register_op =
  Put nat nat u32  \<comment> \<open>process, address of its variable, number\<close>
| Get nat nat
| Unknown nat u32 nat
| Plain nat value_sys  \<comment> \<open>open, release, read and write\<close>

fun value_op :: "value_world \<Rightarrow> register_op \<Rightarrow> ((int \<times> u32 option) \<times> value_world) outcome" where
  "value_op w (Put p a n) =
     (let w1 = w\<lparr>memories := (memories w)(p := poke (memories w p) a (le_bytes n))\<rparr>;
          (r, w2) = etx_fops p (V_ioctl 0 WR_VALUE a) w1 in Ret ((r, None), w2))"
| "value_op w (Get p a) =
     (let (r, w1) = etx_fops p (V_ioctl 0 RD_VALUE a) w in Ret ((r, Some (le_word (peek (memories w1 p) a 4))), w1))"
| "value_op w (Unknown p cmd a) = (let (r, w1) = etx_fops p (V_ioctl 0 cmd a) w in Ret ((r, None), w1))"
| "value_op w (Plain p c) = (let (r, w1) = etx_fops p c w in Ret ((r, None), w1))"

text \<open>The promise: a register. Nothing is promised of the numbers the driver does not know.\<close>

fun register_spec :: "u32 \<Rightarrow> register_op \<Rightarrow> ((int \<times> u32 option) \<times> u32) option" where
  "register_spec v (Put p a n) = Some ((0, None), n)"
| "register_spec v (Get p a) = Some ((0, Some v), v)"
| "register_spec v (Unknown p cmd a) = Some ((0, None), v)"
| "register_spec v (Plain p c) = (case c of
       V_open \<Rightarrow> Some ((0, None), v)
     | V_release \<Rightarrow> Some ((0, None), v)
     | V_read len \<Rightarrow> Some ((0, None), v)
     | V_write len \<Rightarrow> Some ((len, None), v)
     | V_ioctl left cmd arg \<Rightarrow> None)"

fun plain_number :: "register_op \<Rightarrow> bool" where
  "plain_number (Unknown p cmd a) = (cmd \<noteq> WR_VALUE \<and> cmd \<noteq> RD_VALUE)"
| "plain_number (Plain p (V_write len)) = (0 \<le> len \<and> len < 2147483648)"
| "plain_number _ = True"

lemma commands_differ: "WR_VALUE \<noteq> RD_VALUE"
  unfolding command_values by simp

interpretation value_device: implements value_op register_spec the_value "\<lambda>w. True" plain_number
proof
  fix w :: value_world and c r v
  assume legal: "plain_number c" and spec: "register_spec (the_value w) c = Some (r, v)"
  show "\<exists>w'. value_op w c = Ret (r, w') \<and> the_value w' = v \<and> True"
  proof (cases c)
    case (Put p a n)
    then show ?thesis using spec by (auto simp: etx_ioctl_def Let_def)
  next
    case (Get p a)
    then show ?thesis using spec commands_differ by (auto simp: etx_ioctl_def Let_def)
  next
    case (Unknown p cmd a)
    then show ?thesis using spec legal by (auto simp: etx_ioctl_def Let_def)
  next
    case (Plain p d)
    then show ?thesis using spec legal
      by (cases d) (auto simp: etx_open_v_def etx_release_v_def etx_read_v_def etx_write_v_def to_s32_id)
  qed
qed

section \<open>Properties\<close>

text \<open>
  A number of 32 bits typed into the program comes back from the driver as it was typed,
  from any state, when both copies are complete and the two variables do not overlap. Both
  commands always answer 0: when the copy of the number fails the driver's value is replaced
  by the bytes that arrived and zeros, and a program built for 8-byte pointers sends commands
  the driver does not know, which change nothing and are answered with 0 all the same.
\<close>

theorem value_roundtrip:
  assumes "0 \<le> fd" "pn + 4 \<le> pv \<or> pv + 4 \<le> pn"
  shows "fst (value_main 4 fd 0 0 pn pv number s) = Some number \<and>
    val (snd (value_main 4 fd 0 0 pn pv number s)) = number \<and>
    fst (etx_ioctl left cmd arg s) = 0 \<and>
    val (snd (etx_ioctl 4 WR_VALUE arg s)) = 0 \<and>
    val (snd (value_main 8 fd 0 0 pn pv number s)) = val s \<and>
    fst (value_main 8 fd 0 0 pn pv number s) = Some (le_word (peek (umem s) pv 4))"
proof -
  have cmds: "WR_VALUE = wr_value 4" "RD_VALUE = rd_value 4" "wr_value 4 \<noteq> rd_value 4"
    "wr_value 8 \<notin> {WR_VALUE, RD_VALUE}" "rd_value 8 \<notin> {WR_VALUE, RD_VALUE}"
    using command_values by (auto simp: WR_VALUE_def RD_VALUE_def)
  have zeros: "le_word (from_user bs 4 4) = 0" for bs
    by (simp add: from_user_def le_word_def numeral_eq_Suc)
  show ?thesis
    using assms cmds zeros peek_poke_other [of pn "le_bytes number" pv 4 "umem s"]
    by (simp add: value_main_def etx_ioctl_def Let_def)
qed

lemma value_roundtrip_witness:
  "fst (value_main 4 3 0 0 100 200 42 \<lparr>val = 7, umem = (\<lambda>_. 0)\<rparr>) = Some 42 \<and>
   fst (value_main 8 3 0 0 100 200 42 \<lparr>val = 7, umem = (\<lambda>_. 0)\<rparr>) = Some 0"
proof -
  have "le_word (peek (\<lambda>_. 0) 200 4) = 0"
    by (simp add: peek_def le_word_def numeral_eq_Suc)
  then show ?thesis
    using value_roundtrip [of 3 100 200 42 "\<lparr>val = 7, umem = (\<lambda>_. 0)\<rparr>"] by simp
qed

text \<open>
  While class and device can be made, loading and unloading the ioctl module any number
  of times, with region and cdev registrations failing or not, leaves nothing behind. When
  class or device cannot be made (an error pointer) the module loads all the same, and its
  unload gives back what was never taken.
\<close>

theorem value_module_lifecycle:
  assumes "list_all class_and_device es" "documented_answers e" "IS_ERR (class_ret e) \<or> IS_ERR (device_ret e)"
    and "0 \<le> alloc_ret e" "0 \<le> cdev_add_ret e"
  shows "ledger [] (value_module.cycles es) = Some [] \<and>
    fst (etx_driver_init_v e) = 0 \<and> ledger [] (snd (etx_driver_init_v e) @ etx_driver_exit_v) = None"
proof -
  have "class_ret e \<noteq> Null" "device_ret e \<noteq> Null" using assms(2) by simp_all
  then have "fst (etx_driver_init_v e) = 0 \<and> ledger [] (snd (etx_driver_init_v e) @ etx_driver_exit_v) = None"
    using assms(3-5)
    by (cases "class_ret e"; cases "device_ret e")
       (auto simp: etx_driver_init_v_def etx_driver_exit_v_def ledger_simps Let_def)
  with value_module.cycles_balanced [OF assms(1)] show ?thesis by blast
qed

lemma value_module_lifecycle_witness:
  "ledger [] (value_module.cycles [\<lparr>alloc_ret = 0, class_ret = Ptr 1, cdev_add_ret = -5, device_ret = Ptr 2\<rparr>,
     \<lparr>alloc_ret = 0, class_ret = Ptr 1, cdev_add_ret = 0, device_ret = Ptr 2\<rparr>]) = Some []"
  by (rule value_module_lifecycle [THEN conjunct1,
      where e1 = "\<lparr>alloc_ret = 0, class_ret = Err_ptr ENOMEM, cdev_add_ret = 0, device_ret = Err_ptr ENODEV\<rparr>"]) simp_all

text \<open>
  C33: The device is a register of 32 bits. However many processes open it and whatever they call
  in whatever order, opens, releases, reads, writes and commands the driver does not know
  included, every process that asks for the value gets the number some process put there last, as
  long as the copies to and from the processes are complete.
\<close>

theorem value_refines_register:
  assumes "list_all plain_number cs" "spec_session register_spec (the_value w) cs = Some (rs, v)"
  shows "\<exists>w'. session value_op w cs = Ret (rs, w') \<and> the_value w' = v"
  using value_device.session_simulates [OF TrueI assms] by blast

lemma value_refines_register_witness:
  "\<exists>w'. session value_op \<lparr>the_value = 0, memories = (\<lambda>p a. 0)\<rparr>
      [Plain 1 V_open, Put 1 100 42, Plain 2 V_open, Unknown 2 0x4008BE61 200, Plain 2 (V_write 4), Get 2 300] =
    Ret ([(0, None), (0, None), (0, None), (0, None), (4, None), (0, Some 42)], w') \<and> the_value w' = 42"
proof -
  have "(0x4008BE61 :: u32) \<noteq> WR_VALUE \<and> (0x4008BE61 :: u32) \<noteq> RD_VALUE" unfolding command_values by simp
  then show ?thesis
    using value_refines_register [of "[Plain 1 V_open, Put 1 100 42, Plain 2 V_open, Unknown 2 0x4008BE61 200,
        Plain 2 (V_write 4), Get 2 300]" "\<lparr>the_value = 0, memories = (\<lambda>p a. 0)\<rparr>"] by simp
qed

end
