(* ===== verification/Platform.thy ===== *)
theory Platform
  imports Kernel
begin

text \<open>
  The platform bus examples: \<open>12_plfm_drv_by_name\<close>, \<open>13_pltfm_drv_by_device_id\<close> and
  \<open>14_pltfm_drv_by_dt\<close>. Each has a device module, which registers one device with private
  data, and a driver module, whose probe prints what it knows of the device. The state a probe
  reads is the device: its name, the entry of the id table it matched, its private data.
  Parameters: the matching of the bus (\<open>id_entry\<close>) and of the device tree (\<open>of_match\<close>).
  The second half composes the six modules: \<open>platform_step\<close> inserts and removes them on one bus
  and binds their devices and drivers, with the documented behaviour of the driver core.
\<close>

definition DEV1 :: string where "DEV1 = ''Dev001''"
definition DEV001 :: nat where "DEV001 = 0"

record platform_device =
  dev_name :: string
  id_entry :: "nat option"  \<comment> \<open>\<open>driver_data\<close> of the matched entry\<close>
  platform_data :: "int option"  \<comment> \<open>\<open>struct prv_dvc_st\<close> behind the pointer\<close>

record device_mapping =
  model_id :: string
  description :: string

definition dev_map_array :: "device_mapping list" where
  "dev_map_array = [\<lparr>model_id = ''DEV001_AEDFG'', description = ''Dev001 Device description''\<rparr>]"

definition pcdevs_ids :: "(string \<times> nat) list" where
  "pcdevs_ids = [(DEV1, DEV001)]"

text \<open>The device-tree example has tables of its own, with the same entries.\<close>

definition dev_map_array_dt :: "device_mapping list" where
  "dev_map_array_dt = [\<lparr>model_id = ''DEV001_AEDFG'', description = ''Dev001 Device description''\<rparr>]"

definition pcdevs_ids_dt :: "(string \<times> nat) list" where
  "pcdevs_ids_dt = [(DEV1, DEV001)]"

definition of_pcdevs_ids :: "(string \<times> device_mapping) list" where
  "of_pcdevs_ids = [(''pltfm,dev001'', dev_map_array_dt ! DEV001)]"

lemma dt_tables [simp]: "dev_map_array_dt = dev_map_array" "pcdevs_ids_dt = pcdevs_ids"
  by (simp_all add: dev_map_array_dt_def dev_map_array_def pcdevs_ids_dt_def pcdevs_ids_def)

datatype log_line =
  Probed string | By_id_table | Model string | Description string | Device_data string int
| Removed string | Released int

text \<open>The part of the probes that both id-table drivers share: the entry indexes the array.\<close>

definition print_mapping :: "device_mapping list \<Rightarrow> nat \<Rightarrow> log_line list outcome" where
  "print_mapping maps dev_data =
     (if dev_data < length maps
      then let m = maps ! dev_data in
        Ret [By_id_table, Model (model_id m), Description (description m)]
      else Fault Out_of_bounds)"

section \<open>The drivers\<close>

definition plfm_drv_by_name_probe :: "platform_device \<Rightarrow> (int \<times> log_line list) outcome" where
  "plfm_drv_by_name_probe pdev =
     deref (platform_data pdev) (\<lambda>d. Ret (0, [Probed (dev_name pdev), Device_data (dev_name pdev) d]))"

definition plfm_drv_by_name_remove :: "platform_device \<Rightarrow> int \<times> log_line list" where
  "plfm_drv_by_name_remove pdev = (0, [Removed (dev_name pdev)])"

definition pltfm_drv_by_device_id_probe :: "platform_device \<Rightarrow> (int \<times> log_line list) outcome" where
  "pltfm_drv_by_device_id_probe pdev =
     obind (case id_entry pdev of None \<Rightarrow> Ret [] | Some dev_data \<Rightarrow> print_mapping dev_map_array dev_data) (\<lambda>lines.
     deref (platform_data pdev) (\<lambda>d.
       Ret (0, Probed (dev_name pdev) # lines @ [Device_data (dev_name pdev) d])))"

definition pltfm_drv_by_device_id_remove :: "platform_device \<Rightarrow> int \<times> log_line list" where
  "pltfm_drv_by_device_id_remove pdev = (0, [Removed (dev_name pdev)])"

definition pltfm_drv_by_dt_probe ::
    "(platform_device \<Rightarrow> device_mapping option) \<Rightarrow> platform_device \<Rightarrow> (int \<times> log_line list) outcome" where
  "pltfm_drv_by_dt_probe of_match pdev =
     (let match = of_match pdev in
      obind (case match of
          Some m \<Rightarrow> Ret [Model (model_id m), Description (description m)]
        | None \<Rightarrow> (case id_entry pdev of None \<Rightarrow> Ret [] | Some dev_data \<Rightarrow> print_mapping dev_map_array_dt dev_data)) (\<lambda>lines.
      if match = None
      then deref (platform_data pdev) (\<lambda>d.
        Ret (0, Probed (dev_name pdev) # lines @ [Device_data (dev_name pdev) d]))
      else Ret (0, Probed (dev_name pdev) # lines)))"

definition pltfm_drv_by_dt_remove :: "platform_device \<Rightarrow> int \<times> log_line list" where
  "pltfm_drv_by_dt_remove pdev = (0, [Removed (dev_name pdev)])"

section \<open>The devices\<close>

definition pcdev_release :: "platform_device \<Rightarrow> log_line list outcome" where
  "pcdev_release dev = deref (platform_data dev) (\<lambda>d. Ret [Released d])"

text \<open>The devices as their modules declare them, before the bus has matched them.\<close>

definition plt_dvc_by_name :: platform_device where
  "plt_dvc_by_name = \<lparr>dev_name = ''pseudo-char-device'', id_entry = None, platform_data = Some 1729\<rparr>"

definition plt_dvc_by_id :: platform_device where
  "plt_dvc_by_id = \<lparr>dev_name = DEV1, id_entry = None, platform_data = Some 1729\<rparr>"

definition plt_dvc_for_dt :: platform_device where
  "plt_dvc_for_dt = \<lparr>dev_name = DEV1, id_entry = None, platform_data = Some 1729\<rparr>"

text \<open>Documented: the bus sets \<open>id_entry\<close> to the entry of the driver's id table with the device's name.\<close>

definition bus_match :: "(string \<times> nat) list \<Rightarrow> platform_device \<Rightarrow> platform_device" where
  "bus_match ids dev = dev\<lparr>id_entry := map_of ids (dev_name dev)\<rparr>"

section \<open>What a probe reports\<close>

lemma print_mapping_DEV001:
  "print_mapping dev_map_array DEV001 = Ret [By_id_table, Model ''DEV001_AEDFG'', Description ''Dev001 Device description'']"
  by (simp add: print_mapping_def dev_map_array_def DEV001_def)

text \<open>
  Every device of the three examples is reported with its data by the driver made for it, and
  with its model by the two drivers that have an id table; without an entry in the device tree
  the third driver behaves as the second. A device matched through the device tree needs no
  private data, and any other device without private data makes the probe dereference NULL.
\<close>

lemma platform_probes:
  "plfm_drv_by_name_probe plt_dvc_by_name =
     Ret (0, [Probed ''pseudo-char-device'', Device_data ''pseudo-char-device'' 1729])"
  "pltfm_drv_by_device_id_probe (bus_match pcdevs_ids plt_dvc_by_id) =
     Ret (0, [Probed DEV1, By_id_table, Model ''DEV001_AEDFG'', Description ''Dev001 Device description'',
       Device_data DEV1 1729])"
  "of_match pdev = None \<Longrightarrow> pltfm_drv_by_dt_probe of_match pdev = pltfm_drv_by_device_id_probe pdev"
  "of_match pdev = Some m \<Longrightarrow>
     pltfm_drv_by_dt_probe of_match pdev = Ret (0, [Probed (dev_name pdev), Model (model_id m), Description (description m)])"
  "platform_data pdev = None \<Longrightarrow> plfm_drv_by_name_probe pdev = Fault Null_deref"
  "platform_data pdev = None \<Longrightarrow> id_entry pdev \<in> {None, Some DEV001} \<Longrightarrow>
     pltfm_drv_by_device_id_probe pdev = Fault Null_deref"
  by (auto simp: plfm_drv_by_name_probe_def plt_dvc_by_name_def pltfm_drv_by_device_id_probe_def bus_match_def
      plt_dvc_by_id_def pcdevs_ids_def print_mapping_DEV001 pltfm_drv_by_dt_probe_def Let_def split: option.splits)

lemma platform_lifecycle:
  "pcdev_release plt_dvc_by_name = Ret [Released 1729]" "pcdev_release (bus_match pcdevs_ids plt_dvc_by_id) = Ret [Released 1729]"
  "fst (plfm_drv_by_name_remove pdev) = 0" "fst (pltfm_drv_by_device_id_remove pdev) = 0" "fst (pltfm_drv_by_dt_remove pdev) = 0"
  by (simp_all add: pcdev_release_def plt_dvc_by_name_def plt_dvc_by_id_def bus_match_def
      plfm_drv_by_name_remove_def pltfm_drv_by_device_id_remove_def pltfm_drv_by_dt_remove_def)

section \<open>The driver structures and the modules\<close>

record platform_driver =
  drv_name :: string
  id_table :: "(string \<times> nat) list"
  of_match_table :: "(string \<times> device_mapping) list"
  drv_probe :: "platform_device \<Rightarrow> (int \<times> log_line list) outcome"
  drv_remove :: "platform_device \<Rightarrow> int \<times> log_line list"

definition pltfm_drv_by_name :: platform_driver where
  "pltfm_drv_by_name = \<lparr>drv_name = ''pseudo-char-device'', id_table = [], of_match_table = [],
     drv_probe = plfm_drv_by_name_probe, drv_remove = plfm_drv_by_name_remove\<rparr>"

definition pltfm_drv_by_device_id :: platform_driver where
  "pltfm_drv_by_device_id = \<lparr>drv_name = ''pseudo-char-device'', id_table = pcdevs_ids, of_match_table = [],
     drv_probe = pltfm_drv_by_device_id_probe, drv_remove = pltfm_drv_by_device_id_remove\<rparr>"

definition pltfm_drv_by_dt :: "(platform_device \<Rightarrow> device_mapping option) \<Rightarrow> platform_driver" where
  "pltfm_drv_by_dt of_match = \<lparr>drv_name = ''pseudo-char-device'', id_table = pcdevs_ids_dt, of_match_table = of_pcdevs_ids,
     drv_probe = pltfm_drv_by_dt_probe of_match, drv_remove = pltfm_drv_by_dt_remove\<rparr>"

text \<open>
  The init and exit functions make one call to the bus each. The init functions ignore its
  answer (\<open>r\<close>) and always succeed; the exit functions undo the registration in any case.
\<close>

datatype bus_call = Register int | Unregister

definition plfm_drv_by_name_init :: "int \<Rightarrow> int \<times> bus_call list" where
  "plfm_drv_by_name_init r = (0, [Register r])"

definition plfm_drv_by_name_exit :: "bus_call list" where
  "plfm_drv_by_name_exit = [Unregister]"

definition plfm_dvc_by_name_init :: "int \<Rightarrow> int \<times> bus_call list" where
  "plfm_dvc_by_name_init r = (0, [Register r])"

definition plfm_dvc_by_name_exit :: "bus_call list" where
  "plfm_dvc_by_name_exit = [Unregister]"

definition pltfm_drv_by_device_id_init :: "int \<Rightarrow> int \<times> bus_call list" where
  "pltfm_drv_by_device_id_init r = (0, [Register r])"

definition pltfm_drv_by_device_id_exit :: "bus_call list" where
  "pltfm_drv_by_device_id_exit = [Unregister]"

definition pltfm_dvc_by_device_id_init :: "int \<Rightarrow> int \<times> bus_call list" where
  "pltfm_dvc_by_device_id_init r = (0, [Register r])"

definition pltfm_dvc_by_device_id_exit :: "bus_call list" where
  "pltfm_dvc_by_device_id_exit = [Unregister]"

definition pltfm_drv_by_dt_init :: "int \<Rightarrow> int \<times> bus_call list" where
  "pltfm_drv_by_dt_init r = (0, [Register r])"

definition pltfm_drv_by_dt_exit :: "bus_call list" where
  "pltfm_drv_by_dt_exit = [Unregister]"

definition pltfm_dvc_for_dt_init :: "int \<Rightarrow> int \<times> bus_call list" where
  "pltfm_dvc_for_dt_init r = (0, [Register r])"

definition pltfm_dvc_for_dt_exit :: "bus_call list" where
  "pltfm_dvc_for_dt_exit = [Unregister]"

lemmas platform_module_defs =
  plfm_drv_by_name_init_def plfm_drv_by_name_exit_def plfm_dvc_by_name_init_def plfm_dvc_by_name_exit_def
  pltfm_drv_by_device_id_init_def pltfm_drv_by_device_id_exit_def
  pltfm_dvc_by_device_id_init_def pltfm_dvc_by_device_id_exit_def
  pltfm_drv_by_dt_init_def pltfm_drv_by_dt_exit_def pltfm_dvc_for_dt_init_def pltfm_dvc_for_dt_exit_def

section \<open>The six modules on one bus\<close>

datatype example = By_name | By_id | By_dt

datatype pmodule = Driver_module example | Device_module example

fun driver :: "(platform_device \<Rightarrow> device_mapping option) \<Rightarrow> example \<Rightarrow> platform_driver" where
  "driver of_match By_name = pltfm_drv_by_name"
| "driver of_match By_id = pltfm_drv_by_device_id"
| "driver of_match By_dt = pltfm_drv_by_dt of_match"

fun device :: "example \<Rightarrow> platform_device" where
  "device By_name = plt_dvc_by_name"
| "device By_id = plt_dvc_by_id"
| "device By_dt = plt_dvc_for_dt"

fun module_init :: "pmodule \<Rightarrow> int \<Rightarrow> int \<times> bus_call list" where
  "module_init (Driver_module By_name) = plfm_drv_by_name_init"
| "module_init (Driver_module By_id) = pltfm_drv_by_device_id_init"
| "module_init (Driver_module By_dt) = pltfm_drv_by_dt_init"
| "module_init (Device_module By_name) = plfm_dvc_by_name_init"
| "module_init (Device_module By_id) = pltfm_dvc_by_device_id_init"
| "module_init (Device_module By_dt) = pltfm_dvc_for_dt_init"

fun module_exit :: "pmodule \<Rightarrow> bus_call list" where
  "module_exit (Driver_module By_name) = plfm_drv_by_name_exit"
| "module_exit (Driver_module By_id) = pltfm_drv_by_device_id_exit"
| "module_exit (Driver_module By_dt) = pltfm_drv_by_dt_exit"
| "module_exit (Device_module By_name) = plfm_dvc_by_name_exit"
| "module_exit (Device_module By_id) = pltfm_dvc_by_device_id_exit"
| "module_exit (Device_module By_dt) = pltfm_dvc_for_dt_exit"

text \<open>The name under which the bus knows what a module registers.\<close>

fun bus_name :: "pmodule \<Rightarrow> bool \<times> string" where
  "bus_name (Driver_module x) = (True, drv_name (driver (\<lambda>d. None) x))"
| "bus_name (Device_module d) = (False, dev_name (device d))"

record platform_bus =
  loaded_mods :: "pmodule list"
  registered :: "pmodule list"
  bound :: "example \<Rightarrow> example option"  \<comment> \<open>the driver of each device\<close>
  plog :: "(example \<times> log_line) list"  \<comment> \<open>what was printed about which device\<close>
  refused :: bool  \<comment> \<open>some registration has failed\<close>
  stray :: bool  \<comment> \<open>something was unregistered that was not registered\<close>
  broken :: bool  \<comment> \<open>a callback has faulted\<close>

definition empty_bus :: platform_bus where
  "empty_bus = \<lparr>loaded_mods = [], registered = [], bound = (\<lambda>d. None), plog = [], refused = False,
     stray = False, broken = False\<rparr>"

definition note_lines :: "example \<Rightarrow> log_line list \<Rightarrow> platform_bus \<Rightarrow> platform_bus" where
  "note_lines d ls b = b\<lparr>plog := plog b @ map (Pair d) ls\<rparr>"

text \<open>
  What the driver core does, as documented: a driver is unbound from a device by calling its
  remove function, whatever that returns; a device that is unregistered is unbound first and
  then released; a driver that is unregistered is unbound from all its devices. To unregister
  what is not registered is a mistake of the caller.
\<close>

definition unbind :: "(platform_device \<Rightarrow> device_mapping option) \<Rightarrow> example \<Rightarrow> platform_bus \<Rightarrow> platform_bus" where
  "unbind of_match d b = (case bound b d of
       None \<Rightarrow> b
     | Some x \<Rightarrow> note_lines d (snd (drv_remove (driver of_match x) (device d))) (b\<lparr>bound := (bound b)(d := None)\<rparr>))"

definition unbind_from :: "(platform_device \<Rightarrow> device_mapping option) \<Rightarrow> example \<Rightarrow> example \<Rightarrow> platform_bus \<Rightarrow> platform_bus" where
  "unbind_from of_match x d b = (if bound b d = Some x then unbind of_match d b else b)"

definition release :: "example \<Rightarrow> platform_bus \<Rightarrow> platform_bus" where
  "release d b = (case pcdev_release (device d) of Ret ls \<Rightarrow> note_lines d ls b | _ \<Rightarrow> b\<lparr>broken := True\<rparr>)"

fun make_call :: "(platform_device \<Rightarrow> device_mapping option) \<Rightarrow> pmodule \<Rightarrow> bus_call \<Rightarrow> platform_bus \<Rightarrow> platform_bus" where
  "make_call of_match m (Register r) b =
     (if r = 0 then b\<lparr>registered := m # registered b\<rparr> else b\<lparr>refused := True\<rparr>)"
| "make_call of_match m Unregister b =
     (if m \<notin> set (registered b) then b\<lparr>stray := True\<rparr>
      else let b1 = b\<lparr>registered := remove1 m (registered b)\<rparr> in
        case m of
          Driver_module x \<Rightarrow> fold (unbind_from of_match x) [By_name, By_id, By_dt] b1
        | Device_module d \<Rightarrow> release d (unbind of_match d b1))"

definition insmod :: "(platform_device \<Rightarrow> device_mapping option) \<Rightarrow> pmodule \<Rightarrow> int \<Rightarrow> platform_bus \<Rightarrow> platform_bus" where
  "insmod of_match m r b =
     (let (ret, calls) = module_init m r; b1 = fold (make_call of_match m) calls b in
      if ret = 0 then b1\<lparr>loaded_mods := m # loaded_mods b1\<rparr> else b1)"

definition rmmod :: "(platform_device \<Rightarrow> device_mapping option) \<Rightarrow> pmodule \<Rightarrow> platform_bus \<Rightarrow> platform_bus" where
  "rmmod of_match m b = (let b1 = fold (make_call of_match m) (module_exit m) b in
     b1\<lparr>loaded_mods := remove1 m (loaded_mods b1)\<rparr>)"

definition bind :: "(platform_device \<Rightarrow> device_mapping option) \<Rightarrow> example \<Rightarrow> example \<Rightarrow> platform_device \<Rightarrow> platform_bus \<Rightarrow> platform_bus" where
  "bind of_match x d pdev b =
     (case drv_probe (driver of_match x) pdev of
        Ret (ret, ls) \<Rightarrow> (if ret = 0 then note_lines d ls (b\<lparr>bound := (bound b)(d := Some x)\<rparr>) else b)
      | _ \<Rightarrow> b\<lparr>broken := True\<rparr>)"

text \<open>
  The matching is a parameter: \<open>bus x d\<close> is the device as the bus hands it to the probe of the
  driver, if it matches the two at all. Documented: name and private data are the device's,
  and \<open>id_entry\<close> points to an entry of the driver's id table, or nowhere.
\<close>

definition documented_bus :: "(example \<Rightarrow> example \<Rightarrow> platform_device option) \<Rightarrow> bool" where
  "documented_bus bus \<longleftrightarrow> (\<forall>x d pdev. bus x d = Some pdev \<longrightarrow>
     dev_name pdev = dev_name (device d) \<and> platform_data pdev = platform_data (device d) \<and>
     (case id_entry pdev of None \<Rightarrow> True | Some n \<Rightarrow> n \<in> snd ` set (id_table (driver (\<lambda>p. None) x))))"

text \<open>
  Modules come and go in any order; a registered driver is bound to a registered device at any
  time the bus chooses. Documented: a name can be registered once at a time.
\<close>

inductive platform_step ::
    "(platform_device \<Rightarrow> device_mapping option) \<Rightarrow> (example \<Rightarrow> example \<Rightarrow> platform_device option) \<Rightarrow>
     platform_bus \<Rightarrow> platform_bus \<Rightarrow> bool" for of_match bus where
  insmod: "m \<notin> set (loaded_mods b) \<Longrightarrow> (r = 0 \<Longrightarrow> bus_name m \<notin> bus_name ` set (registered b)) \<Longrightarrow>
    platform_step of_match bus b (insmod of_match m r b)"
| rmmod: "m \<in> set (loaded_mods b) \<Longrightarrow> platform_step of_match bus b (rmmod of_match m b)"
| bind: "Driver_module x \<in> set (registered b) \<Longrightarrow> Device_module d \<in> set (registered b) \<Longrightarrow> bound b d = None \<Longrightarrow>
    bus x d = Some pdev \<Longrightarrow> platform_step of_match bus b (bind of_match x d pdev b)"

inductive platform_reach ::
    "(platform_device \<Rightarrow> device_mapping option) \<Rightarrow> (example \<Rightarrow> example \<Rightarrow> platform_device option) \<Rightarrow>
     platform_bus \<Rightarrow> bool" for of_match bus where
  start: "platform_reach of_match bus empty_bus"
| move: "platform_reach of_match bus b \<Longrightarrow> platform_step of_match bus b b' \<Longrightarrow> platform_reach of_match bus b'"

lemma module_calls [simp]: "module_init m r = (0, [Register r])" "module_exit m = [Unregister]"
proof -
  have "module_init m r = (0, [Register r]) \<and> module_exit m = [Unregister]"
  proof (cases m)
    case (Driver_module x)
    then show ?thesis by (cases x) (simp_all add: platform_module_defs)
  next
    case (Device_module d)
    then show ?thesis by (cases d) (simp_all add: platform_module_defs)
  qed
  then show "module_init m r = (0, [Register r])" "module_exit m = [Unregister]" by simp_all
qed

declare module_init.simps [simp del] module_exit.simps [simp del]

text \<open>Every probe the bus may make of these devices succeeds and prints one line \<open>Probed\<close>.\<close>

lemma probe_succeeds:
  assumes "documented_bus bus" "bus x d = Some pdev"
  shows "\<exists>ls. drv_probe (driver of_match x) pdev = Ret (0, Probed (dev_name (device d)) # ls) \<and>
    list_all (\<lambda>l. case l of Probed n \<Rightarrow> False | Removed n \<Rightarrow> False | _ \<Rightarrow> True) ls"
proof -
  have name: "dev_name pdev = dev_name (device d)" and data: "platform_data pdev = Some 1729"
    and entry: "id_entry pdev = None \<or> id_entry pdev = Some DEV001"
  proof -
    from assms have "dev_name pdev = dev_name (device d) \<and> platform_data pdev = platform_data (device d) \<and>
       (case id_entry pdev of None \<Rightarrow> True | Some n \<Rightarrow> n \<in> snd ` set (id_table (driver (\<lambda>p. None) x)))"
      unfolding documented_bus_def by blast
    moreover have "platform_data (device d) = Some 1729"
      by (cases d) (simp_all add: plt_dvc_by_name_def plt_dvc_by_id_def plt_dvc_for_dt_def)
    moreover have "snd ` set (id_table (driver (\<lambda>p. None) x)) \<subseteq> {DEV001}"
      by (cases x) (auto simp: pltfm_drv_by_name_def pltfm_drv_by_device_id_def pltfm_drv_by_dt_def pcdevs_ids_def)
    ultimately show "dev_name pdev = dev_name (device d)" "platform_data pdev = Some 1729"
      "id_entry pdev = None \<or> id_entry pdev = Some DEV001"
      by (auto split: option.splits)
  qed
  show ?thesis
  proof (cases x)
    case By_name
    then show ?thesis using name data by (simp add: pltfm_drv_by_name_def plfm_drv_by_name_probe_def)
  next
    case By_id
    then show ?thesis
      using name data entry
      by (auto simp: pltfm_drv_by_device_id_def pltfm_drv_by_device_id_probe_def print_mapping_DEV001)
  next
    case By_dt
    then show ?thesis
      using name data entry
      by (auto simp: pltfm_drv_by_dt_def pltfm_drv_by_dt_probe_def print_mapping_DEV001 Let_def split: option.splits)
  qed
qed

lemma remove_prints: "snd (drv_remove (driver of_match x) pdev) = [Removed (dev_name pdev)]"
  by (cases x) (simp_all add: pltfm_drv_by_name_def pltfm_drv_by_device_id_def pltfm_drv_by_dt_def
      plfm_drv_by_name_remove_def pltfm_drv_by_device_id_remove_def pltfm_drv_by_dt_remove_def)

lemma release_prints: "pcdev_release (device d) = Ret [Released 1729]"
  by (cases d) (simp_all add: pcdev_release_def plt_dvc_by_name_def plt_dvc_by_id_def plt_dvc_for_dt_def)

section \<open>The invariant of the bus\<close>

definition tally :: "(string \<Rightarrow> log_line) \<Rightarrow> example \<Rightarrow> platform_bus \<Rightarrow> nat" where
  \<comment> \<open>how often a callback has reported about device \<open>d\<close>\<close>
  "tally l d b = length (filter ((=) (d, l (dev_name (device d)))) (plog b))"

definition log_ok :: "platform_bus \<Rightarrow> bool" where
  "log_ok b \<longleftrightarrow> (\<forall>d. tally Probed d b = tally Removed d b + of_bool (bound b d \<noteq> None))"

definition bindings_ok :: "platform_bus \<Rightarrow> bool" where
  "bindings_ok b \<longleftrightarrow> (\<forall>d x. bound b d = Some x \<longrightarrow>
     Driver_module x \<in> set (registered b) \<and> Device_module d \<in> set (registered b))"

definition modules_ok :: "platform_bus \<Rightarrow> bool" where
  "modules_ok b \<longleftrightarrow> distinct (loaded_mods b) \<and> distinct (map bus_name (registered b)) \<and>
     set (registered b) \<subseteq> set (loaded_mods b) \<and> (\<not> refused b \<longrightarrow> set (loaded_mods b) \<subseteq> set (registered b) \<and> \<not> stray b)"

lemma tally_note:
  "tally l e (note_lines d ls b) =
    tally l e b + (if e = d then length (filter ((=) (l (dev_name (device d)))) ls) else 0)"
  by (auto simp: tally_def note_lines_def filter_map comp_def)

lemma note_fields [simp]:
  "loaded_mods (note_lines d ls b) = loaded_mods b" "registered (note_lines d ls b) = registered b"
  "bound (note_lines d ls b) = bound b" "refused (note_lines d ls b) = refused b"
  "stray (note_lines d ls b) = stray b" "broken (note_lines d ls b) = broken b"
  by (simp_all add: note_lines_def)

lemma tally_update [simp]:
  "tally l d (b\<lparr>bound := v\<rparr>) = tally l d b" "tally l d (b\<lparr>registered := ms\<rparr>) = tally l d b"
  "tally l d (b\<lparr>loaded_mods := ms\<rparr>) = tally l d b" "tally l d (b\<lparr>refused := f\<rparr>) = tally l d b"
  "tally l d (b\<lparr>stray := f\<rparr>) = tally l d b"
  by (simp_all add: tally_def)

lemma unbind_fields [simp]:
  "loaded_mods (unbind of_match d b) = loaded_mods b" "registered (unbind of_match d b) = registered b"
  "bound (unbind of_match d b) = (bound b)(d := None)" "refused (unbind of_match d b) = refused b"
  "stray (unbind of_match d b) = stray b" "broken (unbind of_match d b) = broken b"
  by (auto simp: unbind_def fun_upd_idem split: option.splits)

lemma unbind_log: "log_ok b \<Longrightarrow> log_ok (unbind of_match d b)"
  by (auto simp: log_ok_def unbind_def tally_note remove_prints split: option.splits)

lemma unbind_from_fields [simp]:
  "loaded_mods (unbind_from of_match x d b) = loaded_mods b" "registered (unbind_from of_match x d b) = registered b"
  "bound (unbind_from of_match x d b) = (if bound b d = Some x then (bound b)(d := None) else bound b)"
  "refused (unbind_from of_match x d b) = refused b"
  "stray (unbind_from of_match x d b) = stray b" "broken (unbind_from of_match x d b) = broken b"
  by (simp_all add: unbind_from_def)

lemma unbind_from_log: "log_ok b \<Longrightarrow> log_ok (unbind_from of_match x d b)"
  by (simp add: unbind_from_def unbind_log)

lemma release_fields [simp]:
  "loaded_mods (release d b) = loaded_mods b" "registered (release d b) = registered b"
  "bound (release d b) = bound b" "refused (release d b) = refused b" "stray (release d b) = stray b"
  "broken (release d b) = broken b"
  by (simp_all add: release_def release_prints)

lemma release_log: "log_ok b \<Longrightarrow> log_ok (release d b)"
  by (simp add: log_ok_def release_def release_prints tally_note)

definition bus_inv :: "platform_bus \<Rightarrow> bool" where
  "bus_inv b \<longleftrightarrow> log_ok b \<and> bindings_ok b \<and> modules_ok b \<and> \<not> broken b"

lemma distinct_registered: "modules_ok b \<Longrightarrow> distinct (registered b)"
  by (simp add: modules_ok_def distinct_map)

lemma insmod_inv:
  assumes "bus_inv b" "m \<notin> set (loaded_mods b)" "r = 0 \<Longrightarrow> bus_name m \<notin> bus_name ` set (registered b)"
  shows "bus_inv (insmod of_match m r b)"
proof -
  have "log_ok (insmod of_match m r b)" "bindings_ok (insmod of_match m r b)" "\<not> broken (insmod of_match m r b)"
    using assms by (auto simp: bus_inv_def insmod_def log_ok_def bindings_ok_def)
  moreover have "modules_ok (insmod of_match m r b)"
    using assms unfolding bus_inv_def modules_ok_def insmod_def by (cases "r = 0") auto
  ultimately show ?thesis by (simp add: bus_inv_def)
qed

lemma unregister_driver:
  "make_call of_match (Driver_module x) Unregister b =
    (if Driver_module x \<notin> set (registered b) then b\<lparr>stray := True\<rparr>
     else unbind_from of_match x By_dt (unbind_from of_match x By_id (unbind_from of_match x By_name
       (b\<lparr>registered := remove1 (Driver_module x) (registered b)\<rparr>))))"
  by (simp add: Let_def)

lemma rmmod_log: "log_ok b \<Longrightarrow> log_ok (rmmod of_match m b)"
proof -
  assume log: "log_ok b"
  have upd: "log_ok (c\<lparr>loaded_mods := ms\<rparr>) = log_ok c" "log_ok (c\<lparr>registered := ms\<rparr>) = log_ok c"
    "log_ok (c\<lparr>stray := f\<rparr>) = log_ok c" for c ms f
    by (simp_all add: log_ok_def)
  show ?thesis
  proof (cases m)
    case (Driver_module x)
    then show ?thesis
      using log by (simp add: rmmod_def unregister_driver upd unbind_from_log del: make_call.simps)
  next
    case (Device_module d)
    then show ?thesis
      using log by (simp add: rmmod_def upd unbind_log release_log)
  qed
qed

lemma rmmod_modules: "modules_ok b \<Longrightarrow> m \<in> set (loaded_mods b) \<Longrightarrow> modules_ok (rmmod of_match m b)"
proof -
  assume ok: "modules_ok b" and m: "m \<in> set (loaded_mods b)"
  have fields: "loaded_mods (rmmod of_match m b) = remove1 m (loaded_mods b)"
    "registered (rmmod of_match m b) = remove1 m (registered b)"
    "refused (rmmod of_match m b) = refused b" "stray (rmmod of_match m b) \<longleftrightarrow> stray b \<or> m \<notin> set (registered b)"
    by (cases m; simp add: rmmod_def Let_def remove1_idem)+
  have "distinct (map bus_name (remove1 m (registered b)))"
    using ok by (simp add: modules_ok_def distinct_map distinct_remove1 inj_on_def notin_set_remove1)
  then show ?thesis
    using ok m distinct_registered [OF ok] unfolding modules_ok_def fields by auto
qed

lemma rmmod_bindings: "bindings_ok b \<Longrightarrow> modules_ok b \<Longrightarrow> bindings_ok (rmmod of_match m b)"
proof -
  assume bind: "bindings_ok b" and ok: "modules_ok b"
  show ?thesis
  proof (cases "m \<in> set (registered b)")
    case False
    then show ?thesis using bind by (cases m) (simp_all add: rmmod_def bindings_ok_def)
  next
    case True
    show ?thesis
    proof (cases m)
      case (Driver_module x)
      have "bound (rmmod of_match m b) d \<noteq> Some x" for d
        using True Driver_module by (cases d) (auto simp: rmmod_def)
      moreover have "bound (rmmod of_match m b) d = Some y \<Longrightarrow> bound b d = Some y" for d y
        using True Driver_module by (cases d) (auto simp: rmmod_def split: if_splits)
      moreover have "registered (rmmod of_match m b) = remove1 m (registered b)"
        using True Driver_module by (simp add: rmmod_def)
      ultimately show ?thesis
        using bind distinct_registered [OF ok] Driver_module unfolding bindings_ok_def
        by (metis in_set_remove1 pmodule.distinct(1) pmodule.inject(1))
    next
      case (Device_module e)
      then have "bound (rmmod of_match m b) = (bound b)(e := None)" "registered (rmmod of_match m b) = remove1 m (registered b)"
        using True by (simp_all add: rmmod_def)
      then show ?thesis
        using bind distinct_registered [OF ok] Device_module unfolding bindings_ok_def by auto
    qed
  qed
qed

lemma bind_inv:
  assumes "bus_inv b" "documented_bus bus" "Driver_module x \<in> set (registered b)" "Device_module d \<in> set (registered b)"
    "bound b d = None" "bus x d = Some pdev"
  shows "bus_inv (bind of_match x d pdev b)"
proof -
  from probe_succeeds [OF assms(2,6)] obtain ls where
    probe: "drv_probe (driver of_match x) pdev = Ret (0, Probed (dev_name (device d)) # ls)" and
    quiet: "list_all (\<lambda>l. case l of Probed n \<Rightarrow> False | Removed n \<Rightarrow> False | _ \<Rightarrow> True) ls" by blast
  have none: "filter ((=) (Probed n)) ls = []" "filter ((=) (Removed n)) ls = []" for n
    using quiet by (auto simp: filter_empty_conv list_all_iff)
  have eq: "bind of_match x d pdev b =
      note_lines d (Probed (dev_name (device d)) # ls) (b\<lparr>bound := (bound b)(d := Some x)\<rparr>)"
    by (simp add: bind_def probe)
  have "log_ok (bind of_match x d pdev b)"
    using assms(1,5) by (auto simp: eq log_ok_def tally_note none bus_inv_def)
  moreover have "bindings_ok (bind of_match x d pdev b)"
    using assms(1,3,4) by (auto simp: eq bindings_ok_def bus_inv_def)
  ultimately show ?thesis
    using assms(1) by (simp add: bus_inv_def eq modules_ok_def)
qed

lemma platform_reach_inv:
  assumes "documented_bus bus" "platform_reach of_match bus b"
  shows "bus_inv b"
  using assms(2)
proof (induction rule: platform_reach.induct)
  case start
  then show ?case
    by (simp add: bus_inv_def log_ok_def bindings_ok_def modules_ok_def empty_bus_def tally_def)
next
  case (move b b')
  from move.hyps(2) show ?case
  proof (cases rule: platform_step.cases)
    case (rmmod m)
    have "broken (rmmod of_match m b) = broken b" by (cases m) (simp_all add: rmmod_def Let_def)
    then show ?thesis
      using move.IH rmmod rmmod_log rmmod_modules rmmod_bindings by (simp add: bus_inv_def)
  qed (use move.IH insmod_inv bind_inv [OF _ assms(1)] in auto)
qed

section \<open>Properties\<close>

text \<open>
  A matching of the documented kind: by the id table of the driver if it has one, else by name.
\<close>

definition table_or_name :: "example \<Rightarrow> example \<Rightarrow> platform_device option" where
  "table_or_name x d =
     (let drv = driver (\<lambda>p. None) x; dev = bus_match (id_table drv) (device d) in
      if (if id_table drv = [] then drv_name drv = dev_name dev else id_entry dev \<noteq> None) then Some dev else None)"

lemma table_or_name_documented: "documented_bus table_or_name"
proof -
  have "n \<in> snd ` set ids" if "map_of ids k = Some n" for ids :: "(string \<times> nat) list" and k n
    using map_of_SomeD [OF that] by force
  then show ?thesis
    by (auto simp: documented_bus_def table_or_name_def bus_match_def Let_def split: option.splits if_splits)
qed

text \<open>
  C28: The six modules of the platform examples on one bus, inserted and removed in any order,
  bound whenever the bus likes: no probe, remove or release function ever faults, a device is
  never bound to a driver that is gone, and the drivers are told of every unbinding: each
  device has been probed exactly as often as removed, and once more while it is bound. As long
  as no registration fails every module gives back exactly what it registered.
\<close>

theorem platform_bus_safe:
  assumes "documented_bus bus" "platform_reach of_match bus b"
  shows "\<not> broken b \<and>
    (\<forall>d x. bound b d = Some x \<longrightarrow> Driver_module x \<in> set (loaded_mods b) \<and> Device_module d \<in> set (loaded_mods b)) \<and>
    (\<forall>d. tally Probed d b = tally Removed d b + of_bool (bound b d \<noteq> None)) \<and>
    (\<not> refused b \<longrightarrow> \<not> stray b \<and> set (registered b) = set (loaded_mods b))"
  using platform_reach_inv [OF assms] unfolding bus_inv_def bindings_ok_def modules_ok_def log_ok_def
  by (intro conjI; blast)

lemma platform_bus_safe_witness:
  "\<exists>b. platform_reach (\<lambda>p. None) table_or_name b \<and> bound b By_id = Some By_dt \<and>
     tally Probed By_id b = Suc (tally Removed By_id b)"
proof -
  let ?ins = "\<lambda>m b. insmod (\<lambda>p. None) m 0 b" and ?dev = "bus_match pcdevs_ids plt_dvc_by_id"
  let ?b1 = "?ins (Driver_module By_dt) empty_bus"
  let ?b2 = "?ins (Device_module By_id) ?b1"
  let ?b3 = "bind (\<lambda>p. None) By_dt By_id ?dev ?b2"
  have b1: "platform_reach (\<lambda>p. None) table_or_name ?b1"
    by (rule move [OF start platform_step.insmod]) (simp_all add: empty_bus_def)
  have b2: "platform_reach (\<lambda>p. None) table_or_name ?b2"
    by (rule move [OF b1 platform_step.insmod]) (simp_all add: empty_bus_def insmod_def)
  have b3: "platform_reach (\<lambda>p. None) table_or_name ?b3"
    by (rule move [OF b2 platform_step.bind])
       (simp_all add: empty_bus_def insmod_def table_or_name_def bus_match_def pltfm_drv_by_dt_def
         plt_dvc_by_id_def pcdevs_ids_def DEV001_def)
  have bound: "bound ?b3 By_id = Some By_dt"
    by (simp add: bind_def pltfm_drv_by_dt_def pltfm_drv_by_dt_probe_def bus_match_def plt_dvc_by_id_def
        pcdevs_ids_def print_mapping_DEV001)
  show ?thesis
    using platform_bus_safe [OF table_or_name_documented b3] b3 bound by (intro exI [of _ ?b3]) simp
qed

text \<open>
  The init functions ignore a failed registration. When two modules register the same name
  (all three drivers do, and so do the devices of the second and the third example), the one
  that comes second is loaded without being registered, and its exit function then always
  unregisters what was never registered.
\<close>

theorem platform_registration_ignored:
  assumes "documented_bus bus" "platform_reach of_match bus b" "platform_step of_match bus b b'"
    and "m \<in> set (registered b)" "m' \<notin> set (loaded_mods b)" "m' \<in> set (loaded_mods b')" "bus_name m = bus_name m'"
  shows "m' \<notin> set (registered b') \<and> stray (rmmod of_match m' b')"
proof -
  have sub: "set (registered b) \<subseteq> set (loaded_mods b)"
    using platform_reach_inv [OF assms(1,2)] by (simp add: bus_inv_def modules_ok_def)
  from assms(3) have "m' \<notin> set (registered b')"
  proof (cases rule: platform_step.cases)
    case (insmod n r)
    then have "n = m'" using assms(5,6) by (cases "r = 0") (auto simp: insmod_def)
    moreover have "bus_name m' \<in> bus_name ` set (registered b)" using assms(4,7) by (metis imageI)
    ultimately have "r \<noteq> 0" using insmod(3) by auto
    then show ?thesis using insmod(1) sub assms(5) by (auto simp: insmod_def)
  next
    case (rmmod n)
    have "loaded_mods (rmmod of_match n b) = remove1 n (loaded_mods b)"
      by (cases n) (simp_all add: rmmod_def Let_def)
    then show ?thesis using rmmod(1) assms(5,6) notin_set_remove1 by fastforce
  next
    case (bind x d pdev)
    then show ?thesis using assms(5,6) by (simp add: bind_def split: outcome.splits prod.splits if_splits)
  qed
  then show ?thesis by (cases m') (simp_all add: rmmod_def)
qed

lemma platform_registration_ignored_witness:
  "stray (rmmod (\<lambda>p. None) (Driver_module By_id)
     (insmod (\<lambda>p. None) (Driver_module By_id) (-16) (insmod (\<lambda>p. None) (Driver_module By_name) 0 empty_bus)))"
proof -
  let ?b = "insmod (\<lambda>p. None) (Driver_module By_name) 0 empty_bus"
  have b: "platform_reach (\<lambda>p. None) table_or_name ?b"
    by (rule move [OF start platform_step.insmod]) (simp_all add: empty_bus_def)
  have step: "platform_step (\<lambda>p. None) table_or_name ?b (insmod (\<lambda>p. None) (Driver_module By_id) (-16) ?b)"
    by (rule platform_step.insmod) (simp_all add: insmod_def empty_bus_def)
  have "bus_name (Driver_module By_name) = bus_name (Driver_module By_id)"
    by (simp add: pltfm_drv_by_name_def pltfm_drv_by_device_id_def)
  from platform_registration_ignored [OF table_or_name_documented b step _ _ _ this]
  show ?thesis by (simp add: insmod_def empty_bus_def)
qed

end
