(* ===== verification/Gpio_Irq.thy ===== *)
theory Gpio_Irq
  imports Kernel Platform
begin

text \<open>
  \<open>16_gpio_interrupt_prog/gpio_interrupt_prog.c\<close>: a platform driver that takes a GPIO line and
  its interrupt and starts a timer. State: the globals \<open>pinctrld\<close>, \<open>gpiod\<close> and \<open>irq\<close>, shared by
  all devices of the driver, and whether \<open>my_timer\<close> is pending. Parameters: the answers of the
  kernel. The timer's race with the remove function is in theory \<open>Deferred\<close>.
\<close>

section \<open>Probe and remove\<close>

record gpio_env =
  pinctrl_ans :: kptr
  gpiod_ans :: kptr
  irq_no :: int  \<comment> \<open>\<open>gpiod_to_irq\<close>\<close>
  irq_ans :: int  \<comment> \<open>\<open>request_any_context_irq\<close>: negative, or the kind of context\<close>
  mod_timer_ans :: int

record gpio_globals =
  pinctrld :: kptr
  gpiod :: kptr
  irq :: int
  my_timer :: bool  \<comment> \<open>pending\<close>

text \<open>What is taken and given back, with the argument of the call.\<close>

datatype gpio_act = Get kptr | Put kptr | Request int int | Free int

definition gpinterrupt_eg_handler :: "int \<Rightarrow> int" where
  \<comment> \<open>\<open>IRQ_HANDLED\<close>, whatever the interrupt\<close>
  "gpinterrupt_eg_handler n = 1"

definition gpio_interrupt_prog_probe ::
    "gpio_env \<Rightarrow> gpio_globals \<Rightarrow> int \<times> gpio_act list \<times> gpio_globals" where
  "gpio_interrupt_prog_probe e g =
     (let g1 = g\<lparr>pinctrld := pinctrl_ans e\<rparr> in
      if IS_ERR (pinctrld g1) then (neg ENODEV, [], g1)
      else let g2 = g1\<lparr>gpiod := gpiod_ans e\<rparr>; t1 = [Get (gpiod g2)] in
      if IS_ERR (gpiod g2) then (neg ENODEV, t1, g2)
      else let g3 = g2\<lparr>irq := irq_no e\<rparr>; ret = irq_ans e; t2 = t1 @ [Request (irq g3) ret] in
      if ret < 0 then (ret, t2 @ [Put (gpiod g3)], g3)
      else let ret = mod_timer_ans e in (0, t2, g3\<lparr>my_timer := True\<rparr>))"

definition gpio_interrupt_prog_remove :: "gpio_globals \<Rightarrow> int \<times> gpio_act list \<times> gpio_globals" where
  "gpio_interrupt_prog_remove g = (0, [Free (irq g), Put (gpiod g)], g\<lparr>my_timer := False\<rparr>)"

section \<open>The module\<close>

definition gpio_of_pcdevs_ids :: "string list" where
  "gpio_of_pcdevs_ids = [''gpio-interrupt,eg'']"

definition gpio_pcdevs_ids :: "(string \<times> nat) list" where
  "gpio_pcdevs_ids = [(''gpio-interrupt,eg'', 0)]"

definition gpio_driver_name :: string where
  "gpio_driver_name = ''gpio-interrupt-eg-driver''"

definition gpio_interrupt_prog_init :: "int \<Rightarrow> int \<times> bus_call list" where
  "gpio_interrupt_prog_init r = (0, [Register r])"

definition gpio_interrupt_prog_exit :: "bus_call list" where
  "gpio_interrupt_prog_exit = [Unregister]"

section \<open>One device after the other\<close>

fun act_call :: "gpio_act \<Rightarrow> kcall" where
  "act_call (Get p) = gpiod_get p"
| "act_call (Put p) = gpiod_put"
| "act_call (Request n r) = request_irq r"
| "act_call (Free n) = free_irq"

definition gpio_load :: "gpio_globals \<Rightarrow> gpio_env \<Rightarrow> int \<times> kcall list" where
  "gpio_load g e = (let (ret, acts, g') = gpio_interrupt_prog_probe e g in (ret, map act_call acts))"

definition gpio_unload :: "gpio_globals \<Rightarrow> kcall list" where
  "gpio_unload g = map act_call (fst (snd (gpio_interrupt_prog_remove g)))"

definition gpio_owned :: "resource list" where
  "gpio_owned = [Irq_line, Gpio_line]"

fun gpio_documented :: "gpio_env \<Rightarrow> bool" where
  "gpio_documented e = (gpiod_ans e \<noteq> Null)"

interpretation gpio_driver:
  module_lifecycle gpio_documented "gpio_load g" gpio_owned "gpio_unload h" for g h
  by unfold_locales
    (auto simp: gpio_load_def gpio_unload_def gpio_interrupt_prog_probe_def gpio_interrupt_prog_remove_def
      gpio_owned_def ledger_simps kptr_answer Let_def split: if_splits)

text \<open>
  Whatever the kernel answers, a probe of the interrupt example that fails holds nothing, one
  that succeeds holds line and interrupt, the remove gives both back, and so any number of
  devices bound and unbound one after the other leaves nothing behind. A timer that cannot
  be started does not make the probe fail.
\<close>

theorem gpio_driver_lifecycle:
  assumes "list_all gpio_documented es" "gpio_documented e"
  shows "ledger [] (gpio_driver.cycles g h es @ snd (gpio_load g e)) =
      Some (if fst (gpio_load g e) = 0 then gpio_owned else []) \<and>
    (fst (gpio_load g e) = 0 \<longleftrightarrow>
       \<not> IS_ERR (pinctrl_ans e) \<and> \<not> IS_ERR (gpiod_ans e) \<and> 0 \<le> irq_ans e) \<and>
    ledger gpio_owned (gpio_unload h) = Some []"
  using gpio_driver.cycles_then_load [OF assms] gpio_driver.unload_frees
  by (auto simp: gpio_load_def gpio_interrupt_prog_probe_def Let_def)

lemma gpio_driver_lifecycle_witness:
  "ledger [] (gpio_driver.cycles g h
      [\<lparr>pinctrl_ans = Ptr 1, gpiod_ans = Ptr 2, irq_no = 7, irq_ans = 0, mod_timer_ans = 0\<rparr>] @
     snd (gpio_load g \<lparr>pinctrl_ans = Ptr 1, gpiod_ans = Ptr 2, irq_no = 7, irq_ans = -16, mod_timer_ans = 0\<rparr>)) = Some []"
proof -
  let ?e = "\<lparr>pinctrl_ans = Ptr 1, gpiod_ans = Ptr 2, irq_no = 7, irq_ans = -16, mod_timer_ans = 0\<rparr>"
  have "fst (gpio_load g ?e) \<noteq> 0" by (simp add: gpio_load_def gpio_interrupt_prog_probe_def Let_def)
  then show ?thesis
    using gpio_driver_lifecycle [of "[\<lparr>pinctrl_ans = Ptr 1, gpiod_ans = Ptr 2, irq_no = 7, irq_ans = 0, mod_timer_ans = 0\<rparr>]" ?e g h]
    by (simp del: gpio_driver.cycles.simps ledger.simps)
qed

section \<open>Several devices at once\<close>

text \<open>
  The system of all devices of the driver: the globals, the lines and interrupts that were
  taken and not yet given back, and the bound devices. \<open>bad_release\<close>: something was given back
  that was not held.
\<close>

record gpio_sys =
  globals :: gpio_globals
  lines :: "kptr list"
  irqs :: "int list"
  bound_devs :: "nat list"
  bad_release :: bool

fun act :: "gpio_act \<Rightarrow> gpio_sys \<Rightarrow> gpio_sys" where
  "act (Get p) s = (if IS_ERR p then s else s\<lparr>lines := p # lines s\<rparr>)"
| "act (Put p) s = (if p \<in> set (lines s) then s\<lparr>lines := remove1 p (lines s)\<rparr> else s\<lparr>bad_release := True\<rparr>)"
| "act (Request n r) s = (if r < 0 then s else s\<lparr>irqs := n # irqs s\<rparr>)"
| "act (Free n) s = (if n \<in> set (irqs s) then s\<lparr>irqs := remove1 n (irqs s)\<rparr> else s\<lparr>bad_release := True\<rparr>)"

datatype gpio_event = Bind nat gpio_env | Unbind nat

fun gpio_step :: "gpio_event \<Rightarrow> gpio_sys \<Rightarrow> gpio_sys" where
  "gpio_step (Bind d e) s =
     (let (ret, acts, g) = gpio_interrupt_prog_probe e (globals s);
          s' = fold act acts (s\<lparr>globals := g\<rparr>) in
      if ret = 0 then s'\<lparr>bound_devs := d # bound_devs s'\<rparr> else s')"
| "gpio_step (Unbind d) s =
     (if d \<in> set (bound_devs s) then
        let (ret, acts, g) = gpio_interrupt_prog_remove (globals s);
            s' = fold act acts (s\<lparr>globals := g\<rparr>) in
        s'\<lparr>bound_devs := remove1 d (bound_devs s')\<rparr>
      else s)"

definition gpio_run :: "gpio_sys \<Rightarrow> gpio_event list \<Rightarrow> gpio_sys" where
  "gpio_run s es = fold gpio_step es s"

text \<open>The driver core binds the next device only when none is bound.\<close>

fun one_by_one :: "gpio_event list \<Rightarrow> gpio_sys \<Rightarrow> bool" where
  "one_by_one [] s = True"
| "one_by_one (Bind d e # es) s = (bound_devs s = [] \<and> one_by_one es (gpio_step (Bind d e) s))"
| "one_by_one (Unbind d # es) s = one_by_one es (gpio_step (Unbind d) s)"

definition gpio_fresh :: "gpio_sys \<Rightarrow> bool" where
  "gpio_fresh s \<longleftrightarrow> lines s = [] \<and> irqs s = [] \<and> bound_devs s = [] \<and> \<not> bad_release s"

definition gpio_inv :: "gpio_sys \<Rightarrow> bool" where
  "gpio_inv s \<longleftrightarrow> gpio_fresh s \<or>
     (lines s = [gpiod (globals s)] \<and> irqs s = [irq (globals s)] \<and> length (bound_devs s) = 1 \<and> \<not> bad_release s)"

definition accepted :: "gpio_env \<Rightarrow> bool" where
  "accepted e \<longleftrightarrow> \<not> IS_ERR (pinctrl_ans e) \<and> \<not> IS_ERR (gpiod_ans e) \<and> 0 \<le> irq_ans e"

lemma probe_accepted:
  "accepted e \<Longrightarrow> gpio_interrupt_prog_probe e g =
    (0, [Get (gpiod_ans e), Request (irq_no e) (irq_ans e)],
     g\<lparr>pinctrld := pinctrl_ans e, gpiod := gpiod_ans e, irq := irq_no e, my_timer := True\<rparr>)"
  by (simp add: accepted_def gpio_interrupt_prog_probe_def Let_def)

lemma probe_refused:
  "\<not> accepted e \<Longrightarrow> fst (gpio_interrupt_prog_probe e g) \<noteq> 0 \<and>
    fold act (fst (snd (gpio_interrupt_prog_probe e g))) s = s"
  by (auto simp: accepted_def gpio_interrupt_prog_probe_def Let_def)

lemma bind_inv_gpio:
  assumes "gpio_inv s" "bound_devs s = []"
  shows "gpio_inv (gpio_step (Bind d e) s)"
proof (cases "accepted e")
  case True
  then show ?thesis
    using assms by (auto simp: gpio_inv_def gpio_fresh_def probe_accepted accepted_def)
next
  case False
  then show ?thesis
    using assms probe_refused [OF False, of "globals s"]
    by (cases "gpio_interrupt_prog_probe e (globals s)") (auto simp: gpio_inv_def gpio_fresh_def)
qed

lemma unbind_inv_gpio: "gpio_inv s \<Longrightarrow> gpio_inv (gpio_step (Unbind d) s)"
  by (auto simp: gpio_inv_def gpio_fresh_def gpio_interrupt_prog_remove_def length_Suc_conv)

lemma gpio_run_inv: "gpio_inv s \<Longrightarrow> one_by_one es s \<Longrightarrow> gpio_inv (gpio_run s es)"
proof (induction es arbitrary: s)
  case (Cons x es)
  then show ?case
    by (cases x) (simp_all add: gpio_run_def bind_inv_gpio unbind_inv_gpio del: gpio_step.simps)
qed (simp add: gpio_run_def)

lemma two_bound:
  assumes "gpio_fresh s" "accepted e1" "accepted e2"
  shows "\<exists>g. gpio_step (Bind d2 e2) (gpio_step (Bind d1 e1) s) =
      \<lparr>globals = g, lines = [gpiod_ans e2, gpiod_ans e1], irqs = [irq_no e2, irq_no e1], bound_devs = [d2, d1], bad_release = False\<rparr> \<and>
    gpiod g = gpiod_ans e2 \<and> irq g = irq_no e2"
  using assms by (cases s) (simp add: gpio_fresh_def probe_accepted accepted_def)

lemma unbind_two:
  assumes "lines s = [gpiod (globals s), p]" "irqs s = [irq (globals s), n]" "p \<noteq> gpiod (globals s)"
    and "x \<in> set (bound_devs s)" "y \<in> set (remove1 x (bound_devs s))"
  defines "z \<equiv> gpio_step (Unbind y) (gpio_step (Unbind x) s)"
  shows "bound_devs z = remove1 y (remove1 x (bound_devs s))" "bad_release z" "lines z = [p]"
  using assms by (simp_all add: gpio_interrupt_prog_remove_def Let_def)

text \<open>
  C36: The globals \<open>gpiod\<close> and \<open>irq\<close> carry one device. As long as devices are bound one after the
  other nothing is leaked or given back twice, whatever the kernel answers. But as soon as two
  devices are bound together, their removal in either order gives the second line back twice
  and the first one never.
\<close>

theorem gpio_globals_carry_one_device:
  assumes "gpio_fresh s"
  shows "(\<forall>es. one_by_one es s \<longrightarrow> (let z = gpio_run s es in \<not> bad_release z \<and>
      length (lines z) = length (bound_devs z) \<and> length (irqs z) = length (bound_devs z))) \<and>
    (\<forall>d1 e1 d2 e2 x y. accepted e1 \<and> accepted e2 \<and> d1 \<noteq> d2 \<and> {x, y} = {d1, d2} \<and> gpiod_ans e1 \<noteq> gpiod_ans e2 \<longrightarrow>
      (let z = gpio_run s [Bind d1 e1, Bind d2 e2, Unbind x, Unbind y] in
       bound_devs z = [] \<and> bad_release z \<and> lines z = [gpiod_ans e1]))"
proof -
  have "gpio_inv s" using assms by (simp add: gpio_inv_def)
  then have "\<not> bad_release z \<and> length (lines z) = length (bound_devs z) \<and> length (irqs z) = length (bound_devs z)"
    if "one_by_one es s" "z = gpio_run s es" for es z
    using gpio_run_inv [of s es] that by (auto simp: gpio_inv_def gpio_fresh_def)
  moreover have "bound_devs z = [] \<and> bad_release z \<and> lines z = [gpiod_ans e1]"
    if "accepted e1" "accepted e2" "d1 \<noteq> d2" "{x, y} = {d1, d2}" "gpiod_ans e1 \<noteq> gpiod_ans e2"
      and z: "z = gpio_run s [Bind d1 e1, Bind d2 e2, Unbind x, Unbind y]" for d1 e1 d2 e2 x y z
  proof -
    note hyps = that
    obtain t where t: "gpio_step (Bind d2 e2) (gpio_step (Bind d1 e1) s) = t" "bound_devs t = [d2, d1]"
        "lines t = [gpiod (globals t), gpiod_ans e1]" "irqs t = [irq (globals t), irq_no e1]" "gpiod (globals t) = gpiod_ans e2"
      using two_bound [OF assms hyps(1,2), of d2 d1] by auto
    have order: "remove1 y (remove1 x (bound_devs t)) = []" "x \<in> set (bound_devs t)" "y \<in> set (remove1 x (bound_devs t))"
      using hyps(3,4) by (auto simp: t(2) doubleton_eq_iff)
    have zt: "z = gpio_step (Unbind y) (gpio_step (Unbind x) t)"
      using t(1) by (simp add: z gpio_run_def del: gpio_step.simps)
    have "gpiod_ans e1 \<noteq> gpiod (globals t)" using hyps(5) t(5) by simp
    note after = unbind_two [OF t(3,4) this order(2,3)]
    show ?thesis unfolding zt by (simp only: after order(1) simp_thms)
  qed
  ultimately show ?thesis unfolding Let_def by blast
qed

lemma gpio_globals_carry_one_device_witness:
  "let e = \<lambda>n. \<lparr>pinctrl_ans = Ptr 1, gpiod_ans = Ptr n, irq_no = 7, irq_ans = 0, mod_timer_ans = 0\<rparr> in
   bad_release (gpio_run \<lparr>globals = \<lparr>pinctrld = Null, gpiod = Null, irq = 0, my_timer = False\<rparr>, lines = [], irqs = [],
       bound_devs = [], bad_release = False\<rparr> [Bind 1 (e 5), Bind 2 (e 6), Unbind 1, Unbind 2])"
proof -
  let ?e = "\<lambda>n. \<lparr>pinctrl_ans = Ptr 1, gpiod_ans = Ptr n, irq_no = 7, irq_ans = 0, mod_timer_ans = 0\<rparr>"
    and ?s = "\<lparr>globals = \<lparr>pinctrld = Null, gpiod = Null, irq = 0, my_timer = False\<rparr>, lines = [], irqs = [],
       bound_devs = [], bad_release = False\<rparr>"
  have "gpio_fresh ?s" by (simp add: gpio_fresh_def)
  note two = conjunct2 [OF gpio_globals_carry_one_device [OF this], rule_format, of "?e 5" "?e 6" 1 2 1 2]
  have "accepted (?e 5)" "accepted (?e 6)" by (simp_all add: accepted_def)
  with two show ?thesis by (simp add: Let_def)
qed

end
