(* ===== verification/Locked_Copy.thy ===== *)
theory Locked_Copy
  imports Kernel Refinement "HOL-Library.Product_Lexorder"
begin

text \<open>
  \<open>06_mutex_prog/mutex_prog.c\<close> and \<open>07_spinlock_prog/spinlock_prog.c\<close>: a module's init function
  and a work item it queues copy, byte by byte, two different texts into one shared array
  under a lock. The model is a step relation over both threads: every store to the array,
  every print and every lock operation is a step of its own. The two programs differ in one
  thing: waiting for the mutex can be interrupted by a signal (\<open>intr\<close>), waiting for the
  spinlock cannot. \<open>atomic_write\<close> is the specification that the copies refine.
\<close>

section \<open>Threads and their program counters\<close>

datatype thread = Init | Work

datatype pc = Idle | Print_before | Lock | Copy nat | Print_after | Unlock | Finished | Gave_up

fun pc_rank :: "pc \<Rightarrow> nat \<times> nat" where
  "pc_rank Idle = (0, 0)"
| "pc_rank Print_before = (1, 0)"
| "pc_rank Lock = (2, 0)"
| "pc_rank (Copy i) = (3, i)"
| "pc_rank Print_after = (4, 0)"
| "pc_rank Unlock = (5, 0)"
| "pc_rank Finished = (6, 0)"
| "pc_rank Gave_up = (7, 0)"

text \<open>Program counters are ordered by the order of the statements.\<close>

lemma pc_rank_inj: "pc_rank p = pc_rank q \<Longrightarrow> p = q"
  by (cases p; cases q; simp)

instantiation pc :: linorder
begin

definition less_eq_pc :: "pc \<Rightarrow> pc \<Rightarrow> bool" where
  "less_eq_pc p q \<longleftrightarrow> pc_rank p \<le> pc_rank q"

definition less_pc :: "pc \<Rightarrow> pc \<Rightarrow> bool" where
  "less_pc p q \<longleftrightarrow> pc_rank p < pc_rank q"

instance
  by standard (auto simp: less_eq_pc_def less_pc_def intro: pc_rank_inj)

end

section \<open>The shared state\<close>

definition LEN :: nat where "LEN = 7"

definition roshan :: "u8 list" where
  \<comment> \<open>the initial text \<open>ROSHAN\<close> with its NUL\<close>
  "roshan = [82, 79, 83, 72, 65, 78, 0]"

fun tmp :: "thread \<Rightarrow> u8 list" where
  "tmp Init = [99, 114, 101, 97, 116, 111, 0]"  \<comment> \<open>\<open>creato\<close>\<close>
| "tmp Work = [97, 100, 109, 105, 114, 101, 0]"  \<comment> \<open>\<open>admire\<close>\<close>

record shared =
  pcs :: "thread \<Rightarrow> pc"
  owner :: "thread option"
  data :: "u8 list"
  printed_data :: "u8 list list"
  loaded :: bool  \<comment> \<open>the module's code and data are in memory\<close>
  crashed :: bool

definition shared_start :: shared where
  "shared_start = \<lparr>pcs = (\<lambda>t. Idle), owner = None, data = roshan, printed_data = [],
     loaded = True, crashed = False\<rparr>"

definition goto :: "thread \<Rightarrow> pc \<Rightarrow> shared \<Rightarrow> shared" where
  "goto t p s = s\<lparr>pcs := (pcs s)(t := p)\<rparr>"

definition print :: "shared \<Rightarrow> shared" where
  "print s = s\<lparr>printed_data := printed_data s @ [data s]\<rparr>"

section \<open>The steps\<close>

datatype action = Run thread | Signal thread | Unload

text \<open>
  One statement of a thread: \<open>schedule_work\<close> of the init function makes the work runnable; the
  rest is the same code in both. \<open>None\<close>: the thread cannot take a step (it waits or is done).
\<close>

fun run_thread :: "thread \<Rightarrow> shared \<Rightarrow> shared option" where
  "run_thread t s = (case pcs s t of
       Idle \<Rightarrow> if t = Init then Some (goto Work Print_before (goto Init Print_before s)) else None
     | Print_before \<Rightarrow> Some (goto t Lock (print s))
     | Lock \<Rightarrow> if owner s = None then Some (goto t (Copy 0) (s\<lparr>owner := Some t\<rparr>)) else None
     | Copy i \<Rightarrow>
         if i < LEN - 1 then Some (goto t (Copy (Suc i)) (s\<lparr>data := (data s)[i := tmp t ! i]\<rparr>))
         else Some (goto t Print_after (s\<lparr>data := (data s)[i := 0]\<rparr>))
     | Print_after \<Rightarrow> Some (goto t Unlock (print s))
     | Unlock \<Rightarrow> Some (goto t Finished (s\<lparr>owner := None\<rparr>))
     | Finished \<Rightarrow> None
     | Gave_up \<Rightarrow> None)"

text \<open>
  A signal ends the wait for the mutex; the init function then returns \<open>-ERESTARTSYS\<close> and the
  kernel discards the module. The exit functions do not wait for the work. A step of the work
  after the module is gone runs in freed memory.
\<close>

fun fire :: "bool \<Rightarrow> action \<Rightarrow> shared \<Rightarrow> shared option" where
  "fire intr (Run t) s =
     (if crashed s then None
      else if t = Work \<and> \<not> loaded s \<and> pcs s Work \<notin> {Idle, Finished, Gave_up} then Some (s\<lparr>crashed := True\<rparr>)
      else run_thread t s)"
| "fire intr (Signal t) s =
     (if \<not> crashed s \<and> intr \<and> pcs s t = Lock \<and> (t = Work \<longrightarrow> loaded s) \<and>
         mutex_lock_interruptible True (owner s \<noteq> None) = Interrupted
      then Some (goto t Gave_up (if t = Init then s\<lparr>loaded := False\<rparr> else s)) else None)"
| "fire intr Unload s =
     (if \<not> crashed s \<and> pcs s Init = Finished \<and> loaded s then Some (s\<lparr>loaded := False\<rparr>) else None)"

inductive copy_step :: "bool \<Rightarrow> shared \<Rightarrow> shared \<Rightarrow> bool" for intr where
  fire: "fire intr a s = Some s' \<Longrightarrow> copy_step intr s s'"

inductive copy_reach :: "bool \<Rightarrow> shared \<Rightarrow> bool" for intr where
  boot: "copy_reach intr shared_start"
| move: "copy_reach intr s \<Longrightarrow> copy_step intr s s' \<Longrightarrow> copy_reach intr s'"

inductive_cases copy_stepE: "copy_step intr s s'"

lemmas step_defs = goto_def print_def

section \<open>The locked region\<close>

definition inside :: "thread \<Rightarrow> shared \<Rightarrow> bool" where
  "inside t s \<longleftrightarrow> Copy 0 \<le> pcs s t \<and> pcs s t \<le> Unlock"

lemma inside_simps [simp]:
  "inside t s \<longleftrightarrow> (\<exists>i. pcs s t = Copy i) \<or> pcs s t = Print_after \<or> pcs s t = Unlock"
  by (cases "pcs s t") (auto simp: inside_def less_eq_pc_def)

lemma run_thread_cases:
  assumes "run_thread t s = Some s'"
  obtains (schedule) "t = Init" "pcs s t = Idle" "s' = goto Work Print_before (goto Init Print_before s)"
  | (before) "pcs s t = Print_before" "s' = goto t Lock (print s)"
  | (lock) "pcs s t = Lock" "owner s = None" "s' = goto t (Copy 0) (s\<lparr>owner := Some t\<rparr>)"
  | (copy) i where "pcs s t = Copy i" "i < 6" "s' = goto t (Copy (Suc i)) (s\<lparr>data := (data s)[i := tmp t ! i]\<rparr>)"
  | (terminate) i where "pcs s t = Copy i" "6 \<le> i" "s' = goto t Print_after (s\<lparr>data := (data s)[i := 0]\<rparr>)"
  | (after) "pcs s t = Print_after" "s' = goto t Unlock (print s)"
  | (unlock) "pcs s t = Unlock" "s' = goto t Finished (s\<lparr>owner := None\<rparr>)"
  using assms by (cases "pcs s t") (auto simp: LEN_def split: if_splits)

declare run_thread.simps [simp del]

lemma step_cases:
  assumes "copy_step intr s s'"
  obtains (thread) t where "run_thread t s = Some s'" "\<not> crashed s"
  | (crash) "s' = s\<lparr>crashed := True\<rparr>" "\<not> crashed s" "\<not> loaded s" "pcs s Work \<notin> {Idle, Finished, Gave_up}"
  | (signal) t where "pcs s t = Lock" "s' = goto t Gave_up (if t = Init then s\<lparr>loaded := False\<rparr> else s)" "\<not> crashed s"
      "owner s \<noteq> None"
  | (unload) "s' = s\<lparr>loaded := False\<rparr>" "pcs s Init = Finished" "\<not> crashed s" "loaded s"
  using assms
proof (rule copy_stepE)
  fix a assume "fire intr a s = Some s'"
  then show thesis
    by (cases a)
       (auto simp: mutex_lock_interruptible_def split: if_splits
         intro: thread crash signal unload)
qed

interpretation copy_lock: lock_discipline "copy_step intr" shared_start owner inside for intr
proof unfold_locales
  fix t show "\<not> inside t shared_start" by (simp add: shared_start_def)
next
  fix s s' t
  assume "copy_step intr s s'" "\<not> inside t s" "inside t s'"
  then show "owner s = None \<and> owner s' = Some t"
    by (elim step_cases run_thread_cases) (auto simp: step_defs split: if_splits)
next
  fix s s' t
  assume step: "copy_step intr s s'" and hold: "\<And>u. inside u s \<Longrightarrow> owner s = Some u"
    and t: "inside t s" "inside t s'"
  have own: "owner s = Some t" using hold t(1) .
  have "u = t" if "pcs s u = Unlock" for u using hold [of u] that own by simp
  with own have own: "owner s = Some t" "\<And>u. pcs s u = Unlock \<Longrightarrow> u = t" by simp_all
  show "owner s' = Some t"
    using step own t by (elim step_cases run_thread_cases) (auto simp: step_defs split: if_splits)
qed

text \<open>Reachability as a rule set and as a closure are the same thing.\<close>

lemma copy_reach_steps: "copy_reach intr s \<longleftrightarrow> (copy_step intr)\<^sup>*\<^sup>* shared_start s"
proof
  show "copy_reach intr s \<Longrightarrow> (copy_step intr)\<^sup>*\<^sup>* shared_start s"
    by (induction rule: copy_reach.induct) (auto intro: rtranclp.rtrancl_into_rtrancl)
  show "(copy_step intr)\<^sup>*\<^sup>* shared_start s \<Longrightarrow> copy_reach intr s"
    by (induction rule: rtranclp_induct) (auto intro: copy_reach.intros)
qed

lemma reach_owner: "copy_reach intr s \<Longrightarrow> inside t s \<Longrightarrow> owner s = Some t"
  using copy_lock.inside_holds copy_reach_steps by blast

section \<open>The invariant of the array\<close>

definition texts :: "u8 list set" where
  "texts = {roshan, tmp Init, tmp Work}"

definition array_inv :: "shared \<Rightarrow> bool" where
  "array_inv s \<longleftrightarrow> length (data s) = 7 \<and>
     (\<forall>t i. pcs s t = Copy i \<longrightarrow> i \<le> 6 \<and> take i (data s) = take i (tmp t)) \<and>
     (\<forall>t. pcs s t = Print_after \<or> pcs s t = Unlock \<longrightarrow> data s = tmp t) \<and>
     ((\<forall>t. \<not> inside t s) \<longrightarrow> data s \<in> texts \<and> ((\<exists>t. pcs s t = Finished) \<longrightarrow> data s \<noteq> roshan))"

lemma tmp_props: "length (tmp t) = 7" "tmp t \<in> texts" "tmp t \<noteq> roshan" "tmp t ! 6 = 0"
  by (cases t; simp add: texts_def roshan_def)+

lemma copy_one:
  assumes "length d = 7" "take i d = take i (tmp t)" "i < 6"
  shows "take (Suc i) (d[i := tmp t ! i]) = take (Suc i) (tmp t)"
  using assms tmp_props(1) [of t] by (simp add: take_Suc_conv_app_nth)

lemma copy_terminator:
  assumes "length d = 7" "take 6 d = take 6 (tmp t)"
  shows "d[6 := 0] = tmp t"
proof -
  have split: "xs = take 6 xs @ [xs ! 6]" if "length xs = 7" for xs :: "u8 list"
    using that take_Suc_conv_app_nth [of 6 xs] by simp
  have "d[6 := 0] = take 6 d @ [0]"
    using split [of "d[6 := 0]"] assms(1) by simp
  also have "\<dots> = tmp t"
    using split [of "tmp t"] assms(2) tmp_props [of t] by simp
  finally show ?thesis .
qed

lemma array_invD:
  assumes "array_inv s"
  shows "length (data s) = 7" "pcs s t = Copy i \<Longrightarrow> i \<le> 6" "pcs s t = Copy i \<Longrightarrow> take i (data s) = take i (tmp t)"
    "pcs s t = Print_after \<Longrightarrow> data s = tmp t" "pcs s t = Unlock \<Longrightarrow> data s = tmp t"
    "(\<And>t. \<not> inside t s) \<Longrightarrow> data s \<in> texts"
    "(\<And>t. \<not> inside t s) \<Longrightarrow> pcs s u = Finished \<Longrightarrow> data s \<noteq> roshan"
  using assms unfolding array_inv_def by blast+

text \<open>Moves outside the critical section keep the invariant.\<close>

lemma array_inv_frame:
  assumes "array_inv s" "data s' = data s"
    and outside: "\<And>u. pcs s' u = pcs s u \<or> (\<not> inside u s \<and> pcs s' u \<in> {Print_before, Lock, Gave_up})"
  shows "array_inv s'"
proof -
  note inv = array_invD [OF assms(1)]
  have same: "pcs s' u = pcs s u" if "inside u s'" for u
    using outside [of u] that by auto
  have same_out: "inside u s' \<longleftrightarrow> inside u s" for u
  proof (cases "pcs s' u = pcs s u")
    case False
    then show ?thesis using outside [of u] by auto
  qed simp
  have fin: "pcs s u = Finished" if "pcs s' u = Finished" for u
    using outside [of u] that by auto
  show ?thesis
    unfolding array_inv_def assms(2)
  proof (intro conjI allI impI)
    fix t i assume "pcs s' t = Copy i"
    moreover from this have "pcs s' t = pcs s t" by (intro same) simp
    ultimately show "i \<le> 6" "take i (data s) = take i (tmp t)" using inv(2,3) [of t i] by simp_all
  next
    fix t assume "pcs s' t = Print_after \<or> pcs s' t = Unlock"
    moreover from this have "pcs s' t = pcs s t" by (intro same) auto
    ultimately show "data s = tmp t" using inv(4,5) [of t] by auto
  next
    assume "\<forall>t. \<not> inside t s'"
    then show "data s \<in> texts" using inv(6) same_out by blast
  next
    assume "\<forall>t. \<not> inside t s'" "\<exists>t. pcs s' t = Finished"
    then show "data s \<noteq> roshan" using inv(7) same_out fin by blast
  qed (rule inv(1))
qed

lemma array_inv_step:
  assumes "copy_step intr s s'" "array_inv s" "\<And>t. inside t s \<Longrightarrow> owner s = Some t"
    and "pcs s Init = Idle \<Longrightarrow> pcs s Work = Idle"
  shows "array_inv s'"
  using assms(1)
proof (cases rule: step_cases)
  case (thread t)
  note inv = array_invD [OF assms(2)]
  have alone: "(\<forall>i. pcs s u \<noteq> Copy i) \<and> pcs s u \<noteq> Print_after \<and> pcs s u \<noteq> Unlock" if "inside t s" "u \<noteq> t" for u
    using assms(3) [of u] assms(3) [of t] that by auto
  from thread(1) show ?thesis
  proof (cases rule: run_thread_cases)
    case (copy i)
    have "take (Suc i) ((data s)[i := tmp t ! i]) = take (Suc i) (tmp t)"
      using inv(1) inv(3) [OF copy(1)] copy(2) by (rule copy_one)
    moreover have "(\<forall>j. pcs s u \<noteq> Copy j) \<and> pcs s u \<noteq> Print_after \<and> pcs s u \<noteq> Unlock" if "u \<noteq> t" for u
      using alone [of u] that copy(1) by simp
    ultimately show ?thesis using copy inv(1) unfolding array_inv_def step_defs
      by (auto simp del: take_Suc)
  next
    case (terminate i)
    then have i: "i = 6" using inv(2) [OF terminate(1)] by simp
    have "(data s)[6 := 0] = tmp t"
      using inv(1) inv(3) [OF terminate(1)] unfolding i by (rule copy_terminator)
    moreover have "(\<forall>j. pcs s u \<noteq> Copy j) \<and> pcs s u \<noteq> Print_after \<and> pcs s u \<noteq> Unlock" if "u \<noteq> t" for u
      using alone [of u] that terminate(1) by simp
    ultimately show ?thesis using terminate i inv(1) tmp_props(1) [of t] by (auto simp: array_inv_def step_defs)
  next
    case after
    have "(\<forall>j. pcs s u \<noteq> Copy j) \<and> pcs s u \<noteq> Print_after \<and> pcs s u \<noteq> Unlock" if "u \<noteq> t" for u
      using alone [of u] that after(1) by simp
    then show ?thesis using after inv(1) inv(4) [OF after(1)] by (auto simp: array_inv_def step_defs)
  next
    case unlock
    have "(\<forall>j. pcs s u \<noteq> Copy j) \<and> pcs s u \<noteq> Print_after \<and> pcs s u \<noteq> Unlock" if "u \<noteq> t" for u
      using alone [of u] that unlock(1) by simp
    then show ?thesis using unlock inv(1) inv(5) [OF unlock(1)] tmp_props(2,3) [of t]
      by (auto simp: array_inv_def step_defs)
  next
    case lock
    then show ?thesis using assms(2,3) by (auto simp: array_inv_def step_defs)
  qed (use assms(4) in \<open>auto intro!: array_inv_frame [OF assms(2)] simp: step_defs split: if_splits\<close>)
qed (auto intro!: array_inv_frame [OF assms(2)] simp: step_defs split: if_splits)

lemma reach_idle: "copy_reach intr s \<Longrightarrow> pcs s Init = Idle \<Longrightarrow> pcs s Work = Idle"
proof (induction rule: copy_reach.induct)
  case (move s s')
  from move.hyps(2) show ?case
  proof (cases rule: step_cases)
    case (thread t)
    from thread(1) show ?thesis
      using move.IH move.prems by (cases rule: run_thread_cases; cases t) (auto simp: step_defs)
  qed (use move.IH move.prems in \<open>auto simp: step_defs split: if_splits\<close>)
qed (simp add: shared_start_def)

lemma reach_array: "copy_reach intr s \<Longrightarrow> array_inv s"
proof (induction rule: copy_reach.induct)
  case boot
  then show ?case by (simp add: array_inv_def shared_start_def texts_def roshan_def)
next
  case (move s s')
  show ?case
    by (rule array_inv_step [OF move.hyps(2) move.IH reach_owner [OF move.hyps(1)] reach_idle [OF move.hyps(1)]])
qed

section \<open>The copies as atomic writes\<close>

text \<open>
  What the lock is for: seen from outside the locked region, each thread replaces the text in
  one indivisible step, at most once. The step takes effect when the thread gets the lock.
\<close>

record atomic_text =
  current :: "u8 list"
  writers :: "thread set"  \<comment> \<open>the threads whose write has taken effect\<close>

inductive atomic_write :: "atomic_text \<Rightarrow> atomic_text \<Rightarrow> bool" where
  "t \<notin> writers a \<Longrightarrow> atomic_write a \<lparr>current = tmp t, writers = insert t (writers a)\<rparr>"

inductive_simps atomic_write_iff: "atomic_write a b"

definition atomic_start :: atomic_text where
  "atomic_start = \<lparr>current = roshan, writers = {}\<rparr>"

fun entered :: "pc \<Rightarrow> bool" where
  "entered (Copy i) = True"
| "entered Print_after = True"
| "entered Unlock = True"
| "entered Finished = True"
| "entered _ = False"

definition atomic_view :: "shared \<Rightarrow> atomic_text" where
  "atomic_view s = \<lparr>current = (case owner s of None \<Rightarrow> data s | Some t \<Rightarrow> tmp t),
     writers = {t. entered (pcs s t)}\<rparr>"

lemma atomic_view_eqI:
  "owner s' = owner s \<Longrightarrow> (owner s = None \<Longrightarrow> data s' = data s) \<Longrightarrow> (\<And>t. entered (pcs s' t) = entered (pcs s t)) \<Longrightarrow>
   atomic_view s' = atomic_view s"
  by (simp add: atomic_view_def split: option.splits)

lemma run_thread_atomic:
  assumes "run_thread t s = Some s'" "array_inv s" "\<And>t. inside t s \<Longrightarrow> owner s = Some t"
    and "pcs s Init = Idle \<Longrightarrow> pcs s Work = Idle"
  shows "atomic_write (atomic_view s) (atomic_view s') \<or> atomic_view s' = atomic_view s"
  using assms(1)
proof (cases rule: run_thread_cases)
  case lock
  have "writers (atomic_view s') = insert t (writers (atomic_view s))" "t \<notin> writers (atomic_view s)"
    using lock by (auto simp: atomic_view_def step_defs)
  moreover have "current (atomic_view s') = tmp t"
    using lock by (simp add: atomic_view_def step_defs)
  ultimately have "atomic_write (atomic_view s) (atomic_view s')"
    unfolding atomic_write_iff by (intro exI [of _ t]) simp
  then show ?thesis ..
next
  case unlock
  have own: "owner s = Some t" and d: "data s = tmp t"
    using assms(3) [of t] array_invD(5) [OF assms(2) unlock(1)] unlock(1) by simp_all
  then have "atomic_view s' = atomic_view s"
    using unlock by (auto simp: atomic_view_def step_defs)
  then show ?thesis ..
next
  case schedule
  then have "atomic_view s' = atomic_view s"
    using assms(4) by (intro atomic_view_eqI) (auto simp: step_defs)
  then show ?thesis ..
next
  case (copy i)
  then have "atomic_view s' = atomic_view s"
    using assms(3) [of t] by (intro atomic_view_eqI) (auto simp: step_defs)
  then show ?thesis ..
next
  case (terminate i)
  then have "atomic_view s' = atomic_view s"
    using assms(3) [of t] by (intro atomic_view_eqI) (auto simp: step_defs)
  then show ?thesis ..
qed (auto simp: step_defs intro!: disjI2 atomic_view_eqI split: if_split_asm)

interpretation copy_atomic: stuttering "copy_step intr" shared_start atomic_write atomic_view for intr
proof
  fix s s'
  assume "(copy_step intr)\<^sup>*\<^sup>* shared_start s" and step: "copy_step intr s s'"
  then have reach: "copy_reach intr s" by (simp add: copy_reach_steps)
  from step show "atomic_write (atomic_view s) (atomic_view s') \<or> atomic_view s' = atomic_view s"
  proof (cases rule: step_cases)
    case (thread t)
    show ?thesis
      by (rule run_thread_atomic [OF thread(1) reach_array [OF reach] reach_owner [OF reach] reach_idle [OF reach]])
  next
    case (signal t)
    then show ?thesis by (intro disjI2 atomic_view_eqI) (auto simp: step_defs)
  qed (auto intro!: disjI2 atomic_view_eqI)
qed

lemma atomic_view_start: "atomic_view shared_start = atomic_start"
  by (simp add: atomic_view_def atomic_start_def shared_start_def)

section \<open>Progress\<close>

fun weight :: "pc \<Rightarrow> nat" where
  "weight Idle = 14"
| "weight Print_before = 13"
| "weight Lock = 12"
| "weight (Copy i) = 4 + (7 - i)"
| "weight Print_after = 3"
| "weight Unlock = 2"
| "weight Finished = 0"
| "weight Gave_up = 0"

definition remaining :: "shared \<Rightarrow> nat" where
  "remaining s = weight (pcs s Init) + weight (pcs s Work) + of_bool (loaded s) + of_bool (\<not> crashed s)"

lemma step_decreases:
  assumes "copy_step intr s s'" "pcs s Init = Idle \<Longrightarrow> pcs s Work = Idle"
  shows "remaining s' < remaining s \<and> pcs s u \<le> pcs s' u"
  using assms(1)
proof (cases rule: step_cases)
  case (thread t)
  from thread(1) show ?thesis
    using assms(2)
    by (cases rule: run_thread_cases; cases t; cases u) (auto simp: step_defs less_eq_pc_def remaining_def)
next
  case (signal t)
  then show ?thesis by (cases t; cases u) (auto simp: step_defs less_eq_pc_def remaining_def)
qed (auto simp: less_eq_pc_def remaining_def)

text \<open>Nothing is left to do: the work is done, and the module is gone or cannot be unloaded yet.\<close>

definition over :: "shared \<Rightarrow> bool" where
  "over s \<longleftrightarrow> crashed s \<or> (\<not> loaded s \<and> (\<forall>t. pcs s t = Finished \<or> pcs s t = Gave_up))"

lemma run_thread_moves:
  assumes "t = Init \<or> pcs s t \<noteq> Idle" "pcs s t \<noteq> Finished" "pcs s t \<noteq> Gave_up"
    "pcs s t = Lock \<Longrightarrow> owner s = None"
  shows "run_thread t s \<noteq> None"
  using assms by (cases "pcs s t") (auto simp: run_thread.simps LEN_def)

text \<open>When the owner of the lock is inside, somebody can always move.\<close>

definition lock_ok :: "shared \<Rightarrow> bool" where
  "lock_ok s \<longleftrightarrow> (\<forall>t. owner s = Some t \<longrightarrow> inside t s) \<and> (pcs s Work = Idle \<longrightarrow> pcs s Init = Idle) \<and>
     (pcs s Init = Gave_up \<longrightarrow> \<not> loaded s) \<and> (\<not> loaded s \<longrightarrow> pcs s Init = Gave_up \<or> pcs s Init = Finished) \<and>
     (crashed s \<longrightarrow> \<not> loaded s)"

lemma reach_lock_ok: "copy_reach intr s \<Longrightarrow> lock_ok s"
proof (induction rule: copy_reach.induct)
  case boot
  then show ?case by (simp add: lock_ok_def shared_start_def)
next
  case (move s s')
  note ok = move.IH [unfolded lock_ok_def] and owned = reach_owner [OF move.hyps(1)]
  from move.hyps(2) show ?case
  proof (cases rule: step_cases)
    case (thread t)
    have free: "owner s = Some t" if "inside t s" using owned that .
    from thread(1) show ?thesis
      using ok free reach_idle [OF move.hyps(1)] unfolding lock_ok_def
      by (cases rule: run_thread_cases; cases t) (auto simp: step_defs)
  next
    case (signal t)
    then show ?thesis using ok unfolding lock_ok_def by (cases t) (auto simp: step_defs)
  qed (use ok in \<open>auto simp: lock_ok_def\<close>)
qed

lemma can_move:
  assumes "copy_reach intr s" "\<not> over s"
  shows "\<exists>s'. copy_step intr s s'"
proof -
  note ok = reach_lock_ok [OF assms(1), unfolded lock_ok_def]
  have idle: "pcs s Init = Idle \<longleftrightarrow> pcs s Work = Idle"
    using ok reach_idle [OF assms(1)] by blast
  have run: "\<exists>s'. copy_step intr s s'" if "run_thread t s \<noteq> None" "\<not> crashed s" for t
  proof -
    have "fire intr (Run t) s \<noteq> None" using that by simp
    then show ?thesis by (blast intro: copy_step.fire)
  qed
  have nc: "\<not> crashed s" using assms(2) by (simp add: over_def)
  show ?thesis
  proof (cases "owner s")
    case (Some t)
    then have "inside t s" using ok by blast
    then have "run_thread t s \<noteq> None" by (intro run_thread_moves) auto
    then show ?thesis using run nc by blast
  next
    case None
    show ?thesis
    proof (cases "\<forall>t. pcs s t = Finished \<or> pcs s t = Gave_up")
      case True
      then have "fire intr Unload s \<noteq> None" using assms(2) nc ok by (auto simp: over_def)
      then show ?thesis by (blast intro: copy_step.fire)
    next
      case False
      then obtain t where t: "pcs s t \<noteq> Finished" "pcs s t \<noteq> Gave_up" by blast
      have "\<exists>u. (u = Init \<or> pcs s u \<noteq> Idle) \<and> pcs s u \<noteq> Finished \<and> pcs s u \<noteq> Gave_up"
        using t idle by (cases t) (force intro: exI [of _ Work])+
      then show ?thesis using run_thread_moves None run nc by blast
    qed
  qed
qed

section \<open>Concrete runs\<close>

fun fires :: "bool \<Rightarrow> action list \<Rightarrow> shared \<Rightarrow> shared option" where
  "fires intr [] s = Some s"
| "fires intr (a # as) s = (case fire intr a s of None \<Rightarrow> None | Some s' \<Rightarrow> fires intr as s')"

lemma fires_reach: "fires intr as s = Some s' \<Longrightarrow> copy_reach intr s \<Longrightarrow> copy_reach intr s'"
proof (induction as arbitrary: s)
  case (Cons a as)
  then obtain s1 where s1: "fire intr a s = Some s1" "fires intr as s1 = Some s'"
    by (auto split: option.splits)
  from Cons.prems(2) copy_step.fire [OF s1(1)] have "copy_reach intr s1" by (rule copy_reach.move)
  then show ?case by (rule Cons.IH [OF s1(2)])
qed simp

lemmas run_simps = run_thread.simps step_defs shared_start_def LEN_def roshan_def

definition unload_run :: "action list" where
  \<comment> \<open>the init function runs to its end, the module is unloaded, the work starts\<close>
  "unload_run = replicate 12 (Run Init) @ [Unload, Run Work]"

definition signal_run :: "action list" where
  \<comment> \<open>the work takes the mutex, a signal ends the wait of the init function\<close>
  "signal_run = [Run Init, Run Work, Run Work, Run Init, Signal Init, Run Work]"

definition print_run :: "action list" where
  \<comment> \<open>the work prints after the init function has stored one byte\<close>
  "print_run = [Run Init, Run Init, Run Init, Run Init, Run Work]"

lemma unload_run_crashes:
  "\<exists>s. fires intr unload_run shared_start = Some s \<and> crashed s \<and> pcs s Init = Finished"
  by (simp add: unload_run_def run_simps numeral_eq_Suc)

lemma signal_run_crashes:
  "\<exists>s. fires True signal_run shared_start = Some s \<and> crashed s \<and> pcs s Init = Gave_up"
  by (simp add: signal_run_def run_simps)

lemma print_run_mixes:
  "\<exists>s. fires intr print_run shared_start = Some s \<and> (\<exists>d\<in>set (printed_data s). d \<notin> texts)"
  by (simp add: print_run_def texts_def run_simps)

section \<open>Properties\<close>

text \<open>
  Whatever the interleaving, whatever signals arrive and whenever the module is unloaded,
  the two threads are never in the locked region together, and whenever nobody is in it the
  array holds one of the three texts whole, with its NUL, and no longer the initial one once a
  thread has finished.
\<close>

theorem locked_copy_never_torn:
  assumes "copy_reach intr s"
  shows "(\<forall>t u. inside t s \<longrightarrow> inside u s \<longrightarrow> t = u) \<and> length (data s) = LEN \<and>
    ((\<forall>t. \<not> inside t s) \<longrightarrow> data s \<in> texts \<and> ((\<exists>t. pcs s t = Finished) \<longrightarrow> data s \<noteq> roshan))"
  using copy_lock.exclusive [of intr s] reach_array [OF assms] assms
  by (auto simp: copy_reach_steps array_inv_def LEN_def simp del: inside_simps)

lemma locked_copy_never_torn_witness:
  "\<exists>s. fires True (replicate 12 (Run Init)) shared_start = Some s \<and> length (data s) = LEN \<and>
     data s \<in> texts \<and> data s \<noteq> roshan"
proof -
  have "\<exists>s. fires True (replicate 12 (Run Init)) shared_start = Some s \<and>
      pcs s Init = Finished \<and> pcs s Work = Print_before"
    by (simp add: run_simps numeral_eq_Suc)
  then obtain s where s: "fires True (replicate 12 (Run Init)) shared_start = Some s"
    "pcs s Init = Finished" "pcs s Work = Print_before" by blast
  have "\<not> inside t s" for t using s(2,3) by (cases t) simp_all
  then show ?thesis
    using locked_copy_never_torn [OF fires_reach [OF s(1) copy_reach.boot]] s(1,2) by blast
qed

text \<open>
  C12: The two threads refine a system of atomic writes. Each of them replaces the whole text
  at most once, in one indivisible step, whatever the interleaving of the byte copies, the
  signals and the unloading: when nobody is in the locked region the array is the text of the
  last of these writes, and a thread that has finished has made its write.
\<close>

theorem locked_copy_refines_atomic:
  assumes "copy_reach intr s"
  shows "atomic_write\<^sup>*\<^sup>* atomic_start (atomic_view s) \<and>
    ((\<forall>t. \<not> inside t s) \<longrightarrow> current (atomic_view s) = data s) \<and>
    (\<forall>t. pcs s t = Finished \<longrightarrow> t \<in> writers (atomic_view s))"
proof -
  have "current (atomic_view s) = data s" if "\<forall>t. \<not> inside t s"
    using that reach_lock_ok [OF assms] unfolding lock_ok_def
    by (cases "owner s") (auto simp: atomic_view_def simp del: inside_simps)
  moreover have "atomic_write\<^sup>*\<^sup>* atomic_start (atomic_view s)"
    using copy_atomic.executions [of intr s] assms by (simp add: copy_reach_steps atomic_view_start)
  moreover have "t \<in> writers (atomic_view s)" if "pcs s t = Finished" for t
    using that by (simp add: atomic_view_def)
  ultimately show ?thesis by blast
qed

lemma locked_copy_refines_atomic_witness:
  "\<exists>s. fires False (replicate 12 (Run Init)) shared_start = Some s \<and>
     atomic_write\<^sup>*\<^sup>* atomic_start (atomic_view s) \<and> Init \<in> writers (atomic_view s)"
proof -
  have "\<exists>s. fires False (replicate 12 (Run Init)) shared_start = Some s \<and> pcs s Init = Finished"
    by (simp add: run_simps numeral_eq_Suc)
  then obtain s where s: "fires False (replicate 12 (Run Init)) shared_start = Some s" "pcs s Init = Finished"
    by blast
  then show ?thesis
    using locked_copy_refines_atomic [OF fires_reach [OF s(1) copy_reach.boot]] by blast
qed

text \<open>
  Every run of the two threads ends: each step brings them closer to the end, no thread
  ever moves backwards, and as long as the run is not over some step is possible. So nobody
  waits for the lock for ever.
\<close>

theorem locked_copy_terminates:
  assumes "copy_reach intr s"
  shows "(\<forall>s'. copy_step intr s s' \<longrightarrow> remaining s' < remaining s \<and> (\<forall>t. pcs s t \<le> pcs s' t)) \<and>
    (\<not> over s \<longrightarrow> (\<exists>s'. copy_step intr s s'))"
  using step_decreases [OF _ reach_idle [OF assms]] can_move [OF assms] by blast

lemma locked_copy_terminates_witness:
  "\<exists>s'. copy_step False shared_start s'"
  using locked_copy_terminates [OF copy_reach.boot, of False] by (simp add: over_def shared_start_def)

text \<open>
  As long as the module is in memory nothing goes wrong. But the exit functions do not
  wait for the work, so in both programs the module can be unloaded while the work has still
  to run, and the work then runs in freed memory; with the mutex the same happens when a
  signal makes the init function give up. And the prints outside the lock can show a mixture
  of two texts.
\<close>

theorem locked_copy_hazards:
  assumes "copy_reach intr s" "loaded s"
  shows "\<not> crashed s \<and>
    (\<exists>s'. copy_reach intr s' \<and> crashed s' \<and> pcs s' Init = Finished) \<and>
    (\<exists>s'. copy_reach True s' \<and> crashed s' \<and> pcs s' Init = Gave_up) \<and>
    (\<exists>s'. copy_reach intr s' \<and> (\<exists>d\<in>set (printed_data s'). d \<notin> texts))"
  using unload_run_crashes [of intr] signal_run_crashes print_run_mixes [of intr] reach_lock_ok [OF assms(1)] assms(2)
    fires_reach [OF _ copy_reach.boot]
  unfolding lock_ok_def by blast

lemma locked_copy_hazards_witness:
  "\<exists>s'. copy_reach False s' \<and> crashed s' \<and> pcs s' Init = Finished"
  using locked_copy_hazards [OF copy_reach.boot, of False] by (simp add: shared_start_def)

end
