(* ===== verification/Deferred.thy ===== *)
theory Deferred
  imports Kernel
begin

text \<open>
  The modules that hand a callback to the kernel: \<open>03_wait_queue_prog\<close>, \<open>04_std_timer_prog\<close>,
  \<open>05_hr_timer_prog\<close>, \<open>08_tasklet_prog\<close>, the queueing part of
  \<open>09_workqueue_shared_kernel_queue\<close> and \<open>10_dedicated_workqueue\<close>, and the timer of
  \<open>16_gpio_interrupt_prog\<close>. A program is transcribed as the calls of its init function, its
  callback and its exit function; a step relation runs them statement by statement against
  the documented behaviour of the kernel services, with the callback on another processor, so
  that it interleaves with the module's own functions. Parameters: the order in which things
  happen and the arrival of signals.
\<close>

section \<open>Programs\<close>

datatype call =
  pr_info string
| mod_timer | del_timer
| hrtimer_start | hrtimer_cancel
| tasklet_schedule | tasklet_kill
| schedule_work | queue_work | flush_workqueue | destroy_workqueue
| msleep
| set_condition  \<comment> \<open>\<open>condition=1\<close>\<close>
| wake_up_interruptible | wait_event_interruptible
| prepare_to_wait | recheck_condition | schedule  \<comment> \<open>what \<open>wait_event_interruptible\<close> is made of\<close>
| gpiod_get_value | free_irq_line | put_gpio

record program =
  init :: "call list"
  callback :: "call list"
  exit :: "call list"

definition wait_queue_prog :: program where
  "wait_queue_prog =
     \<lparr>init = [pr_info ''Wait Queue example'', schedule_work, pr_info ''Going to sleep'',
              wait_event_interruptible, pr_info ''woken up by work queue''],
      callback = [pr_info ''workqueue work handler'', msleep, pr_info ''Wake up the sleeping module'',
                  set_condition, wake_up_interruptible],
      exit = [pr_info ''Bye bye world'']\<rparr>"

definition std_timer_prog :: program where
  "std_timer_prog =
     \<lparr>init = [pr_info ''Standard Timer example'', mod_timer],
      callback = [pr_info ''called''],
      exit = [del_timer, pr_info ''Bye bye world'']\<rparr>"

definition hr_timer_prog :: program where
  \<comment> \<open>the callback answers \<open>HRTIMER_NORESTART\<close>: the timer is not started again\<close>
  "hr_timer_prog =
     \<lparr>init = [pr_info ''HR TIMER MODULE INIT'', pr_info ''starting HR timer'', hrtimer_start],
      callback = [pr_info ''is called''],
      exit = [hrtimer_cancel, pr_info ''Bye bye world'']\<rparr>"

definition tasklet_prog :: program where
  "tasklet_prog =
     \<lparr>init = [pr_info ''TASKLET PROG EXAMPLE'', pr_info ''schedule the tasklet'', tasklet_schedule],
      callback = [pr_info ''gets data''],
      exit = [tasklet_kill, pr_info ''Bye bye world'']\<rparr>"

definition shared_queue_prog :: program where
  "shared_queue_prog =
     \<lparr>init = [pr_info ''workqueue_shared_kernel_queue example'', schedule_work],
      callback = [pr_info ''workqueue work handler'', pr_info ''retrived data''],
      exit = [pr_info ''Bye bye world'']\<rparr>"

definition dedicated_queue_prog :: program where
  "dedicated_queue_prog =
     \<lparr>init = [pr_info ''dedicated_workqueue example'', queue_work],
      callback = [pr_info ''workqueue work handler'', pr_info ''retrived data''],
      exit = [pr_info ''workqueue flushed'', flush_workqueue, pr_info ''workqueue destoryed'',
              destroy_workqueue, pr_info ''Bye bye world'']\<rparr>"

text \<open>The timer of the interrupt example; its init and exit stand for probe and remove.\<close>

definition gpio_timer_prog :: program where
  "gpio_timer_prog =
     \<lparr>init = [mod_timer],
      callback = [gpiod_get_value, pr_info ''Timer mygpiod value'', mod_timer],
      exit = [del_timer, free_irq_line, put_gpio, pr_info ''Device is removed'']\<rparr>"

section \<open>Running a program\<close>

datatype stage = In_init | Loaded | In_exit | Unloaded

record system =
  stage :: stage
  rest :: "call list"  \<comment> \<open>what the module's own function has still to do\<close>
  running :: "call list option"  \<comment> \<open>what a started callback has still to do\<close>
  pending :: bool  \<comment> \<open>the callback waits to be started\<close>
  condition :: bool
  on_queue :: bool  \<comment> \<open>the init function is on the wait queue, marked as sleeping\<close>
  gpio :: bool
  broken :: "fault option"

definition boot :: "program \<Rightarrow> system" where
  "boot p = \<lparr>stage = In_init, rest = init p, running = None, pending = False, condition = False,
     on_queue = False, gpio = True, broken = None\<rparr>"

text \<open>
  What a call does to the system; \<open>None\<close>: the caller waits. \<open>del_timer\<close> takes a pending timer
  off the queue and does not wait for a callback that has started; \<open>hrtimer_cancel\<close> also waits
  for it; \<open>tasklet_kill\<close> and \<open>flush_workqueue\<close> wait until a pending callback has run.
\<close>

fun perform :: "call \<Rightarrow> system \<Rightarrow> system option" where
  "perform mod_timer s = Some (s\<lparr>pending := True\<rparr>)"
| "perform hrtimer_start s = Some (s\<lparr>pending := True\<rparr>)"
| "perform tasklet_schedule s = Some (s\<lparr>pending := True\<rparr>)"
| "perform schedule_work s = Some (s\<lparr>pending := True\<rparr>)"
| "perform queue_work s = Some (s\<lparr>pending := True\<rparr>)"
| "perform del_timer s = Some (s\<lparr>pending := False\<rparr>)"
| "perform hrtimer_cancel s = (if running s = None then Some (s\<lparr>pending := False\<rparr>) else None)"
| "perform tasklet_kill s = (if running s = None \<and> \<not> pending s then Some s else None)"
| "perform flush_workqueue s = (if running s = None \<and> \<not> pending s then Some s else None)"
| "perform set_condition s = Some (s\<lparr>condition := True\<rparr>)"
| "perform wake_up_interruptible s = Some (s\<lparr>on_queue := False\<rparr>)"
| "perform gpiod_get_value s = Some (if gpio s then s else s\<lparr>broken := Some Use_after_free\<rparr>)"
| "perform put_gpio s = Some (s\<lparr>gpio := False\<rparr>)"
| "perform _ s = Some s"

text \<open>
  \<open>wait_event_interruptible(my_wq, condition != 0)\<close>, as the kernel's macro has it: it looks at the
  condition and returns if it holds; otherwise it puts the caller on the queue and marks it as
  sleeping, looks at the condition again, takes the caller off and returns if it holds, and calls
  \<open>schedule\<close> if it does not. The scheduler runs the caller again only when somebody has woken it,
  which takes it off the queue; then it starts over. Only \<open>wake_up_interruptible\<close> wakes it: the
  condition alone does not. The second argument is what the caller does behind the wait.
\<close>

fun wait_stage :: "call \<Rightarrow> bool" where
  "wait_stage wait_event_interruptible = True"
| "wait_stage prepare_to_wait = True"
| "wait_stage recheck_condition = True"
| "wait_stage schedule = True"
| "wait_stage _ = False"

fun wait_move :: "call \<Rightarrow> call list \<Rightarrow> system \<Rightarrow> system option" where
  "wait_move wait_event_interruptible cs s =
     Some (s\<lparr>rest := if condition s then cs else prepare_to_wait # cs\<rparr>)"
| "wait_move prepare_to_wait cs s = Some (s\<lparr>on_queue := True, rest := recheck_condition # cs\<rparr>)"
| "wait_move recheck_condition cs s =
     Some (if condition s then s\<lparr>on_queue := False, rest := cs\<rparr> else s\<lparr>rest := schedule # cs\<rparr>)"
| "wait_move schedule cs s = (if on_queue s then None else Some (s\<lparr>rest := prepare_to_wait # cs\<rparr>))"
| "wait_move _ cs s = None"

datatype move = Main | Fire | Callback | Rmmod | Signal_main

text \<open>
  One move. The statements of a callback, and its start, need the module's memory: after the
  unload they break the system. A signal ends the sleep of the init function; a callback does not
  sleep on the queue.
\<close>

fun go :: "program \<Rightarrow> move \<Rightarrow> system \<Rightarrow> system option" where
  "go p Main s = (case rest s of
       [] \<Rightarrow> (case stage s of
           In_init \<Rightarrow> Some (s\<lparr>stage := Loaded\<rparr>) | In_exit \<Rightarrow> Some (s\<lparr>stage := Unloaded\<rparr>) | _ \<Rightarrow> None)
     | c # cs \<Rightarrow> if wait_stage c then wait_move c cs s else perform c (s\<lparr>rest := cs\<rparr>))"
| "go p Fire s =
     (if pending s \<and> running s = None
      then if stage s = Unloaded then Some (s\<lparr>broken := Some Use_after_free\<rparr>)
           else Some (s\<lparr>pending := False, running := Some (callback p)\<rparr>)
      else None)"
| "go p Callback s = (case running s of
       None \<Rightarrow> None
     | Some cs \<Rightarrow>
         if stage s = Unloaded then Some (s\<lparr>broken := Some Use_after_free\<rparr>)
         else case cs of [] \<Rightarrow> Some (s\<lparr>running := None\<rparr>)
           | c # cs \<Rightarrow> if wait_stage c then None else perform c (s\<lparr>running := Some cs\<rparr>))"
| "go p Rmmod s = (if stage s = Loaded then Some (s\<lparr>stage := In_exit, rest := exit p\<rparr>) else None)"
| "go p Signal_main s = (case rest s of
       schedule # cs \<Rightarrow> Some (s\<lparr>on_queue := False, rest := cs\<rparr>) | _ \<Rightarrow> None)"

inductive sys_step :: "program \<Rightarrow> system \<Rightarrow> move \<Rightarrow> system \<Rightarrow> bool" for p where
  go: "broken s = None \<Longrightarrow> go p m s = Some s' \<Longrightarrow> sys_step p s m s'"

inductive sys_reach :: "program \<Rightarrow> system \<Rightarrow> bool" for p where
  start: "sys_reach p (boot p)"
| step: "sys_reach p s \<Longrightarrow> sys_step p s m s' \<Longrightarrow> sys_reach p s'"

inductive_cases sys_stepE: "sys_step p s m s'"
inductive_simps sys_step_iff: "sys_step p s m s'"

fun gos :: "program \<Rightarrow> move list \<Rightarrow> system \<Rightarrow> system option" where
  "gos p [] s = Some s"
| "gos p (m # ms) s =
     (if broken s \<noteq> None then None else case go p m s of None \<Rightarrow> None | Some s' \<Rightarrow> gos p ms s')"

lemma gos_reach: "gos p ms s = Some s' \<Longrightarrow> sys_reach p s \<Longrightarrow> sys_reach p s'"
proof (induction ms arbitrary: s)
  case (Cons m ms)
  then obtain s1 where s1: "broken s = None" "go p m s = Some s1" "gos p ms s1 = Some s'"
    by (auto split: option.splits if_splits)
  from sys_reach.step [OF Cons.prems(2) sys_step.go [OF s1(1,2)]] show ?case
    by (rule Cons.IH [OF s1(3)])
qed simp

section \<open>Exit functions that wait\<close>

text \<open>Calls that start the callback, and calls that return only when it is neither pending nor running.\<close>

fun arms :: "call \<Rightarrow> bool" where
  "arms mod_timer = True"
| "arms hrtimer_start = True"
| "arms tasklet_schedule = True"
| "arms schedule_work = True"
| "arms queue_work = True"
| "arms _ = False"

fun quiets :: "call \<Rightarrow> bool" where
  "quiets hrtimer_cancel = True"
| "quiets tasklet_kill = True"
| "quiets flush_workqueue = True"
| "quiets _ = False"

fun touches_gpio :: "call \<Rightarrow> bool" where
  "touches_gpio gpiod_get_value = True"
| "touches_gpio _ = False"

lemma perform_frame:
  assumes "perform c s = Some s'"
  shows "stage s' = stage s" "rest s' = rest s" "running s' = running s"
    "\<not> touches_gpio c \<Longrightarrow> broken s' = broken s" "\<not> arms c \<Longrightarrow> pending s' \<Longrightarrow> pending s"
    "quiets c \<Longrightarrow> \<not> pending s' \<and> running s' = None"
  using assms by (cases c; auto split: if_splits)+

text \<open>
  The contract of a module that cleans up: its callback does not start itself again, and its
  exit function makes a call that waits for the callback and starts nothing.
\<close>

locale waits_for_callback =
  fixes p :: program
  assumes callback_quiet: "list_all (\<lambda>c. \<not> arms c \<and> \<not> touches_gpio c) (callback p)"
    and exit_quiet: "list_all (\<lambda>c. \<not> arms c \<and> \<not> touches_gpio c) (exit p)"
    and exit_waits: "list_ex quiets (exit p)"
    and init_quiet: "list_all (\<lambda>c. \<not> touches_gpio c) (init p)"
begin

definition safe :: "system \<Rightarrow> bool" where
  "safe s \<longleftrightarrow> broken s = None \<and> list_all (\<lambda>c. \<not> touches_gpio c) (rest s) \<and>
     (\<forall>cs. running s = Some cs \<longrightarrow> list_all (\<lambda>c. \<not> arms c \<and> \<not> touches_gpio c) cs) \<and>
     (stage s \<in> {In_exit, Unloaded} \<longrightarrow> list_all (\<lambda>c. \<not> arms c) (rest s) \<and>
        (list_ex quiets (rest s) \<or> (\<not> pending s \<and> running s = None))) \<and>
     (stage s = Unloaded \<longrightarrow> rest s = [])"

lemma safe_boot: "safe (boot p)"
  using init_quiet by (simp add: safe_def boot_def)

lemma safe_perform_main:
  assumes "safe s" "rest s = c # cs" "perform c (s\<lparr>rest := cs\<rparr>) = Some s'"
  shows "safe s'"
proof -
  note frame = perform_frame [OF assms(3)]
  have c: "\<not> touches_gpio c" using assms(1,2) by (simp add: safe_def)
  have "\<not> pending s' \<and> running s' = None" if "stage s \<in> {In_exit, Unloaded}" "\<not> list_ex quiets cs"
  proof (cases "quiets c")
    case False
    then have "\<not> arms c" "\<not> pending s" "running s = None"
      using assms(1,2) that by (auto simp: safe_def)
    then show ?thesis using frame(3,5) by auto
  qed (rule frame(6))
  then show ?thesis
    using assms(1,2) frame(1-4) c by (auto simp: safe_def)
qed

lemma safe_wait:
  assumes "safe s" "rest s = c # cs" "wait_move c cs s = Some s'"
  shows "safe s'"
  using assms by (cases c) (auto simp: safe_def split: if_splits)

lemma safe_go:
  assumes "safe s" "go p m s = Some s'"
  shows "safe s'"
proof (cases m)
  case Main
  show ?thesis
  proof (cases "rest s")
    case Nil
    then show ?thesis using assms Main by (auto simp: safe_def split: stage.splits)
  next
    case (Cons c cs)
    then show ?thesis
      using safe_perform_main [OF assms(1)] safe_wait [OF assms(1)] assms(2) Main by (auto split: if_splits)
  qed
next
  case Fire
  then show ?thesis using assms callback_quiet by (auto simp: safe_def split: if_splits)
next
  case Callback
  then obtain cs where cs: "running s = Some cs" using assms(2) by (auto split: option.splits)
  then have live: "stage s \<noteq> Unloaded" using assms(1) by (auto simp: safe_def)
  show ?thesis
  proof (cases cs)
    case Nil
    then show ?thesis using assms Callback cs live by (auto simp: safe_def)
  next
    case (Cons c ds)
    then have perf: "perform c (s\<lparr>running := Some ds\<rparr>) = Some s'"
      using assms(2) Callback cs live by (simp split: if_splits)
    have "\<not> arms c \<and> \<not> touches_gpio c" using assms(1) cs Cons by (simp add: safe_def)
    then show ?thesis using assms(1) cs Cons perform_frame [OF perf] by (auto simp: safe_def)
  qed
next
  case Rmmod
  then show ?thesis
    using assms exit_quiet exit_waits by (auto simp: safe_def list_all_iff split: if_splits)
next
  case Signal_main
  then show ?thesis
    using assms by (auto simp: safe_def split: list.splits call.splits)
qed

lemma reach_safe: "sys_reach p s \<Longrightarrow> safe s"
  by (induction rule: sys_reach.induct) (auto intro: safe_boot safe_go elim: sys_stepE)

lemma never_broken: "sys_reach p s \<Longrightarrow> broken s = None \<and> (stage s = Unloaded \<longrightarrow> \<not> pending s \<and> running s = None)"
  using reach_safe [of s] by (auto simp: safe_def)

end

interpretation hr_timer: waits_for_callback hr_timer_prog
  by unfold_locales (simp_all add: hr_timer_prog_def)

interpretation tasklet: waits_for_callback tasklet_prog
  by unfold_locales (simp_all add: tasklet_prog_def)

interpretation dedicated_queue: waits_for_callback dedicated_queue_prog
  by unfold_locales (simp_all add: dedicated_queue_prog_def)

section \<open>The wait queue\<close>

text \<open>Where the work is: not queued, before it sets the condition, before it wakes the sleeper, over.\<close>

definition work_idle :: "system \<Rightarrow> bool" where
  "work_idle s \<longleftrightarrow> \<not> condition s \<and> \<not> pending s \<and> running s = None"

definition work_ahead :: "system \<Rightarrow> bool" where
  "work_ahead s \<longleftrightarrow> \<not> condition s \<and> (if pending s then running s = None
     else \<exists>k<4. running s = Some (drop k (callback wait_queue_prog)))"

definition wake_ahead :: "system \<Rightarrow> bool" where
  "wake_ahead s \<longleftrightarrow> condition s \<and> \<not> pending s \<and> running s = Some [wake_up_interruptible]"

definition work_over :: "system \<Rightarrow> bool" where
  "work_over s \<longleftrightarrow> condition s \<and> \<not> pending s \<and> (running s = Some [] \<or> running s = None)"

lemmas work_defs = work_idle_def work_ahead_def wake_ahead_def work_over_def

text \<open>
  What the init function has still to do, by where the work is. Asleep on the queue it is only as
  long as the call that wakes it is still to come.
\<close>

inductive early_rest :: "call list \<Rightarrow> bool" where
  "early_rest [pr_info t, schedule_work, pr_info u, wait_event_interruptible, pr_info v]"
| "early_rest [schedule_work, pr_info u, wait_event_interruptible, pr_info v]"

inductive mid_rest :: "call list \<Rightarrow> bool" where
  "mid_rest [pr_info u, wait_event_interruptible, pr_info v]"
| "mid_rest [wait_event_interruptible, pr_info v]"
| "mid_rest [prepare_to_wait, pr_info v]"

inductive checking_rest :: "call list \<Rightarrow> bool" where
  "checking_rest [recheck_condition, pr_info v]"

inductive asleep_rest :: "call list \<Rightarrow> bool" where
  "asleep_rest [schedule, pr_info v]"

inductive late_rest :: "call list \<Rightarrow> bool" where
  "late_rest [pr_info v]"
| "late_rest []"

lemmas rest_intros = early_rest.intros mid_rest.intros checking_rest.intros asleep_rest.intros late_rest.intros

definition wait_inv :: "system \<Rightarrow> bool" where
  "wait_inv s \<longleftrightarrow>
     (stage s = In_init \<and>
       (early_rest (rest s) \<and> work_idle s \<or>
        mid_rest (rest s) \<and> (work_ahead s \<or> wake_ahead s \<or> work_over s) \<or>
        checking_rest (rest s) \<and> (work_ahead s \<and> on_queue s \<or> wake_ahead s \<or> work_over s) \<or>
        asleep_rest (rest s) \<and> (if on_queue s then work_ahead s \<or> wake_ahead s else work_over s))) \<or>
     late_rest (rest s) \<and> (wake_ahead s \<or> work_over s)"

text \<open>How many moves are left until the init function returns.\<close>

definition work_left :: "system \<Rightarrow> nat" where
  "work_left s = (case running s of None \<Rightarrow> if pending s then 7 else 0 | Some cs \<Rightarrow> Suc (length cs))"

definition wakes_left :: "system \<Rightarrow> nat" where
  "wakes_left s = (if work_ahead s \<or> wake_ahead s then 1 else 0)"

definition init_left :: "call list \<Rightarrow> nat \<Rightarrow> nat" where
  "init_left cs w = (case cs of [] \<Rightarrow> 1 | c # r \<Rightarrow>
     if c = wait_event_interruptible then 9 else if c = prepare_to_wait then 5 + 3 * w
     else if c = recheck_condition then 4 + 3 * w else if c = schedule then 6
     else if c = schedule_work then 19 else if length r = 4 then 20 else if length r = 2 then 10 else 2)"

definition moves_left :: "system \<Rightarrow> nat" where
  "moves_left s = init_left (rest s) (wakes_left s) + work_left s"

lemmas left_defs = moves_left_def init_left_def work_left_def wakes_left_def

lemma wait_inv_boot: "wait_inv (boot wait_queue_prog)" "moves_left (boot wait_queue_prog) = 20"
  by (simp_all add: wait_inv_def boot_def wait_queue_prog_def work_idle_def rest_intros left_defs work_ahead_def wake_ahead_def)

text \<open>Only the work itself moves the work on.\<close>

lemma work_frame [simp]:
  "work_idle (s\<lparr>rest := cs\<rparr>) = work_idle s" "work_ahead (s\<lparr>rest := cs\<rparr>) = work_ahead s"
  "wake_ahead (s\<lparr>rest := cs\<rparr>) = wake_ahead s" "work_over (s\<lparr>rest := cs\<rparr>) = work_over s"
  "work_ahead (s\<lparr>stage := g\<rparr>) = work_ahead s" "wake_ahead (s\<lparr>stage := g\<rparr>) = wake_ahead s"
  "work_over (s\<lparr>stage := g\<rparr>) = work_over s"
  "work_ahead (s\<lparr>on_queue := q\<rparr>) = work_ahead s" "wake_ahead (s\<lparr>on_queue := q\<rparr>) = wake_ahead s"
  "work_over (s\<lparr>on_queue := q\<rparr>) = work_over s"
  "work_ahead (s\<lparr>broken := e\<rparr>) = work_ahead s" "wake_ahead (s\<lparr>broken := e\<rparr>) = wake_ahead s"
  "work_over (s\<lparr>broken := e\<rparr>) = work_over s"
  "work_ahead (s\<lparr>rest := cs, pending := True\<rparr>) = (\<not> condition s \<and> running s = None)"
  by (simp_all add: work_defs)

lemma left_frame [simp]:
  "work_left (s\<lparr>rest := cs\<rparr>) = work_left s" "wakes_left (s\<lparr>rest := cs\<rparr>) = wakes_left s"
  "work_left (s\<lparr>on_queue := q\<rparr>) = work_left s" "wakes_left (s\<lparr>on_queue := q\<rparr>) = wakes_left s"
  by (simp_all add: work_left_def wakes_left_def)

lemma wakes_left_cases: "work_over s \<Longrightarrow> wakes_left s = 0" "work_ahead s \<Longrightarrow> wakes_left s = 1" "wake_ahead s \<Longrightarrow> wakes_left s = 1"
  by (auto simp: work_over_def wakes_left_def wake_ahead_def work_ahead_def)

lemma work_condition: "work_ahead s \<Longrightarrow> \<not> condition s" "wake_ahead s \<Longrightarrow> condition s" "work_over s \<Longrightarrow> condition s"
  by (simp_all add: work_defs)

lemma four_cases: "(\<exists>k<4. P k) \<longleftrightarrow> P 0 \<or> P 1 \<or> P 2 \<or> P (3 :: nat)"
  by (auto simp: less_Suc_eq eval_nat_numeral)

lemma work_fire:
  assumes "go wait_queue_prog Fire s = Some s'"
  shows "rest s' = rest s" "stage s' = stage s" "on_queue s' = on_queue s"
    "work_ahead s \<Longrightarrow> work_ahead s'" "\<not> work_idle s" "\<not> wake_ahead s" "\<not> work_over s"
proof -
  have s: "pending s" "running s = None"
    "s' = s\<lparr>broken := Some Use_after_free\<rparr> \<or> s' = s\<lparr>pending := False, running := Some (callback wait_queue_prog)\<rparr>"
    using assms by (auto split: if_splits)
  have "\<exists>k<4. Some (callback wait_queue_prog) = Some (drop k (callback wait_queue_prog))"
    by (rule exI [of _ 0]) simp
  with s show "work_ahead s \<Longrightarrow> work_ahead s'" by (auto simp: work_ahead_def)
  show "rest s' = rest s" "stage s' = stage s" "on_queue s' = on_queue s" using s(3) by auto
  show "\<not> work_idle s" "\<not> wake_ahead s" "\<not> work_over s" using s(1) by (simp_all add: work_defs)
qed

lemma work_callback:
  assumes "go wait_queue_prog Callback s = Some s'"
  shows "rest s' = rest s" "stage s' = stage s" "\<not> work_idle s"
    "work_ahead s \<Longrightarrow> (work_ahead s' \<or> wake_ahead s') \<and> on_queue s' = on_queue s"
    "wake_ahead s \<Longrightarrow> stage s \<noteq> Unloaded \<Longrightarrow> work_over s' \<and> \<not> on_queue s'"
    "wake_ahead s \<Longrightarrow> wake_ahead s' \<or> work_over s'"
    "work_over s \<Longrightarrow> work_over s' \<and> on_queue s' = on_queue s"
    "stage s \<noteq> Unloaded \<Longrightarrow> \<exists>cs. running s = Some cs \<and> running s' = (case cs of [] \<Rightarrow> None | c # cs \<Rightarrow> Some cs)"
proof -
  obtain cs where cs: "running s = Some cs" using assms by (auto split: option.splits)
  show "\<not> work_idle s" using cs by (simp add: work_idle_def)
  show "rest s' = rest s" "stage s' = stage s"
    "stage s \<noteq> Unloaded \<Longrightarrow> \<exists>cs. running s = Some cs \<and> running s' = (case cs of [] \<Rightarrow> None | c # cs \<Rightarrow> Some cs)"
    using assms cs perform_frame by (auto split: if_splits list.splits)
  show "work_over s \<Longrightarrow> work_over s' \<and> on_queue s' = on_queue s"
    using assms cs by (auto simp: work_over_def split: if_splits)
  show "wake_ahead s \<Longrightarrow> stage s \<noteq> Unloaded \<Longrightarrow> work_over s' \<and> \<not> on_queue s'"
    "wake_ahead s \<Longrightarrow> wake_ahead s' \<or> work_over s'"
    using assms by (auto simp: work_over_def wake_ahead_def split: if_splits)
  show "work_ahead s \<Longrightarrow> (work_ahead s' \<or> wake_ahead s') \<and> on_queue s' = on_queue s"
  proof -
    assume "work_ahead s"
    then have "\<not> condition s" "\<not> pending s" and
      "cs = callback wait_queue_prog \<or> cs = drop 1 (callback wait_queue_prog) \<or>
       cs = drop 2 (callback wait_queue_prog) \<or> cs = drop 3 (callback wait_queue_prog)"
      using cs by (auto simp: work_ahead_def four_cases split: if_splits)
    then show ?thesis
      using assms cs
      by (elim disjE) (auto simp: work_ahead_def wake_ahead_def four_cases wait_queue_prog_def split: if_splits)
  qed
qed

lemma early_main:
  assumes "early_rest (rest s)" "work_idle s" "go p Main s = Some s'"
  shows "stage s' = stage s \<and> moves_left s' < moves_left s \<and>
    (early_rest (rest s') \<and> work_idle s' \<or> mid_rest (rest s') \<and> work_ahead s')"
  using assms(1)
  by (cases rule: early_rest.cases)
    (use assms(2,3) in \<open>auto simp: work_idle_def work_ahead_def rest_intros left_defs\<close>)

lemma mid_main:
  assumes "mid_rest (rest s)" "work_ahead s \<or> wake_ahead s \<or> work_over s" "go p Main s = Some s'"
  shows "stage s' = stage s \<and> moves_left s' < moves_left s \<and> (work_ahead s' \<or> wake_ahead s' \<or> work_over s') \<and>
    (mid_rest (rest s') \<or> checking_rest (rest s') \<and> on_queue s' \<or> late_rest (rest s') \<and> condition s')"
proof -
  have "wakes_left s \<le> 1" by (simp add: wakes_left_def)
  with assms(1) show ?thesis
    by (cases "condition s"; cases rule: mid_rest.cases)
      (use assms(2,3) in \<open>auto simp: rest_intros moves_left_def init_left_def\<close>)
qed

lemma checking_main:
  assumes "checking_rest (rest s)" "work_ahead s \<and> on_queue s \<or> wake_ahead s \<or> work_over s" "go p Main s = Some s'"
  shows "stage s' = stage s \<and> moves_left s' < moves_left s \<and>
    (asleep_rest (rest s') \<and> on_queue s' \<and> work_ahead s' \<or> late_rest (rest s') \<and> (wake_ahead s' \<or> work_over s'))"
  using assms(1)
proof cases
  case (1 v)
  show ?thesis
  proof (cases "condition s")
    case True
    then have "s' = s\<lparr>on_queue := False, rest := [pr_info v]\<rparr>" "wake_ahead s \<or> work_over s"
      using assms(2,3) 1 work_condition(1) [of s] by auto
    then show ?thesis using 1 by (simp add: rest_intros moves_left_def init_left_def)
  next
    case False
    then have "s' = s\<lparr>rest := [schedule, pr_info v]\<rparr>" "work_ahead s" "on_queue s"
      using assms(2,3) 1 work_condition(2,3) [of s] by auto
    then show ?thesis using 1 wakes_left_cases(2) [of s] by (simp add: rest_intros moves_left_def init_left_def)
  qed
qed

lemma asleep_main:
  assumes "asleep_rest (rest s)" "if on_queue s then work_ahead s \<or> wake_ahead s else work_over s" "go p Main s = Some s'"
  shows "stage s' = stage s \<and> moves_left s' < moves_left s \<and> mid_rest (rest s') \<and> work_over s'"
  using assms(1)
proof cases
  case (1 v)
  then have "s' = s\<lparr>rest := [prepare_to_wait, pr_info v]\<rparr>" "work_over s"
    using assms(2,3) by (auto split: if_splits)
  then show ?thesis using 1 wakes_left_cases(1) [of s] by (simp add: rest_intros moves_left_def init_left_def)
qed

lemma late_main:
  assumes "late_rest (rest s)" "wake_ahead s \<or> work_over s" "go p Main s = Some s'"
  shows "late_rest (rest s') \<and> (wake_ahead s' \<or> work_over s') \<and> (stage s' = In_init \<longrightarrow> moves_left s' < moves_left s)"
  using assms(1)
  by (cases rule: late_rest.cases)
    (use assms(2,3) in \<open>auto simp: rest_intros left_defs split: stage.splits option.splits\<close>)

lemma work_moves_left:
  assumes "go wait_queue_prog m s = Some s'" "m = Fire \<or> m = Callback" "stage s = In_init"
    and "work_idle s \<or> work_ahead s \<or> wake_ahead s \<or> work_over s"
  shows "moves_left s' < moves_left s"
proof -
  have "length (callback wait_queue_prog) = 5" by (simp add: wait_queue_prog_def)
  moreover have "pending s \<Longrightarrow> running s = None" using assms(4) by (auto simp: work_defs split: if_splits)
  ultimately have "work_left s' < work_left s"
    using assms(1-3) work_callback(8) [of s s'] by (auto simp: work_left_def split: if_splits option.splits list.splits)
  moreover have "wakes_left s' \<le> wakes_left s"
  proof (cases "work_ahead s \<or> wake_ahead s")
    case True
    then show ?thesis by (auto simp: wakes_left_def)
  next
    case False
    have "\<not> work_idle s" "\<not> work_over s \<or> m = Callback"
      using assms(1,2) work_fire(5,7) [of s s'] work_callback(3) [of s s'] by auto
    then have "work_over s" "m = Callback" using False assms(4) by blast+
    then have "work_over s'" using work_callback(7) [of s s'] assms(1) by blast
    then show ?thesis using wakes_left_cases(1) by simp
  qed
  moreover have "rest s' = rest s"
    using assms(1,2) work_fire(1) [of s s'] work_callback(1) [of s s'] by auto
  moreover have "init_left cs w \<le> init_left cs w'" if "w \<le> w'" for cs w w'
    using that by (simp add: init_left_def split: list.split)
  ultimately show ?thesis unfolding moves_left_def by (metis add_le_less_mono)
qed

lemma wait_inv_go:
  assumes "wait_inv s" "go wait_queue_prog m s = Some s'" "m \<noteq> Signal_main"
  shows "wait_inv s'" "stage s' = In_init \<Longrightarrow> stage s = In_init \<and> moves_left s' < moves_left s"
proof -
  have "wait_inv s' \<and> (stage s' = In_init \<longrightarrow> stage s = In_init \<and> moves_left s' < moves_left s)"
  proof (cases m)
    case Main
    with assms(2) have main: "go wait_queue_prog Main s = Some s'" by simp
    have first: "stage s = In_init" if "stage s' = In_init"
    proof (rule ccontr)
      assume "stage s \<noteq> In_init"
      with assms(1) have "late_rest (rest s)" by (simp add: wait_inv_def)
      then show False
        by (cases rule: late_rest.cases) (use main that \<open>stage s \<noteq> In_init\<close> in \<open>auto split: stage.splits\<close>)
    qed
    from assms(1) consider "stage s = In_init" "early_rest (rest s)" "work_idle s"
      | "stage s = In_init" "mid_rest (rest s)" "work_ahead s \<or> wake_ahead s \<or> work_over s"
      | "stage s = In_init" "checking_rest (rest s)" "work_ahead s \<and> on_queue s \<or> wake_ahead s \<or> work_over s"
      | "stage s = In_init" "asleep_rest (rest s)" "if on_queue s then work_ahead s \<or> wake_ahead s else work_over s"
      | "late_rest (rest s)" "wake_ahead s \<or> work_over s"
      unfolding wait_inv_def by blast
    then show ?thesis
    proof cases
      case 1
      from early_main [OF this(2,3) main] show ?thesis using 1(1) unfolding wait_inv_def by metis
    next
      case 2
      from mid_main [OF this(2,3) main] show ?thesis
        using 2(1) work_condition [of s'] unfolding wait_inv_def by metis
    next
      case 3
      from checking_main [OF this(2,3) main] show ?thesis using 3(1) unfolding wait_inv_def by metis
    next
      case 4
      from asleep_main [OF this(2,3) main] show ?thesis using 4(1) unfolding wait_inv_def by metis
    next
      case 5
      from late_main [OF this main] show ?thesis using first unfolding wait_inv_def by blast
    qed
  next
    case Fire
    note f = work_fire [OF assms(2) [unfolded Fire]]
    have "wait_inv s'" using assms(1) f(1-3,5-7) f(4) by (auto simp: wait_inv_def split: if_splits)
    moreover have "work_idle s \<or> work_ahead s \<or> wake_ahead s \<or> work_over s"
      using assms(1) by (auto simp: wait_inv_def split: if_splits)
    ultimately show ?thesis using work_moves_left [OF assms(2)] f(2) Fire by auto
  next
    case Callback
    note f = work_callback [OF assms(2) [unfolded Callback]]
    have "stage s \<noteq> Unloaded" if "stage s = In_init" using that by simp
    then have "wait_inv s'"
      using assms(1) f(1-3) f(4-7) by (auto simp: wait_inv_def split: if_splits)
    moreover have "work_idle s \<or> work_ahead s \<or> wake_ahead s \<or> work_over s"
      using assms(1) by (auto simp: wait_inv_def split: if_splits)
    ultimately show ?thesis using work_moves_left [OF assms(2)] f(2) Callback by auto
  next
    case Rmmod
    then have "stage s = Loaded" "s' = s\<lparr>stage := In_exit, rest := exit wait_queue_prog\<rparr>"
      using assms(2) by (auto split: if_splits)
    then show ?thesis using assms(1) by (auto simp: wait_inv_def work_defs wait_queue_prog_def rest_intros)
  qed (use assms(3) in simp)
  then show "wait_inv s'" "stage s' = In_init \<Longrightarrow> stage s = In_init \<and> moves_left s' < moves_left s" by blast+
qed

lemma wait_inv_gos:
  "gos wait_queue_prog ms s = Some s' \<Longrightarrow> Signal_main \<notin> set ms \<Longrightarrow> wait_inv s \<Longrightarrow>
   wait_inv s' \<and> (stage s' = In_init \<longrightarrow> stage s = In_init \<and> length ms + moves_left s' \<le> moves_left s)"
proof (induction ms arbitrary: s)
  case (Cons m ms)
  then obtain s1 where "go wait_queue_prog m s = Some s1" "gos wait_queue_prog ms s1 = Some s'"
    by (auto split: option.splits if_splits)
  with Cons show ?case using wait_inv_go [of s m s1] by fastforce
qed simp

lemma wait_inv_moves:
  assumes "wait_inv s" "stage s = In_init"
  shows "\<exists>m s'. m \<noteq> Signal_main \<and> go wait_queue_prog m s = Some s'"
proof -
  have work: ?thesis if "work_ahead s \<or> wake_ahead s"
  proof (cases "running s")
    case None
    then have "go wait_queue_prog Fire s \<noteq> None" using that by (auto simp: work_ahead_def wake_ahead_def split: if_splits)
    then show ?thesis by blast
  next
    case (Some cs)
    have wake: "wake_up_interruptible \<in> set (callback wait_queue_prog)" by (simp add: wait_queue_prog_def)
    have "set cs \<subseteq> set (callback wait_queue_prog)"
      using that Some wake set_drop_subset by (auto simp: work_ahead_def wake_ahead_def split: if_splits dest: in_set_dropD)
    moreover have "\<not> wait_stage c \<and> perform c (s\<lparr>running := r\<rparr>) \<noteq> None" if "c \<in> set (callback wait_queue_prog)" for c r
      using that by (auto simp: wait_queue_prog_def)
    ultimately have "\<forall>c\<in>set cs. \<forall>r. \<not> wait_stage c \<and> perform c (s\<lparr>running := r\<rparr>) \<noteq> None" by blast
    then have "go wait_queue_prog Callback s \<noteq> None" using Some assms(2) by (cases cs) auto
    then show ?thesis by blast
  qed
  have main: ?thesis if "go wait_queue_prog Main s \<noteq> None" using that by blast
  from assms consider "early_rest (rest s)" | "mid_rest (rest s)" | "checking_rest (rest s)"
    | "asleep_rest (rest s)" "\<not> on_queue s" | "late_rest (rest s)" | "work_ahead s \<or> wake_ahead s"
    unfolding wait_inv_def by (auto split: if_splits)
  then show ?thesis
  proof cases
    case 1 then show ?thesis by (cases rule: early_rest.cases) (auto intro!: main)
  next
    case 2 then show ?thesis by (cases rule: mid_rest.cases) (auto intro!: main)
  next
    case 3 then show ?thesis by (cases rule: checking_rest.cases) (auto intro!: main)
  next
    case 4
    from 4(1) show ?thesis by (cases rule: asleep_rest.cases) (use 4(2) in \<open>auto intro!: main\<close>)
  next
    case 5 then show ?thesis by (cases rule: late_rest.cases) (use assms(2) in \<open>auto intro!: main\<close>)
  next
    case 6 then show ?thesis by (rule work)
  qed
qed

section \<open>Exit functions that do not wait\<close>

definition rmmod_run :: "program \<Rightarrow> move list" where
  \<comment> \<open>the init function runs through, the callback starts, the module is removed, the callback goes on\<close>
  "rmmod_run p = replicate (Suc (length (init p))) Main @ [Fire, Rmmod] @ replicate (Suc (length (exit p))) Main @ [Callback]"

definition signal_rmmod_run :: "move list" where
  \<comment> \<open>a signal ends the wait of the init function\<close>
  "signal_rmmod_run = replicate 6 Main @ [Signal_main, Main, Main, Rmmod, Main, Main, Fire]"

definition rearm_run :: "move list" where
  \<comment> \<open>the timer of the interrupt example is removed while its callback runs, which then starts it again\<close>
  "rearm_run = [Main, Main, Fire, Callback, Callback, Rmmod, Main, Callback, Main, Main, Main, Main]"

definition gpio_run :: "move list" where
  \<comment> \<open>the callback reads the line after the remove has given it back\<close>
  "gpio_run = [Main, Main, Fire, Rmmod, Main, Main, Main, Callback]"

lemmas move_simps = boot_def eval_nat_numeral

lemma std_timer_breaks:
  "\<exists>s. gos std_timer_prog (rmmod_run std_timer_prog) (boot std_timer_prog) = Some s \<and> broken s = Some Use_after_free"
  by (simp add: rmmod_run_def std_timer_prog_def boot_def)

lemma shared_queue_breaks:
  "\<exists>s. gos shared_queue_prog (rmmod_run shared_queue_prog) (boot shared_queue_prog) = Some s \<and>
     broken s = Some Use_after_free"
  by (simp add: rmmod_run_def shared_queue_prog_def boot_def)

lemma wait_queue_breaks:
  "\<exists>s. gos wait_queue_prog signal_rmmod_run (boot wait_queue_prog) = Some s \<and> broken s = Some Use_after_free"
  by (simp add: signal_rmmod_run_def wait_queue_prog_def boot_def eval_nat_numeral)

lemma gpio_timer_breaks:
  "\<exists>s. gos gpio_timer_prog rearm_run (boot gpio_timer_prog) = Some s \<and> stage s = Unloaded \<and> pending s"
  "\<exists>s. gos gpio_timer_prog gpio_run (boot gpio_timer_prog) = Some s \<and> broken s = Some Use_after_free \<and>
     stage s = In_exit"
  by (simp_all add: rearm_run_def gpio_run_def gpio_timer_prog_def boot_def)

section \<open>Properties\<close>

text \<open>
  C13: The modules whose exit function waits for the callback (\<open>hrtimer_cancel\<close>,
  \<open>tasklet_kill\<close>, \<open>flush_workqueue\<close>) can be loaded, unloaded and preempted in any order: no run
  ever uses memory that is gone, and after the unload no callback is pending or running.
\<close>

theorem waiting_exits_are_safe:
  assumes "p = hr_timer_prog \<or> p = tasklet_prog \<or> p = dedicated_queue_prog" "sys_reach p s"
  shows "broken s = None \<and> (stage s = Unloaded \<longrightarrow> \<not> pending s \<and> running s = None)"
  using assms hr_timer.never_broken tasklet.never_broken dedicated_queue.never_broken by blast

lemma waiting_exits_are_safe_witness:
  "\<exists>s. gos dedicated_queue_prog ([Main, Main, Main, Rmmod, Main, Fire, Callback, Callback, Callback] @ replicate 5 Main)
       (boot dedicated_queue_prog) = Some s \<and> stage s = Unloaded \<and> \<not> pending s \<and> running s = None"
proof -
  have "\<exists>s. gos dedicated_queue_prog ([Main, Main, Main, Rmmod, Main, Fire, Callback, Callback, Callback] @ replicate 5 Main)
       (boot dedicated_queue_prog) = Some s \<and> stage s = Unloaded"
    by (simp add: dedicated_queue_prog_def boot_def eval_nat_numeral)
  then obtain s where s: "gos dedicated_queue_prog ([Main, Main, Main, Rmmod, Main, Fire, Callback, Callback, Callback] @ replicate 5 Main)
       (boot dedicated_queue_prog) = Some s" "stage s = Unloaded" by blast
  show ?thesis
    using waiting_exits_are_safe [OF _ gos_reach [OF s(1) sys_reach.start]] s by simp
qed

text \<open>
  The other modules can break. The standard timer's \<open>del_timer\<close> does not wait for a callback
  that has started, and the shared queue's exit function waits for nothing, so in both the
  callback can go on in freed memory; so can the wait queue's work when a signal ends the
  wait of its init function. The callback of the interrupt example can read the line after the
  remove gave it back, and can start the timer again after \<open>del_timer\<close>, so that it is pending
  when the driver is gone.
\<close>

theorem unsafe_exits_break:
  "(\<exists>s. sys_reach std_timer_prog s \<and> broken s = Some Use_after_free) \<and>
   (\<exists>s. sys_reach shared_queue_prog s \<and> broken s = Some Use_after_free) \<and>
   (\<exists>s. sys_reach wait_queue_prog s \<and> broken s = Some Use_after_free) \<and>
   (\<exists>s. sys_reach gpio_timer_prog s \<and> broken s = Some Use_after_free \<and> stage s = In_exit) \<and>
   (\<exists>s. sys_reach gpio_timer_prog s \<and> stage s = Unloaded \<and> pending s)"
  using std_timer_breaks shared_queue_breaks wait_queue_breaks gpio_timer_breaks gos_reach [OF _ sys_reach.start]
  by blast

text \<open>
  C37: The wake-up of the wait queue example is never lost. A sleeping init function runs again only
  when the work calls \<open>wake_up_interruptible\<close>. As long as no signal arrives, and whatever the order
  in which the init function and the work run, also when the work comes between its look at the
  condition and its sleep: the init function returns only after the work has set the condition;
  until it has returned some move is always possible; and it has returned after at most 20 moves.
\<close>

theorem wait_queue_no_lost_wakeup:
  assumes "gos wait_queue_prog ms (boot wait_queue_prog) = Some s" "Signal_main \<notin> set ms"
  shows "if stage s = In_init then length ms < 20 \<and> (\<exists>m s'. m \<noteq> Signal_main \<and> go wait_queue_prog m s = Some s')
    else condition s"
proof -
  from wait_inv_gos [OF assms wait_inv_boot(1)] have inv: "wait_inv s" and
    left: "stage s = In_init \<longrightarrow> length ms + moves_left s \<le> 20" by (simp_all add: wait_inv_boot(2))
  have "0 < moves_left s" by (simp add: moves_left_def init_left_def split: list.split)
  moreover have "condition s" if "stage s \<noteq> In_init"
    using inv that work_condition by (auto simp: wait_inv_def)
  ultimately show ?thesis using left wait_inv_moves [OF inv] by auto
qed

lemma wait_queue_no_lost_wakeup_witness:
  "\<exists>s. gos wait_queue_prog (replicate 6 Main @ [Fire] @ replicate 5 Callback @ replicate 5 Main)
      (boot wait_queue_prog) = Some s \<and> stage s = Loaded \<and> condition s"
proof -
  let ?ms = "replicate 6 Main @ [Fire] @ replicate 5 Callback @ replicate 5 Main"
  have "\<exists>s. gos wait_queue_prog ?ms (boot wait_queue_prog) = Some s \<and> stage s = Loaded"
    by (simp add: wait_queue_prog_def boot_def eval_nat_numeral)
  then obtain s where "gos wait_queue_prog ?ms (boot wait_queue_prog) = Some s" "stage s = Loaded" by blast
  with wait_queue_no_lost_wakeup [OF this(1)] show ?thesis by auto
qed

end
