(* ===== verification/Workqueues.thy ===== *)
theory Workqueues
  imports Kernel
begin

text \<open>
  The memory of \<open>09_workqueue_shared_kernel_queue\<close> and \<open>10_dedicated_workqueue\<close>: the init
  functions allocate a work item and a text, fill the text and queue the item; the handler
  prints the text and frees the item. State: the blocks handed out by \<open>kmalloc\<close> with the
  bytes that may be used, and the queued items. Parameters: the answers of \<open>kmalloc\<close> (\<open>None\<close>:
  it failed; otherwise the number of bytes really usable, at least what was asked for) and of
  \<open>create_singlethread_workqueue\<close>. The two programs differ in the queue only, so one
  definition serves both (\<open>dedicated\<close>).
\<close>

definition LEN :: int where "LEN = 7"

definition sizeof_int :: nat where
  \<comment> \<open>\<open>sizeof(LEN)\<close>: the size of the integer constant, not its value\<close>
  "sizeof_int = 4"

definition ROSHAN :: "u8 list" where
  "ROSHAN = [82, 79, 83, 72, 65, 78, 0]"

record work_item =
  item :: nat  \<comment> \<open>the block of the item\<close>
  attr :: nat  \<comment> \<open>the block of the text\<close>

record queue_state =
  blocks :: "nat \<Rightarrow> u8 list option"
  fresh :: nat
  queued :: "work_item list"
  handled :: "u8 list list"

definition queue_start :: queue_state where
  "queue_start = \<lparr>blocks = (\<lambda>_. None), fresh = 0, queued = [], handled = []\<rparr>"

definition kmalloc :: "nat option \<Rightarrow> queue_state \<Rightarrow> nat option \<times> queue_state" where
  "kmalloc usable s = (case usable of
       None \<Rightarrow> (None, s)
     | Some n \<Rightarrow> (Some (fresh s), s\<lparr>blocks := (blocks s)(fresh s \<mapsto> replicate n 0), fresh := Suc (fresh s)\<rparr>))"

definition kfree :: "nat \<Rightarrow> queue_state \<Rightarrow> queue_state outcome" where
  "kfree b s = (case blocks s b of
       None \<Rightarrow> Fault Use_after_free | Some xs \<Rightarrow> Ret (s\<lparr>blocks := (blocks s)(b := None)\<rparr>))"

definition store :: "nat \<Rightarrow> nat \<Rightarrow> u8 \<Rightarrow> queue_state \<Rightarrow> queue_state outcome" where
  "store b i c s = (case blocks s b of
       None \<Rightarrow> Fault Use_after_free
     | Some xs \<Rightarrow> if i < length xs then Ret (s\<lparr>blocks := (blocks s)(b \<mapsto> xs[i := c])\<rparr>) else Fault Out_of_bounds)"

text \<open>The loop that fills the text: \<open>n\<close> turns are left, the index is \<open>i\<close>.\<close>

fun fill :: "nat \<Rightarrow> nat \<Rightarrow> nat \<Rightarrow> queue_state \<Rightarrow> queue_state outcome" where
  "fill b i 0 s = store b i 0 s"
| "fill b i (Suc n) s = obind (store b i (ROSHAN ! i) s) (fill b (Suc i) n)"

definition workqueue_init ::
    "bool \<Rightarrow> bool \<Rightarrow> nat option \<Rightarrow> nat option \<Rightarrow> queue_state \<Rightarrow> (int \<times> queue_state) outcome" where
  "workqueue_init dedicated queue_made item_ans attr_ans s =
     (let (b1, s1) = kmalloc item_ans s in
      deref b1 (\<lambda>wb. let (b2, s2) = kmalloc attr_ans s1 in
      deref b2 (\<lambda>ab. obind (fill ab 0 (nat (LEN - 1)) s2) (\<lambda>s3.
        if dedicated \<and> \<not> queue_made then Fault Null_deref
        else Ret (0, s3\<lparr>queued := queued s3 @ [\<lparr>item = wb, attr = ab\<rparr>]\<rparr>)))))"

definition work_handler :: "work_item \<Rightarrow> queue_state \<Rightarrow> queue_state outcome" where
  "work_handler w s = (case blocks s (attr w) of
       None \<Rightarrow> Fault Use_after_free
     | Some xs \<Rightarrow>
         if 0 \<in> set xs then kfree (item w) (s\<lparr>handled := handled s @ [takeWhile (\<lambda>c. c \<noteq> 0) xs]\<rparr>)
         else Fault Out_of_bounds)"

text \<open>The queue runs its items in order; \<open>flush_workqueue\<close> of the dedicated queue's exit runs them all.\<close>

fun run_items :: "work_item list \<Rightarrow> queue_state \<Rightarrow> queue_state outcome" where
  "run_items [] s = Ret s"
| "run_items (w # ws) s = obind (work_handler w s) (run_items ws)"

definition dedicated_workqueue_exit :: "queue_state \<Rightarrow> queue_state outcome" where
  "dedicated_workqueue_exit s = run_items (queued s) (s\<lparr>queued := []\<rparr>)"

section \<open>Filling the text\<close>

lemma fill_fits:
  "blocks s b = Some xs \<Longrightarrow> i + n < length xs \<Longrightarrow> length ROSHAN = Suc (i + n) \<Longrightarrow> take i xs = take i ROSHAN \<Longrightarrow>
   fill b i n s = Ret (s\<lparr>blocks := (blocks s)(b \<mapsto> ROSHAN @ drop (length ROSHAN) xs)\<rparr>)"
proof (induction n arbitrary: i xs s)
  case 0
  have "xs[i := 0] = take i xs @ 0 # drop (Suc i) xs"
    using 0 by (simp add: upd_conv_take_nth_drop)
  moreover have "i = 6" using 0(3) by (simp add: ROSHAN_def)
  then have "take i ROSHAN @ [0] = ROSHAN" by (simp add: ROSHAN_def)
  ultimately have "xs[i := 0] = ROSHAN @ drop (length ROSHAN) xs"
    using 0 by (metis add_0_right append_Cons append_Nil append_assoc)
  then show ?case using 0 by (simp add: store_def fun_upd_def)
next
  case (Suc n)
  let ?xs = "xs[i := ROSHAN ! i]" and ?s = "s\<lparr>blocks := (blocks s)(b \<mapsto> xs[i := ROSHAN ! i])\<rparr>"
  have "take (Suc i) ?xs = take (Suc i) ROSHAN"
    using Suc.prems by (simp add: take_Suc_conv_app_nth)
  then have "fill b (Suc i) n ?s = Ret (?s\<lparr>blocks := (blocks ?s)(b \<mapsto> ROSHAN @ drop (length ROSHAN) ?xs)\<rparr>)"
    using Suc.prems by (intro Suc.IH) simp_all
  also have "drop (length ROSHAN) ?xs = drop (length ROSHAN) xs"
    using Suc.prems by simp
  also have "?s\<lparr>blocks := (blocks ?s)(b \<mapsto> ys)\<rparr> = s\<lparr>blocks := (blocks s)(b \<mapsto> ys)\<rparr>" for ys by simp
  finally show ?case using Suc.prems by (simp add: store_def fun_upd_def)
qed

lemma fill_overruns:
  "blocks s b = Some xs \<Longrightarrow> i \<le> length xs \<Longrightarrow> length xs \<le> i + n \<Longrightarrow> fill b i n s = Fault Out_of_bounds"
proof (induction n arbitrary: i xs s)
  case (Suc n)
  show ?case
  proof (cases "i < length xs")
    case True
    then show ?thesis
      using Suc.IH [of "s\<lparr>blocks := (blocks s)(b \<mapsto> xs[i := ROSHAN ! i])\<rparr>" "xs[i := ROSHAN ! i]" "Suc i"] Suc.prems
      by (simp add: store_def)
  qed (use Suc.prems in \<open>simp add: store_def\<close>)
qed (simp add: store_def)

section \<open>Properties\<close>

text \<open>
  The init functions ask for \<open>sizeof(LEN)\<close> bytes, four, and store seven: unless \<open>kmalloc\<close>
  hands out at least seven usable bytes the block is overrun, and a failed allocation is
  dereferenced. When it does fit, the handler prints the text the init function stored and
  frees the item, and the block of the text is never freed.
\<close>

theorem workqueue_memory:
  assumes "\<forall>b\<ge>fresh s. blocks s b = None" "queued s = []" "sizeof_int \<le> n"
  shows "(if int n < LEN
      then workqueue_init dedicated True (Some k) (Some n) s = Fault Out_of_bounds
      else \<exists>s1 s2. workqueue_init dedicated True (Some k) (Some n) s = Ret (0, s1) \<and>
        dedicated_workqueue_exit s1 = Ret s2 \<and> handled s2 = handled s @ [take 6 ROSHAN] \<and>
        blocks s2 (fresh s) = None \<and> blocks s2 (Suc (fresh s)) \<noteq> None) \<and>
    workqueue_init dedicated True None (Some n) s = Fault Null_deref \<and>
    workqueue_init dedicated True (Some k) None s = Fault Null_deref"
proof -
  let ?a = "Suc (fresh s)"
  define s2 where "s2 = s\<lparr>blocks := (blocks s)(fresh s \<mapsto> replicate k 0, ?a \<mapsto> replicate n 0), fresh := Suc ?a\<rparr>"
  have km: "kmalloc (Some n) (snd (kmalloc (Some k) s)) = (Some ?a, s2)" "fst (kmalloc (Some k) s) = Some (fresh s)"
    by (simp_all add: kmalloc_def s2_def)
  have blk: "blocks s2 ?a = Some (replicate n 0)" by (simp add: s2_def)
  have six: "nat (LEN - 1) = 6" by (simp add: LEN_def)
  have init: "workqueue_init dedicated True (Some k) (Some n) s = obind (fill ?a 0 6 s2) (\<lambda>s3.
      Ret (0, s3\<lparr>queued := queued s3 @ [\<lparr>item = fresh s, attr = ?a\<rparr>]\<rparr>))"
    using km by (simp add: workqueue_init_def Let_def split_beta six)
  have nulls: "workqueue_init dedicated True None (Some n) s = Fault Null_deref"
    "workqueue_init dedicated True (Some k) None s = Fault Null_deref"
    by (simp_all add: workqueue_init_def kmalloc_def)
  show ?thesis
  proof (cases "int n < LEN")
    case True
    then have "fill ?a 0 6 s2 = Fault Out_of_bounds"
      using fill_overruns [OF blk, of 0 6] by (simp add: LEN_def)
    then show ?thesis using True init nulls by simp
  next
    case False
    then have n: "7 \<le> n" by (simp add: LEN_def)
    have str: "takeWhile (\<lambda>c. c \<noteq> 0) (ROSHAN @ ys) = take 6 ROSHAN" "0 \<in> set (ROSHAN @ ys)" "length ROSHAN = 7" for ys
      by (simp_all add: ROSHAN_def)
    have "fill ?a 0 6 s2 = Ret (s2\<lparr>blocks := (blocks s2)(?a \<mapsto> ROSHAN @ drop (length ROSHAN) (replicate n 0))\<rparr>)"
      using blk n str(3) by (intro fill_fits) simp_all
    then show ?thesis
      using False init nulls assms(2) str(1,2)
      by (simp add: dedicated_workqueue_exit_def work_handler_def kfree_def s2_def del: drop_replicate)
  qed
qed

lemma workqueue_memory_witness:
  "workqueue_init False True (Some 32) (Some 4) queue_start = Fault Out_of_bounds \<and>
   (\<exists>s1. workqueue_init False True (Some 64) (Some 64) queue_start = Ret (0, s1))"
  using workqueue_memory [of queue_start 4 False 32] workqueue_memory [of queue_start 64 False 64]
  by (auto simp: queue_start_def LEN_def sizeof_int_def)

end
