(* ===== verification/Work_Lifecycle.thy ===== *)
theory Work_Lifecycle
  imports Workqueues
begin

text \<open>
  \<open>09_workqueue_shared_kernel_queue\<close> and \<open>10_dedicated_workqueue\<close> over the time a machine is up:
  the modules are loaded and unloaded any number of times while a worker of the kernel runs the
  queued items, each module with the memory operations of \<open>Workqueues\<close>. The worker takes an item
  off the queue and runs the handler as two separate moves, between which the module's own
  functions go on. State: the memory and the queue, whether the module is in memory, whether its
  exit function has been entered, and the item the worker has taken. The exit function of the
  dedicated queue waits for the queue, that of the shared queue waits for nothing.
\<close>

record life =
  heap :: queue_state
  present :: bool
  exiting :: bool
  taken :: "work_item option"
  loads :: nat  \<comment> \<open>how often the init function has returned\<close>
  hurt :: "fault option"







section \<open>Who owns which block\<close>

definition waiting :: "life \<Rightarrow> work_item list" where
  "waiting l = (case taken l of None \<Rightarrow> [] | Some w \<Rightarrow> [w]) @ queued (heap l)"










lemma waiting_simps [simp]:
  "waiting (l\<lparr>present := b\<rparr>) = waiting l" "waiting (l\<lparr>exiting := b\<rparr>) = waiting l"
  "waiting (l\<lparr>hurt := e\<rparr>) = waiting l" "waiting (l\<lparr>loads := j\<rparr>) = waiting l"
  by (simp_all add: waiting_def)




section \<open>Runs\<close>














section \<open>Properties\<close>



end
