(* ===== verification/Linked_List.thy ===== *)
theory Linked_List
  imports Kernel
begin

text \<open>
  \<open>02_linked_list_prog/linked_list_prog.c\<close>: one static and five allocated nodes are linked into
  a kernel list, printed, unlinked and freed. The list operations are those of the kernel's
  list header, which is not under src/: they are a parameter (\<open>list_ops\<close>) with the documented
  effect on the order of the entries as the hypothesis (\<open>list_documented\<close>). State: the list,
  the data of the nodes, and the allocated nodes. Parameter: which allocations fail.
\<close>

datatype node = B0 | B1 | B2 | B3 | B4 | B5

record 'h list_ops =
  ini :: "node \<Rightarrow> 'h \<Rightarrow> 'h"  \<comment> \<open>\<open>INIT_LIST_HEAD\<close>\<close>
  add :: "node \<Rightarrow> 'h \<Rightarrow> 'h"  \<comment> \<open>\<open>list_add\<close> to the head of the program\<close>
  add_tail :: "node \<Rightarrow> 'h \<Rightarrow> 'h"
  del :: "node \<Rightarrow> 'h \<Rightarrow> 'h"
  entries :: "'h \<Rightarrow> node list"  \<comment> \<open>the order in which \<open>list_for_each_entry\<close> visits the nodes\<close>

record 'h list_state =
  heap :: 'h
  data :: "node \<Rightarrow> int"
  allocated :: "node list"
  printed :: "int list"

definition dynamic :: "node list" where
  "dynamic = [B1, B2, B3, B4, B5]"

text \<open>An access through the pointer to an allocated node faults when the allocation failed.\<close>

definition via :: "(node \<Rightarrow> bool) \<Rightarrow> node \<Rightarrow> 'a \<Rightarrow> 'a outcome" where
  "via got n x = (if n = B0 \<or> got n then Ret x else Fault Null_deref)"

fun each :: "(node \<Rightarrow> bool) \<Rightarrow> (node \<Rightarrow> 'a \<Rightarrow> 'a) \<Rightarrow> node list \<Rightarrow> 'a \<Rightarrow> 'a outcome" where
  "each got f [] x = Ret x"
| "each got f (n # ns) x = obind (via got n (f n x)) (each got f ns)"

definition linked_list_prog_init ::
    "'h list_ops \<Rightarrow> (node \<Rightarrow> bool) \<Rightarrow> 'h list_state \<Rightarrow> (int \<times> 'h list_state) outcome" where
  "linked_list_prog_init L got s =
     (let s1 = s\<lparr>allocated := filter got dynamic\<rparr> in
      obind (each got (ini L) (B0 # dynamic) (heap s1)) (\<lambda>h1.
      obind (each got (add L) [B0, B1] h1) (\<lambda>h2.
      obind (each got (add_tail L) [B2] h2) (\<lambda>h3.
      obind (each got (add L) [B3, B4, B5] h3) (\<lambda>h4.
      obind (each got (\<lambda>n d. d(n := case n of B1 \<Rightarrow> 1 | B2 \<Rightarrow> 2 | B3 \<Rightarrow> 3 | B4 \<Rightarrow> 4 | B5 \<Rightarrow> 5 | B0 \<Rightarrow> d B0))
               dynamic (data s1)) (\<lambda>d.
        Ret (0, s1\<lparr>heap := h4, data := d, printed := printed s1 @ map d (entries L h4)\<rparr>)))))))"

text \<open>\<open>kfree\<close> of a node that is not allocated would be a fault; \<open>kfree\<close> of NULL does nothing.\<close>

definition free_node :: "(node \<Rightarrow> bool) \<Rightarrow> node \<Rightarrow> node list \<Rightarrow> node list outcome" where
  "free_node got n al =
     (if \<not> got n then Ret al else if n \<in> set al then Ret (remove1 n al) else Fault Use_after_free)"

fun free_nodes :: "(node \<Rightarrow> bool) \<Rightarrow> node list \<Rightarrow> node list \<Rightarrow> node list outcome" where
  "free_nodes got [] al = Ret al"
| "free_nodes got (n # ns) al = obind (free_node got n al) (free_nodes got ns)"

definition linked_list_prog_exit ::
    "'h list_ops \<Rightarrow> (node \<Rightarrow> bool) \<Rightarrow> 'h list_state \<Rightarrow> 'h list_state outcome" where
  "linked_list_prog_exit L got s =
     obind (each got (del L) (B0 # dynamic) (heap s)) (\<lambda>h.
     obind (free_nodes got dynamic (allocated s)) (\<lambda>al. Ret (s\<lparr>heap := h, allocated := al\<rparr>)))"

section \<open>The documented list\<close>

definition list_documented :: "'h list_ops \<Rightarrow> bool" where
  "list_documented L \<longleftrightarrow>
     (\<forall>n h. n \<notin> set (entries L h) \<longrightarrow> entries L (ini L n h) = entries L h) \<and>
     (\<forall>n h. n \<notin> set (entries L h) \<longrightarrow> entries L (add L n h) = n # entries L h) \<and>
     (\<forall>n h. n \<notin> set (entries L h) \<longrightarrow> entries L (add_tail L n h) = entries L h @ [n]) \<and>
     (\<forall>n h. n \<in> set (entries L h) \<longrightarrow> entries L (del L n h) = remove1 n (entries L h))"

lemma documented:
  assumes "list_documented L"
  shows "n \<notin> set (entries L h) \<Longrightarrow> entries L (ini L n h) = entries L h"
    "n \<notin> set (entries L h) \<Longrightarrow> entries L (add L n h) = n # entries L h"
    "n \<notin> set (entries L h) \<Longrightarrow> entries L (add_tail L n h) = entries L h @ [n]"
    "n \<in> set (entries L h) \<Longrightarrow> entries L (del L n h) = remove1 n (entries L h)"
  using assms by (simp_all add: list_documented_def)

lemma each_fails:
  "m \<in> set ns \<Longrightarrow> m \<noteq> B0 \<Longrightarrow> \<not> got m \<Longrightarrow> each got f ns x = Fault Null_deref"
  by (induction ns arbitrary: x) (auto simp: via_def)

text \<open>
  With every allocation the program prints 5, 4, 3, 1, 0, 2: the order of the list, not that of
  the insertions; its exit function empties the list and frees each node once. When an
  allocation fails, the init function dereferences NULL.
\<close>

lemma linked_list_prog_runs:
  assumes "list_documented L" "entries L (heap s) = []" "data s B0 = 0" "\<forall>n. got n"
  shows "\<exists>s1 s2. linked_list_prog_init L got s = Ret (0, s1) \<and> printed s1 = printed s @ [5, 4, 3, 1, 0, 2] \<and>
    linked_list_prog_exit L got s1 = Ret s2 \<and> entries L (heap s2) = [] \<and> allocated s2 = []"
proof -
  note L = documented [OF assms(1)]
  have got: "got n" for n using assms(4) by blast
  define h1 where "h1 = ini L B5 (ini L B4 (ini L B3 (ini L B2 (ini L B1 (ini L B0 (heap s))))))"
  have h1: "entries L h1 = []" by (simp add: h1_def L assms(2))
  define h4 where "h4 = add L B5 (add L B4 (add L B3 (add_tail L B2 (add L B1 (add L B0 h1)))))"
  have h4: "entries L h4 = [B5, B4, B3, B1, B0, B2]" by (simp add: h4_def L h1)
  show ?thesis
    using assms(3) h4
    by (simp add: linked_list_prog_init_def linked_list_prog_exit_def dynamic_def via_def got Let_def
        free_node_def L flip: h1_def h4_def)
qed

lemma linked_list_prog_null:
  assumes "m \<in> set dynamic" "\<not> got m"
  shows "linked_list_prog_init L got s = Fault Null_deref"
proof -
  have "m \<noteq> B0" "m \<in> set (B0 # dynamic)" using assms(1) by (auto simp: dynamic_def)
  then show ?thesis
    using each_fails [of m "B0 # dynamic" got "ini L"] assms(2) by (simp add: linked_list_prog_init_def del: each.simps)
qed

end
