(* ===== verification/Match_Tables.thy ===== *)
theory Match_Tables
  imports Platform Gpio_Irq
begin

text \<open>
  Which driver gets which device: the match tables of all bus drivers of the repository, and
  the nodes of the device trees it ships (\<open>14_pltfm_drv_by_dt/example_device_dt.dtsi\<close>,
  \<open>16_gpio_interrupt_prog/am335x-boneblack.dts\<close> and
  \<open>device_drivers/w25q32_drv/am335x-bone-common.dtsi\<close>) that a driver of the repository could
  claim. Documented: a node is handed to a driver of its bus one of whose \<open>compatible\<close> strings
  it has.
\<close>

datatype bus_kind = Platform_bus | I2c_bus | Spi_bus

record bus_driver =
  bd_bus :: bus_kind
  bd_name :: string
  bd_compatible :: "string list"  \<comment> \<open>\<open>of_match_table\<close>\<close>
  bd_ids :: "(string \<times> nat) list"  \<comment> \<open>\<open>id_table\<close>, with \<open>driver_data\<close>\<close>

definition of_platform :: "platform_driver \<Rightarrow> bus_driver" where
  "of_platform d = \<lparr>bd_bus = Platform_bus, bd_name = drv_name d, bd_compatible = map fst (of_match_table d),
     bd_ids = id_table d\<rparr>"

definition gpio_drv :: bus_driver where
  "gpio_drv = \<lparr>bd_bus = Platform_bus, bd_name = gpio_driver_name, bd_compatible = gpio_of_pcdevs_ids,
     bd_ids = gpio_pcdevs_ids\<rparr>"

definition generic_i2c_driver :: bus_driver where
  "generic_i2c_driver = \<lparr>bd_bus = I2c_bus, bd_name = ''generic_i2c_driver'',
     bd_compatible = [''generic,i2c-device''], bd_ids = [(''generic-i2c-device'', 0)]\<rparr>"

definition at24c256_i2c_drv :: bus_driver where
  "at24c256_i2c_drv = \<lparr>bd_bus = I2c_bus, bd_name = ''at24c256_i2c_drv'',
     bd_compatible = [''at24c256,i2c''], bd_ids = [(''at24c256-i2c-device'', 0)]\<rparr>"

definition W25Q32_DEVICE_ID :: nat where "W25Q32_DEVICE_ID = 0x15"

definition w25q32_driver :: bus_driver where
  "w25q32_driver = \<lparr>bd_bus = Spi_bus, bd_name = ''w25q32'',
     bd_compatible = [''w25q32,flash''], bd_ids = [(''w25q32,flash'', W25Q32_DEVICE_ID)]\<rparr>"

definition ds1302_driver :: bus_driver where
  "ds1302_driver = \<lparr>bd_bus = Spi_bus, bd_name = ''ds1302'',
     bd_compatible = [''ds1302,rtc''], bd_ids = [(''ds1302'', 0)]\<rparr>"

definition bus_drivers :: "bus_driver list" where
  "bus_drivers = [of_platform pltfm_drv_by_name, of_platform pltfm_drv_by_device_id,
     of_platform (pltfm_drv_by_dt (\<lambda>p. None)), gpio_drv, generic_i2c_driver, at24c256_i2c_drv,
     w25q32_driver, ds1302_driver]"

text \<open>The nodes by bus and \<open>compatible\<close> string.\<close>

datatype dt_node = Pltdev1 | Gpinterrupt | At24256c0 | Baseboard_eeprom | Cape_eeprom

fun node_bus :: "dt_node \<Rightarrow> bus_kind" where
  "node_bus Pltdev1 = Platform_bus"
| "node_bus Gpinterrupt = Platform_bus"
| "node_bus _ = I2c_bus"

fun compatible :: "dt_node \<Rightarrow> string" where
  "compatible Pltdev1 = ''pltfm,dev001''"
| "compatible Gpinterrupt = ''gpio-interrupt,eg''"
| "compatible At24256c0 = ''at24c256,i2c''"
| "compatible Baseboard_eeprom = ''atmel,24c256''"
| "compatible Cape_eeprom = ''atmel,24c256''"

definition claims :: "bus_driver \<Rightarrow> dt_node \<Rightarrow> bool" where
  "claims d n \<longleftrightarrow> bd_bus d = node_bus n \<and> compatible n \<in> set (bd_compatible d)"

definition claimants :: "dt_node \<Rightarrow> bus_driver list" where
  "claimants n = filter (\<lambda>d. claims d n) bus_drivers"

lemmas table_defs = bus_drivers_def claims_def claimants_def of_platform_def pltfm_drv_by_name_def
  pltfm_drv_by_device_id_def pltfm_drv_by_dt_def of_pcdevs_ids_def pcdevs_ids_def gpio_drv_def
  gpio_driver_name_def gpio_of_pcdevs_ids_def gpio_pcdevs_ids_def generic_i2c_driver_def
  at24c256_i2c_drv_def w25q32_driver_def ds1302_driver_def DEV1_def

text \<open>
  The match tables and the shipped device trees fit together: every node is claimed by at
  most one driver, namely by the one of its directory; the EEPROMs of the board and its capes
  stay with the kernel's own driver. The three platform examples cannot be registered together,
  as they share a driver name on one bus, and no other two drivers do. The shipped device trees
  have no node for either SPI driver or for the generic I2C driver.
\<close>

theorem device_tree_bindings:
  "claimants Pltdev1 = [of_platform (pltfm_drv_by_dt (\<lambda>p. None))] \<and> claimants Gpinterrupt = [gpio_drv] \<and>
   claimants At24256c0 = [at24c256_i2c_drv] \<and> claimants Baseboard_eeprom = [] \<and> claimants Cape_eeprom = [] \<and>
   map (\<lambda>d. length (filter (\<lambda>e. bd_bus e = bd_bus d \<and> bd_name e = bd_name d) bus_drivers)) bus_drivers =
     [3, 3, 3, 1, 1, 1, 1, 1] \<and>
   filter (\<lambda>d. bd_compatible d \<noteq> [] \<and> (\<forall>n. \<not> claims d n)) bus_drivers = [generic_i2c_driver, w25q32_driver, ds1302_driver]"
proof -
  have nodes: "(\<forall>n. P n) \<longleftrightarrow> P Pltdev1 \<and> P Gpinterrupt \<and> P At24256c0 \<and> P Baseboard_eeprom \<and> P Cape_eeprom" for P
    by (metis dt_node.exhaust)
  show ?thesis by (simp add: table_defs nodes)
qed

end
