(* ===== verification/Module_Param.thy ===== *)
theory Module_Param
  imports Prelude
begin

text \<open>
  \<open>01_module_param_prog/module_param_prog.c\<close>: a module with three parameters that its init
  function prints. State: the parameters. The parsing of the command line is the kernel's; its
  documented effect on a parameter is \<open>set_param\<close>: a value replaces the default, a list
  replaces the first elements of the array, and a list that is too long is refused.
\<close>

record module_params =
  myint :: int
  myattr :: string
  myarr :: "int list"

definition default_params :: module_params where
  "default_params = \<lparr>myint = 7, myattr = ''cool program'', myarr = [9, 8, 7]\<rparr>"

datatype param_line = Line_int int | Line_attr string | Line_arr int int int | Bye

definition element :: "int list \<Rightarrow> nat \<Rightarrow> (int \<Rightarrow> 'b outcome) \<Rightarrow> 'b outcome" where
  "element xs i f = (if i < length xs then f (xs ! i) else Fault Out_of_bounds)"

definition module_param_prog_init :: "module_params \<Rightarrow> (int \<times> param_line list) outcome" where
  "module_param_prog_init p =
     element (myarr p) 0 (\<lambda>a. element (myarr p) 1 (\<lambda>b. element (myarr p) 2 (\<lambda>c.
       Ret (0, [Line_int (myint p), Line_attr (myattr p), Line_arr a b c]))))"

definition module_param_prog_exit :: "param_line list" where
  "module_param_prog_exit = [Bye]"

datatype param_arg = Arg_int int | Arg_attr string | Arg_arr "int list"

fun set_param :: "module_params \<Rightarrow> param_arg \<Rightarrow> module_params option" where
  "set_param p (Arg_int n) = Some (p\<lparr>myint := n\<rparr>)"
| "set_param p (Arg_attr s) = Some (p\<lparr>myattr := s\<rparr>)"
| "set_param p (Arg_arr ns) =
     (if length ns \<le> length (myarr p) then Some (p\<lparr>myarr := ns @ drop (length ns) (myarr p)\<rparr>) else None)"

fun set_params :: "module_params \<Rightarrow> param_arg list \<Rightarrow> module_params option" where
  "set_params p [] = Some p"
| "set_params p (a # as) = (case set_param p a of None \<Rightarrow> None | Some p' \<Rightarrow> set_params p' as)"

lemma set_params_array: "set_params p as = Some q \<Longrightarrow> length (myarr q) = length (myarr p)"
proof (induction as arbitrary: p)
  case (Cons a as)
  then obtain p' where p': "set_param p a = Some p'" "set_params p' as = Some q" by (auto split: option.splits)
  from p'(1) have "length (myarr p') = length (myarr p)" by (cases a) (auto split: if_splits)
  with Cons.IH [OF p'(2)] show ?case by simp
qed simp

text \<open>
  Whatever the command line, a module that is loaded at all prints its parameters and succeeds:
  the three elements of the array are always there.
\<close>

theorem module_param_prints:
  assumes "set_params default_params as = Some p"
  shows "\<exists>a b c. myarr p = [a, b, c] \<and>
    module_param_prog_init p = Ret (0, [Line_int (myint p), Line_attr (myattr p), Line_arr a b c])"
proof -
  have "length (myarr p) = 3" using set_params_array [OF assms] by (simp add: default_params_def)
  then obtain a b c where "myarr p = [a, b, c]" by (auto simp: length_Suc_conv numeral_3_eq_3)
  then show ?thesis by (simp add: module_param_prog_init_def element_def)
qed

lemma module_param_prints_witness:
  "\<exists>p. set_params default_params [Arg_arr [1, 2], Arg_int 5] = Some p \<and>
     module_param_prog_init p = Ret (0, [Line_int 5, Line_attr ''cool program'', Line_arr 1 2 7])"
proof -
  have "\<exists>p. set_params default_params [Arg_arr [1, 2], Arg_int 5] = Some p \<and> myarr p = [1, 2, 7] \<and> myint p = 5 \<and>
      myattr p = ''cool program''"
    by (simp add: default_params_def)
  with module_param_prints show ?thesis by fastforce
qed

end
